(* ===== verification/Prelude.thy ===== *)
theory Prelude
  imports Main "HOL-Library.Word"
begin

unbundle bit_operations_syntax

text \<open>
  Shared vocabulary of the development: the machine integers of the Rust code, the
  little-endian byte encodings (\<open>to_le_bytes\<close>, \<open>from_le_bytes\<close>), a byte store as a
  function from addresses to bytes with its read-after-write algebra, and the theorem
  collections the component proofs use.
\<close>

named_theorems addr_simps \<open>byte addresses as natural numbers\<close>
named_theorems exec_simps \<open>one-step rules of the program interpreter\<close>

type_synonym u8 = "8 word"
type_synonym u16 = "16 word"
type_synonym u32 = "32 word"
type_synonym u64 = "64 word"
type_synonym usize = "64 word"

section \<open>Words\<close>

lemma unat_add_lt64: "unat (a + b :: u64) = unat a + unat b" if "unat a + unat b < 2 ^ 64"
  using that by (simp add: unat_word_ariths)

lemma unat_mult_lt64: "unat (a * b :: u64) = unat a * unat b" if "unat a * unat b < 2 ^ 64"
  using that by (simp add: unat_word_ariths)

lemma unat_ucast_u32_u64 [simp]: "unat (ucast (x :: u32) :: u64) = unat x"
  by (simp add: unsigned_ucast_eq take_bit_nat_eq_self unsigned_less [THEN less_le_trans])

lemma unat_ucast_u16_u64 [simp]: "unat (ucast (x :: u16) :: u64) = unat x"
  by (simp add: unsigned_ucast_eq take_bit_nat_eq_self unsigned_less [THEN less_le_trans])

lemma unat_u32_lt [simp]: "unat (x :: u32) < 4294967296"
  using unsigned_less [of x, where ?'a=nat] by simp

lemma unat_u16_lt [simp]: "unat (x :: u16) < 65536"
  using unsigned_less [of x, where ?'a=nat] by simp

lemma unat_u64_lt [simp]: "unat (x :: u64) < 18446744073709551616"
  using unsigned_less [of x, where ?'a=nat] by simp

lemma unat_u64_le: "unat (x :: u64) \<le> 18446744073709551615"
  using unat_u64_lt [of x] by linarith

lemma unat_u32_le: "unat (x :: u32) \<le> 4294967295"
  using unat_u32_lt [of x] by linarith

lemma unat_u16_le: "unat (x :: u16) \<le> 65535"
  using unat_u16_lt [of x] by linarith

lemma unat_ucast_u64_u32: "unat (ucast (x :: u64) :: u32) = unat x" if "unat x < 4294967296"
  using that by (simp add: unsigned_ucast_eq take_bit_nat_eq_self)

text \<open>
  A loop that rewrites the elements at the positions \<open>ss\<close> of a list in turn, and its
  special case of a prefix.
\<close>

definition update_at :: "('a \<Rightarrow> 'a) \<Rightarrow> nat list \<Rightarrow> 'a list \<Rightarrow> 'a list" where
  "update_at f ss xs = fold (\<lambda>s ys. ys[s := f (ys ! s)]) ss xs"

definition sweep :: "('a \<Rightarrow> 'a) \<Rightarrow> nat \<Rightarrow> 'a list \<Rightarrow> 'a list" where
  "sweep f n xs = map f (take n xs) @ drop n xs"

lemma length_update_at [simp]: "length (update_at f ss xs) = length xs"
  unfolding update_at_def by (induction ss arbitrary: xs) auto

lemma length_sweep [simp]: "length (sweep f n xs) = length xs"
  by (simp add: sweep_def)

lemma update_at_Nil [simp]: "update_at f [] xs = xs"
  by (simp add: update_at_def)

lemma update_at_Cons [simp]: "update_at f (s # ss) xs = update_at f ss (xs[s := f (xs ! s)])"
  by (simp add: update_at_def)

lemma nth_update_at:
  "distinct ss \<Longrightarrow> i < length xs \<Longrightarrow>
   update_at f ss xs ! i = (if i \<in> set ss then f (xs ! i) else xs ! i)"
proof (induction ss arbitrary: xs)
  case Nil
  then show ?case by simp
next
  case (Cons s ss)
  then show ?case by (cases "i = s") auto
qed

lemma nth_sweep: "i < length xs \<Longrightarrow> sweep f n xs ! i = (if i < n then f (xs ! i) else xs ! i)"
  by (auto simp: sweep_def nth_append)

lemma update_at_upt: "update_at f [0..<n] xs = sweep f n xs"
  by (rule nth_equalityI) (auto simp: nth_update_at nth_sweep)

lemma length_filter_upt:
  "n \<le> length xs \<Longrightarrow> length (filter (\<lambda>s. P (xs ! s)) [0..<n]) = length (filter P (take n xs))"
proof -
  assume "n \<le> length xs"
  then have "take n xs = map ((!) xs) [0..<n]"
    by (intro nth_equalityI) auto
  then show ?thesis by (simp add: filter_map comp_def)
qed

lemma filter_nth_update:
  "s \<notin> set ts \<Longrightarrow> filter (\<lambda>t. P (xs[s := v] ! t)) ts = filter (\<lambda>t. P (xs ! t)) ts"
  by (rule filter_cong [OF refl]) (metis nth_list_update_neq)

lemma sweep_idem: "(\<And>x. f (f x) = f x) \<Longrightarrow> sweep f n (sweep f n xs) = sweep f n xs"
  by (rule nth_equalityI) (auto simp: nth_sweep)

lemma takeWhile_drop_Nil: "n < length xs \<Longrightarrow> \<not> P (xs ! n) \<Longrightarrow> takeWhile P (drop n xs) = []"
  by (simp add: Cons_nth_drop_Suc [symmetric])

text \<open>The values of a Rust range \<open>a..b\<close>, in order.\<close>

definition word_range :: "'a::len word \<Rightarrow> 'a word \<Rightarrow> 'a word list" where
  "word_range a b = map word_of_nat [unat a..<unat b]"

lemma map_unat_word_range: "map unat (word_range a b) = [unat a..<unat (b :: 'a::len word)]"
proof -
  have "unat (word_of_nat n :: 'a word) = n" if "n < unat b" for n
  proof -
    have "n < 2 ^ LENGTH('a)"
      using that unsigned_less [of b, where ?'a = nat] by (rule less_trans)
    then show ?thesis by (simp add: unsigned_of_nat take_bit_nat_eq_self)
  qed
  then show ?thesis
    by (auto simp: word_range_def intro!: map_idI)
qed

section \<open>Little-endian byte encodings\<close>

primrec le_bytes :: "nat \<Rightarrow> 'a::len word \<Rightarrow> u8 list" where
  "le_bytes 0 w = []"
| "le_bytes (Suc n) w = ucast w # le_bytes n (drop_bit 8 w)"

primrec from_le :: "u8 list \<Rightarrow> 'a::len word" where
  "from_le [] = 0"
| "from_le (b # bs) = ucast b OR push_bit 8 (from_le bs)"

lemma length_le_bytes [simp]: "length (le_bytes n w) = n"
  by (induction n arbitrary: w) auto

lemma le_bytes_eq_Nil [simp]: "le_bytes n w = [] \<longleftrightarrow> n = 0"
  by (cases n) simp_all

lemma from_le_le_bytes: "from_le (le_bytes n w) = take_bit (8 * n) (w :: 'a::len word)"
proof (induction n arbitrary: w)
  case 0
  then show ?case by simp
next
  case (Suc n)
  show ?case
    by (rule bit_word_eqI)
      (auto simp: Suc.IH bit_simps not_le less_diff_conv algebra_simps)
qed

lemma from_le_u64 [simp]: "from_le (le_bytes 8 w) = (w :: u64)"
  by (simp add: from_le_le_bytes take_bit_word_eq_self)

lemma from_le_u32 [simp]: "from_le (le_bytes 4 w) = (w :: u32)"
  by (simp add: from_le_le_bytes take_bit_word_eq_self)

lemma from_le_u16 [simp]: "from_le (le_bytes 2 w) = (w :: u16)"
  by (simp add: from_le_le_bytes take_bit_word_eq_self)

lemma bit_from_le: "bit (from_le bs :: 'a::len word) i \<Longrightarrow> i < 8 * length bs"
proof (induction bs arbitrary: i)
  case Nil
  then show ?case by simp
next
  case (Cons b bs)
  then consider "bit (ucast b :: 'a word) i" | "8 \<le> i" "bit (from_le bs :: 'a word) (i - 8)"
    by (auto simp: bit_or_iff bit_push_bit_iff)
  then show ?case
  proof cases
    case 1
    then have "bit b i" by (simp add: bit_simps)
    then have "i < 8" using bit_imp_le_length by fastforce
    then show ?thesis by simp
  next
    case 2
    then show ?thesis using Cons.IH by fastforce
  qed
qed

lemma le_bytes_from_le:
  "8 * length bs \<le> LENGTH('a) \<Longrightarrow> le_bytes (length bs) (from_le bs :: 'a::len word) = bs"
proof (induction bs)
  case Nil
  then show ?case by simp
next
  case (Cons b bs)
  have hi: "\<not> bit b (8 + n)" for n
    using bit_imp_le_length [of b "8 + n"] by auto
  have "ucast (from_le (b # bs) :: 'a word) = b"
    using Cons.prems by (intro bit_word_eqI) (auto simp: bit_simps)
  moreover have "drop_bit 8 (from_le (b # bs) :: 'a word) = from_le bs"
    using Cons.prems
    by (intro bit_word_eqI) (auto simp: bit_simps hi dest: bit_from_le)
  ultimately show ?case using Cons by simp
qed

section \<open>Byte stores\<close>

type_synonym bytes = "nat \<Rightarrow> u8"

definition peek :: "bytes \<Rightarrow> nat \<Rightarrow> nat \<Rightarrow> u8 list" where
  "peek f a n = map f [a..<a + n]"

definition poke :: "bytes \<Rightarrow> nat \<Rightarrow> u8 list \<Rightarrow> bytes" where
  "poke f a bs = (\<lambda>x. if a \<le> x \<and> x < a + length bs then bs ! (x - a) else f x)"

definition get64 :: "bytes \<Rightarrow> nat \<Rightarrow> u64" where
  "get64 f a = from_le (peek f a 8)"

definition get32 :: "bytes \<Rightarrow> nat \<Rightarrow> u32" where
  "get32 f a = from_le (peek f a 4)"

definition put64 :: "bytes \<Rightarrow> nat \<Rightarrow> u64 \<Rightarrow> bytes" where
  "put64 f a v = poke f a (le_bytes 8 v)"

lemma length_peek [simp]: "length (peek f a n) = n"
  by (simp add: peek_def)

lemma peek_0 [simp]: "peek f a 0 = []"
  by (simp add: peek_def)

lemma nth_peek: "i < n \<Longrightarrow> peek f a n ! i = f (a + i)"
  by (simp add: peek_def)

lemma peek_cong: "(\<And>x. a \<le> x \<Longrightarrow> x < a + n \<Longrightarrow> f x = g x) \<Longrightarrow> peek f a n = peek g a n"
  by (simp add: peek_def)

lemma poke_Nil [simp]: "poke f a [] = f"
  by (auto simp: poke_def fun_eq_iff)

lemma poke_out: "x < a \<or> a + length bs \<le> x \<Longrightarrow> poke f a bs x = f x"
  by (auto simp: poke_def)

lemma peek_poke_same: "length bs = n \<Longrightarrow> peek (poke f a bs) a n = bs"
  by (rule nth_equalityI) (auto simp: nth_peek poke_def)

lemma peek_poke_disjoint:
  "a + n \<le> b \<or> b + length bs \<le> a \<Longrightarrow> peek (poke f b bs) a n = peek f a n"
  by (rule peek_cong) (auto simp: poke_def)

lemma get64_put64_same [simp]: "get64 (put64 f a v) a = v"
  by (simp add: get64_def put64_def peek_poke_same)

lemma poke_peek [simp]: "poke f a (peek f a n) = f"
  by (auto simp: poke_def fun_eq_iff nth_peek)

lemma put64_get64 [simp]: "put64 f a (get64 f a) = f"
  using le_bytes_from_le [of "peek f a 8", where ?'a = 64]
  by (simp add: put64_def get64_def)

lemma get64_put64_disjoint: "a + 8 \<le> b \<or> b + 8 \<le> a \<Longrightarrow> get64 (put64 f b v) a = get64 f a"
  by (simp add: get64_def put64_def peek_poke_disjoint)

lemma get64_poke_disjoint:
  "a + 8 \<le> b \<or> b + length bs \<le> a \<Longrightarrow> get64 (poke f b bs) a = get64 f a"
  by (simp add: get64_def peek_poke_disjoint)

lemma get32_poke_disjoint:
  "a + 4 \<le> b \<or> b + length bs \<le> a \<Longrightarrow> get32 (poke f b bs) a = get32 f a"
  by (simp add: get32_def peek_poke_disjoint)

lemma get32_poke_same [simp]: "get32 (poke f a (le_bytes 4 v)) a = v"
  by (simp add: get32_def peek_poke_same)

lemma get64_cong: "(\<And>x. a \<le> x \<Longrightarrow> x < a + 8 \<Longrightarrow> f x = g x) \<Longrightarrow> get64 f a = get64 g a"
  unfolding get64_def by (simp cong: peek_cong)

lemma get32_cong: "(\<And>x. a \<le> x \<Longrightarrow> x < a + 4 \<Longrightarrow> f x = g x) \<Longrightarrow> get32 f a = get32 g a"
  unfolding get32_def by (simp cong: peek_cong)

lemma get64_upd_disjoint: "x < a \<or> a + 8 \<le> x \<Longrightarrow> get64 (c(x := v)) a = get64 c a"
  by (rule get64_cong) auto

lemma get32_upd_disjoint: "x < a \<or> a + 4 \<le> x \<Longrightarrow> get32 (c(x := v)) a = get32 c a"
  by (rule get32_cong) auto

lemma get32_put64_disjoint: "a + 4 \<le> b \<or> b + 8 \<le> a \<Longrightarrow> get32 (put64 c b v) a = get32 c a"
  by (simp add: put64_def get32_poke_disjoint)

lemma peek_put64_disjoint: "a + n \<le> b \<or> b + 8 \<le> a \<Longrightarrow> peek (put64 c b v) a n = peek c a n"
  by (simp add: put64_def peek_poke_disjoint)

lemma peek_upd_disjoint: "x < a \<or> a + n \<le> x \<Longrightarrow> peek (c(x := v)) a n = peek c a n"
  by (rule peek_cong) auto

lemma put64_out: "x < a \<or> a + 8 \<le> x \<Longrightarrow> put64 c a v x = c x"
  by (simp add: put64_def poke_out)

lemmas field_simps_mem =
  get64_put64_disjoint get64_poke_disjoint get64_upd_disjoint get32_put64_disjoint
  get32_poke_disjoint get32_upd_disjoint peek_put64_disjoint peek_poke_disjoint
  peek_upd_disjoint peek_poke_same put64_out poke_out

text \<open>Stores that agree outside a set of addresses.\<close>

definition agree_off :: "nat set \<Rightarrow> bytes \<Rightarrow> bytes \<Rightarrow> bool" where
  "agree_off A c c' \<longleftrightarrow> (\<forall>x. x \<notin> A \<longrightarrow> c' x = c x)"

lemma agree_offD: "agree_off A c c' \<Longrightarrow> x \<notin> A \<Longrightarrow> c' x = c x"
  by (simp add: agree_off_def)

lemma agree_off_refl [simp]: "agree_off A c c"
  by (simp add: agree_off_def)

lemma agree_off_trans: "agree_off A c c' \<Longrightarrow> agree_off A c' c'' \<Longrightarrow> agree_off A c c''"
  by (simp add: agree_off_def)

lemma agree_off_poke:
  "{a..<a + length bs} \<subseteq> A \<Longrightarrow> agree_off A c c' \<Longrightarrow> agree_off A c (poke c' a bs)"
  by (auto simp: agree_off_def poke_def)

lemma agree_off_put64: "{a..<a + 8} \<subseteq> A \<Longrightarrow> agree_off A c c' \<Longrightarrow> agree_off A c (put64 c' a v)"
  by (simp add: put64_def agree_off_poke)

lemma agree_off_upd: "a \<in> A \<Longrightarrow> agree_off A c c' \<Longrightarrow> agree_off A c (c'(a := v))"
  by (auto simp: agree_off_def)

lemma get64_agree: "agree_off A c c' \<Longrightarrow> {a..<a + 8} \<inter> A = {} \<Longrightarrow> get64 c' a = get64 c a"
  by (rule get64_cong) (auto simp: agree_off_def)

end
