(* ===== verification/Layout.thy ===== *)
theory Layout
  imports Prelude
begin

text \<open>
  The binary layout of a pool, \<open>crates/fence-core/src/layout.rs\<close>: the constants of the
  header and of a record's metadata, the record states, and \<open>PoolGeometry\<close> with its
  offset functions. Offsets are \<open>usize\<close> values; the lemmas of the second half read them as
  natural numbers and show that no offset computation wraps around.
\<close>

section \<open>Constants\<close>

definition MAGIC :: u64 where "MAGIC = 0x46454E43455F4C4F"
definition HEADER_SIZE :: usize where "HEADER_SIZE = 64"
definition RECORD_META_SIZE :: usize where "RECORD_META_SIZE = 64"
definition CACHELINE :: usize where "CACHELINE = 64"

definition STATE_FREE :: u8 where "STATE_FREE = 0"
definition STATE_WRITING :: u8 where "STATE_WRITING = 1"
definition STATE_COMMITTED :: u8 where "STATE_COMMITTED = 2"
definition STATE_ABANDONED :: u8 where "STATE_ABANDONED = 3"

definition HDR_MAGIC :: usize where "HDR_MAGIC = 0"
definition HDR_CAPACITY :: usize where "HDR_CAPACITY = 8"
definition HDR_RECORD_SIZE :: usize where "HDR_RECORD_SIZE = 16"
definition HDR_MAX_HOSTS :: usize where "HDR_MAX_HOSTS = 24"
definition HDR_COMMITTED_TAIL :: usize where "HDR_COMMITTED_TAIL = 32"
definition HDR_RESERVE_TAIL :: usize where "HDR_RESERVE_TAIL = 40"
definition HDR_EPOCH :: usize where "HDR_EPOCH = 48"

definition REC_STATE :: usize where "REC_STATE = 0"
definition REC_TERM :: usize where "REC_TERM = 8"
definition REC_INDEX :: usize where "REC_INDEX = 16"
definition REC_WRITER_ID :: usize where "REC_WRITER_ID = 24"
definition REC_DATA_LEN :: usize where "REC_DATA_LEN = 32"
definition REC_CHECKSUM :: usize where "REC_CHECKSUM = 40"
definition REC_PAYLOAD :: usize where "REC_PAYLOAD = RECORD_META_SIZE"

lemmas layout_consts [simp] =
  HEADER_SIZE_def RECORD_META_SIZE_def CACHELINE_def
  HDR_MAGIC_def HDR_CAPACITY_def HDR_RECORD_SIZE_def HDR_MAX_HOSTS_def
  HDR_COMMITTED_TAIL_def HDR_RESERVE_TAIL_def HDR_EPOCH_def
  REC_STATE_def REC_TERM_def REC_INDEX_def REC_WRITER_ID_def REC_DATA_LEN_def
  REC_CHECKSUM_def REC_PAYLOAD_def

lemmas state_consts =
  STATE_FREE_def STATE_WRITING_def STATE_COMMITTED_def STATE_ABANDONED_def

lemma state_distinct [simp]:
  "STATE_FREE \<noteq> STATE_WRITING" "STATE_FREE \<noteq> STATE_COMMITTED" "STATE_FREE \<noteq> STATE_ABANDONED"
  "STATE_WRITING \<noteq> STATE_FREE" "STATE_WRITING \<noteq> STATE_COMMITTED" "STATE_WRITING \<noteq> STATE_ABANDONED"
  "STATE_COMMITTED \<noteq> STATE_FREE" "STATE_COMMITTED \<noteq> STATE_WRITING" "STATE_COMMITTED \<noteq> STATE_ABANDONED"
  "STATE_ABANDONED \<noteq> STATE_FREE" "STATE_ABANDONED \<noteq> STATE_WRITING" "STATE_ABANDONED \<noteq> STATE_COMMITTED"
  by (simp_all add: state_consts)

section \<open>The record metadata and metrics structs\<close>

text \<open>
  The two \<open>repr(C)\<close> structs exist in the source to check the offsets. A struct is the
  list of its fields in order, each with its size and alignment; \<open>field_offsets\<close> is the
  layout rule of \<open>repr(C)\<close>: every field starts at the next multiple of its alignment.
\<close>

type_synonym field = "string \<times> nat \<times> nat"

definition align_up :: "nat \<Rightarrow> nat \<Rightarrow> nat" where
  "align_up n a = (n + a - 1) div a * a"

fun field_offsets :: "nat \<Rightarrow> field list \<Rightarrow> (string \<times> nat) list" where
  "field_offsets n [] = []"
| "field_offsets n ((name, sz, al) # fs) =
     (name, align_up n al) # field_offsets (align_up n al + sz) fs"

fun struct_end :: "nat \<Rightarrow> field list \<Rightarrow> nat" where
  "struct_end n [] = n"
| "struct_end n ((name, sz, al) # fs) = struct_end (align_up n al + sz) fs"

definition struct_size :: "nat \<Rightarrow> field list \<Rightarrow> nat" where
  "struct_size al fs = align_up (struct_end 0 fs) al"

definition RecordMeta :: "field list" where
  "RecordMeta =
     [(''state'', 1, 1), (''_pad1'', 7, 1), (''term'', 8, 8), (''index'', 8, 8),
      (''writer_id'', 8, 8), (''data_len'', 4, 4), (''_pad2'', 4, 1),
      (''checksum'', 8, 8), (''_pad3'', 16, 1)]"

definition MetricsBlock :: "field list" where
  "MetricsBlock =
     [(''appends_total'', 8, 8), (''appends_failed'', 8, 8), (''bytes_written'', 8, 8),
      (''reads_total'', 8, 8), (''checksum_failures'', 8, 8), (''recovery_runs'', 8, 8),
      (''abandoned_found'', 8, 8), (''_padding'', 8, 1)]"

section \<open>Pool geometry\<close>

record pool_geometry =
  g_capacity :: u32
  g_payload_size :: u32
  g_max_hosts :: u16
  g_record_size :: u32
  g_total_size :: u64

text \<open>
  \<open>PoolGeometry::new\<close>: the three assertions are the \<open>Inl\<close> branches. The additions and
  products wrap as in a build without overflow checks.
\<close>

definition geometry_new :: "u32 \<Rightarrow> u32 \<Rightarrow> u16 \<Rightarrow> string + pool_geometry" where
  "geometry_new capacity payload_size max_hosts =
     (if \<not> capacity > 0 then Inl ''capacity must be > 0''
      else if \<not> payload_size > 0 then Inl ''payload_size must be > 0''
      else if \<not> max_hosts > 0 then Inl ''max_hosts must be > 0''
      else
        let record_size = ucast RECORD_META_SIZE + payload_size;
            records_region = (ucast record_size :: u64) * ucast capacity;
            metrics_region = CACHELINE * ucast max_hosts;
            total_size = HEADER_SIZE + records_region + metrics_region
        in Inr \<lparr>g_capacity = capacity, g_payload_size = payload_size,
                g_max_hosts = max_hosts, g_record_size = record_size,
                g_total_size = total_size\<rparr>)"

definition record_offset :: "pool_geometry \<Rightarrow> u32 \<Rightarrow> usize" where
  "record_offset g slot = HEADER_SIZE + ucast slot * ucast (g_record_size g)"

definition payload_offset :: "pool_geometry \<Rightarrow> u32 \<Rightarrow> usize" where
  "payload_offset g slot = record_offset g slot + RECORD_META_SIZE"

definition metrics_offset :: "pool_geometry \<Rightarrow> u16 \<Rightarrow> usize" where
  "metrics_offset g host_id =
     (let records_end = HEADER_SIZE + ucast (g_capacity g) * ucast (g_record_size g)
      in records_end + ucast host_id * CACHELINE)"

definition payload_max :: "pool_geometry \<Rightarrow> u32" where
  "payload_max g = g_payload_size g"

section \<open>Offsets as natural numbers\<close>

abbreviation rsz :: "pool_geometry \<Rightarrow> nat" where "rsz g \<equiv> unat (g_record_size g)"
abbreviation cap :: "pool_geometry \<Rightarrow> nat" where "cap g \<equiv> unat (g_capacity g)"
abbreviation psz :: "pool_geometry \<Rightarrow> nat" where "psz g \<equiv> unat (g_payload_size g)"
abbreviation hosts :: "pool_geometry \<Rightarrow> nat" where "hosts g \<equiv> unat (g_max_hosts g)"

definition rec_base :: "pool_geometry \<Rightarrow> nat \<Rightarrow> nat" where
  "rec_base g s = 64 + s * rsz g"

definition met_base :: "pool_geometry \<Rightarrow> nat \<Rightarrow> nat" where
  "met_base g h = 64 + cap g * rsz g + h * 64"

lemma u32_product_bound: "unat (a :: u32) * unat (b :: u32) \<le> 18446744065119617025"
proof -
  have "unat a * unat b \<le> 4294967295 * 4294967295"
    by (rule mult_le_mono) (rule unat_u32_le)+
  then show ?thesis by simp
qed

lemma unat_record_offset [addr_simps]: "unat (record_offset g s) = rec_base g (unat s)"
proof -
  have "unat s * rsz g \<le> 18446744065119617025" by (rule u32_product_bound)
  then show ?thesis
    by (simp add: record_offset_def rec_base_def unat_add_lt64 unat_mult_lt64)
qed

lemma unat_record_offset_plus [addr_simps]:
  assumes "unat c < 4294967296"
  shows "unat (record_offset g s + c) = rec_base g (unat s) + unat c"
proof -
  have "unat s * rsz g \<le> 18446744065119617025" by (rule u32_product_bound)
  with assms show ?thesis
    by (subst unat_add_lt64) (simp_all add: unat_record_offset rec_base_def)
qed

lemma unat_payload_offset: "unat (payload_offset g s) = rec_base g (unat s) + 64"
  by (simp add: payload_offset_def unat_record_offset_plus)

lemma unat_metrics_offset [addr_simps]: "unat (metrics_offset g h) = met_base g (unat h)"
proof -
  have "cap g * rsz g \<le> 18446744065119617025" by (rule u32_product_bound)
  moreover have "unat h \<le> 65535" by (rule unat_u16_le)
  ultimately show ?thesis
    by (simp add: metrics_offset_def met_base_def unat_add_lt64 unat_mult_lt64)
qed

lemma unat_metrics_offset_plus [addr_simps]:
  assumes "unat c < 4294967296"
  shows "unat (metrics_offset g h + c) = met_base g (unat h) + unat c"
proof -
  have "cap g * rsz g \<le> 18446744065119617025" by (rule u32_product_bound)
  moreover have "unat h \<le> 65535" by (rule unat_u16_le)
  ultimately show ?thesis using assms
    by (subst unat_add_lt64) (simp_all add: unat_metrics_offset met_base_def)
qed

section \<open>Well-formed geometries\<close>

text \<open>
  What \<open>PoolGeometry::new\<close> establishes when \<open>64 + payload_size\<close> does not wrap.
  \<open>geom_ok\<close> adds the alignment the configuration check asks for
  (\<open>payload_size\<close> a multiple of 8).
\<close>

definition geom_wf :: "pool_geometry \<Rightarrow> bool" where
  "geom_wf g \<longleftrightarrow> 0 < cap g \<and> 0 < psz g \<and> 0 < hosts g \<and> rsz g = 64 + psz g \<and>
     unat (g_total_size g) = 64 + cap g * rsz g + 64 * hosts g"

definition geom_ok :: "pool_geometry \<Rightarrow> bool" where
  "geom_ok g \<longleftrightarrow> geom_wf g \<and> psz g mod 8 = 0"

lemma geom_okD:
  assumes "geom_ok g"
  shows "0 < cap g" "0 < psz g" "0 < hosts g" "rsz g = 64 + psz g" "psz g mod 8 = 0"
    "rsz g mod 8 = 0" "unat (g_total_size g) = 64 + cap g * rsz g + 64 * hosts g"
proof -
  from assms show "0 < cap g" "0 < psz g" "0 < hosts g" "rsz g = 64 + psz g" "psz g mod 8 = 0"
    "unat (g_total_size g) = 64 + cap g * rsz g + 64 * hosts g"
    by (simp_all add: geom_ok_def geom_wf_def)
  then show "rsz g mod 8 = 0" by presburger
qed

lemma geometry_new_wf:
  assumes "geometry_new c p h = Inr g" and "unat p < 4294967232"
  shows "geom_wf g" and "g_capacity g = c" "g_payload_size g = p" "g_max_hosts g = h"
proof -
  have g: "g = \<lparr>g_capacity = c, g_payload_size = p, g_max_hosts = h, g_record_size = 64 + p,
      g_total_size = 64 + ucast (64 + p) * ucast c + 64 * ucast h\<rparr>"
    and pos: "0 < c" "0 < p" "0 < h"
    using assms(1) by (auto simp: geometry_new_def Let_def split: if_splits)
  have rs: "unat (64 + p) = 64 + unat p"
    using assms(2) by (simp add: unat_word_ariths)
  have "unat (64 + p) * unat c \<le> 18446744065119617025" by (rule u32_product_bound)
  moreover have "unat h \<le> 65535" by (rule unat_u16_le)
  ultimately have "unat (64 + ucast (64 + p) * ucast c + 64 * ucast h :: u64)
      = 64 + unat (64 + p) * unat c + 64 * unat h"
    by (simp add: unat_add_lt64 unat_mult_lt64)
  with g pos rs show "geom_wf g"
    by (simp add: geom_wf_def word_less_nat_alt mult.commute)
  from g show "g_capacity g = c" "g_payload_size g = p" "g_max_hosts g = h" by simp_all
qed

section \<open>Disjointness of the regions of a pool\<close>

lemma rec_base_mono: "s < t \<Longrightarrow> rec_base g s + rsz g \<le> rec_base g t"
proof -
  assume "s < t"
  then have "Suc s * rsz g \<le> t * rsz g" by (intro mult_le_mono1) simp
  then show ?thesis by (simp add: rec_base_def)
qed

lemma rec_base_ge: "64 \<le> rec_base g s"
  by (simp add: rec_base_def)

lemma rec_end_le_met: "s < cap g \<Longrightarrow> rec_base g s + rsz g \<le> met_base g h"
  using rec_base_mono [of s "cap g" g] by (simp add: rec_base_def met_base_def)

lemma met_base_mono: "h < k \<Longrightarrow> met_base g h + 64 \<le> met_base g k"
  by (simp add: met_base_def)

lemma met_end_le_total: "geom_wf g \<Longrightarrow> h < hosts g \<Longrightarrow> met_base g h + 64 \<le> unat (g_total_size g)"
  by (simp add: geom_wf_def met_base_def)

lemma met_base_ge: "64 \<le> met_base g h"
  by (simp add: met_base_def)

lemma rec_end_le_total: "geom_wf g \<Longrightarrow> s < cap g \<Longrightarrow> rec_base g s + rsz g \<le> unat (g_total_size g)"
  using rec_end_le_met [of s g 0] by (simp add: geom_wf_def met_base_def)

lemma rec_base_mod8: "geom_ok g \<Longrightarrow> rec_base g s mod 8 = 0"
  using geom_okD(6) [of g] by (metis rec_base_def mod_0_imp_dvd dvd_add dvd_mult dvd_imp_mod_0
      num_double mult_numeral_left_semiring_numeral dvd_triv_left numeral_times_numeral)

lemma met_base_mod8: "geom_ok g \<Longrightarrow> met_base g h mod 8 = 0"
  using rec_base_mod8 [of g "cap g"] unfolding rec_base_def met_base_def by presburger

end
