(* ===== verification/Backend.thy ===== *)
theory Backend
  imports Layout
begin

text \<open>
  \<open>crates/fence-core/src/{backend,mmap_backend,persistence}.rs\<close>: the mapped region and the
  methods of the trait \<open>MemoryBackend\<close> that \<open>MmapBackend\<close> implements.

  A region has two contents. \<open>cache\<close> is what loads observe and stores change: the shared,
  coherent view of the memory. \<open>media\<close> is the persistence domain: it changes when a
  cacheline is written back, by \<open>clwb\<close> or by an eviction the program does not control.
  A crash loses the cache and leaves the media (theory Crash).

  The \<open>unsafe\<close> contract of a method (range within the region, 8-byte alignment of the
  64-bit atomics, an ordering the atomic operation accepts) is checked: breaking it is a
  \<open>fault\<close>, where the compiled code panics on a \<open>debug_assert!\<close> or has undefined behaviour.
\<close>

datatype ordering = Relaxed | Release | Acquire | AcqRel | SeqCst

datatype fault =
    OutOfBounds usize nat
  | Misaligned usize
  | BadOrdering
  | Panic string
  | LoopFuel

datatype arch = X86_64 | OtherArch

record mmap =
  mm_ptr :: usize
  mm_len :: usize
  mm_arch :: arch
  cache :: bytes
  media :: bytes

section \<open>Persistence primitives\<close>

text \<open>The cacheline that holds byte \<open>x\<close> of the region.\<close>

definition line_of :: "mmap \<Rightarrow> nat \<Rightarrow> nat" where
  "line_of m x = (unat (mm_ptr m) + x) div 64"

definition write_back :: "nat \<Rightarrow> mmap \<Rightarrow> mmap" where
  "write_back l m = m\<lparr>media := (\<lambda>x. if line_of m x = l then cache m x else media m x)\<rparr>"

definition clwb :: "nat \<Rightarrow> mmap \<Rightarrow> mmap" where
  "clwb addr m =
     (case mm_arch m of X86_64 \<Rightarrow> write_back (addr div 64) m | OtherArch \<Rightarrow> m)"

text \<open>
  \<open>sfence\<close> orders the write-backs before later stores. The methods below are atomic steps
  in program order, so it leaves the state as it is.
\<close>

definition sfence :: "mmap \<Rightarrow> mmap" where
  "sfence m = m"

function clwb_loop :: "nat \<Rightarrow> nat \<Rightarrow> mmap \<Rightarrow> mmap" where
  "clwb_loop p e m = (if p < e then clwb_loop (p + 64) e (clwb p m) else m)"
  by pat_completeness auto
termination
  by (relation "measure (\<lambda>(p, e, m). e - p)") auto

declare clwb_loop.simps [simp del]

definition flush_range :: "usize \<Rightarrow> usize \<Rightarrow> mmap \<Rightarrow> mmap" where
  "flush_range addr n m =
     (if n = 0 then m
      else
        let start = addr AND NOT (CACHELINE - 1);
            e = unat addr + unat n
        in sfence (clwb_loop (unat start) e m))"

section \<open>The methods of the backend\<close>

definition in_bounds :: "mmap \<Rightarrow> usize \<Rightarrow> nat \<Rightarrow> bool" where
  "in_bounds m off n \<longleftrightarrow> unat off + n \<le> unat (mm_len m)"

definition mb_read :: "mmap \<Rightarrow> usize \<Rightarrow> nat \<Rightarrow> fault + u8 list" where
  "mb_read m off n =
     (if \<not> in_bounds m off n then Inl (OutOfBounds off n)
      else Inr (peek (cache m) (unat off) n))"

definition mb_write :: "mmap \<Rightarrow> usize \<Rightarrow> u8 list \<Rightarrow> fault + mmap" where
  "mb_write m off src =
     (if \<not> in_bounds m off (length src) then Inl (OutOfBounds off (length src))
      else Inr (m\<lparr>cache := poke (cache m) (unat off) src\<rparr>))"

definition atomic_fault :: "mmap \<Rightarrow> usize \<Rightarrow> fault option" where
  "atomic_fault m off =
     (if \<not> in_bounds m off 8 then Some (OutOfBounds off 8)
      else if unat off mod 8 \<noteq> 0 then Some (Misaligned off)
      else None)"

definition mb_load_u64 :: "mmap \<Rightarrow> usize \<Rightarrow> ordering \<Rightarrow> fault + u64" where
  "mb_load_u64 m off ord =
     (case atomic_fault m off of
        Some e \<Rightarrow> Inl e
      | None \<Rightarrow>
          if ord \<in> {Release, AcqRel} then Inl BadOrdering
          else Inr (get64 (cache m) (unat off)))"

definition mb_store_u64 :: "mmap \<Rightarrow> usize \<Rightarrow> u64 \<Rightarrow> ordering \<Rightarrow> fault + mmap" where
  "mb_store_u64 m off v ord =
     (case atomic_fault m off of
        Some e \<Rightarrow> Inl e
      | None \<Rightarrow>
          if ord \<in> {Acquire, AcqRel} then Inl BadOrdering
          else Inr (m\<lparr>cache := put64 (cache m) (unat off) v\<rparr>))"

definition mb_fetch_add_u64 :: "mmap \<Rightarrow> usize \<Rightarrow> u64 \<Rightarrow> ordering \<Rightarrow> fault + (u64 \<times> mmap)" where
  "mb_fetch_add_u64 m off delta ord =
     (case atomic_fault m off of
        Some e \<Rightarrow> Inl e
      | None \<Rightarrow>
          let old = get64 (cache m) (unat off)
          in Inr (old, m\<lparr>cache := put64 (cache m) (unat off) (old + delta)\<rparr>))"

definition mb_compare_exchange_u64 ::
    "mmap \<Rightarrow> usize \<Rightarrow> u64 \<Rightarrow> u64 \<Rightarrow> ordering \<Rightarrow> ordering \<Rightarrow> fault + ((u64 + u64) \<times> mmap)" where
  "mb_compare_exchange_u64 m off expected desired success failure =
     (case atomic_fault m off of
        Some e \<Rightarrow> Inl e
      | None \<Rightarrow>
          if failure \<in> {Release, AcqRel} then Inl BadOrdering
          else
            let actual = get64 (cache m) (unat off)
            in if actual = expected
               then Inr (Inr actual, m\<lparr>cache := put64 (cache m) (unat off) desired\<rparr>)
               else Inr (Inl actual, m))"

definition mb_load_u8 :: "mmap \<Rightarrow> usize \<Rightarrow> ordering \<Rightarrow> fault + u8" where
  "mb_load_u8 m off ord =
     (if \<not> in_bounds m off 1 then Inl (OutOfBounds off 1)
      else if ord \<in> {Release, AcqRel} then Inl BadOrdering
      else Inr (cache m (unat off)))"

definition mb_store_u8 :: "mmap \<Rightarrow> usize \<Rightarrow> u8 \<Rightarrow> ordering \<Rightarrow> fault + mmap" where
  "mb_store_u8 m off v ord =
     (if \<not> in_bounds m off 1 then Inl (OutOfBounds off 1)
      else if ord \<in> {Acquire, AcqRel} then Inl BadOrdering
      else Inr (m\<lparr>cache := (cache m)(unat off := v)\<rparr>))"

definition mb_flush :: "mmap \<Rightarrow> usize \<Rightarrow> usize \<Rightarrow> fault + mmap" where
  "mb_flush m off n =
     (if \<not> in_bounds m off (unat n) then Inl (OutOfBounds off (unat n))
      else Inr (flush_range (mm_ptr m + off) n m))"

definition mb_size :: "mmap \<Rightarrow> usize" where
  "mb_size m = mm_len m"

lemmas mb_defs =
  mb_read_def mb_write_def mb_load_u64_def mb_store_u64_def mb_fetch_add_u64_def
  mb_compare_exchange_u64_def mb_load_u8_def mb_store_u8_def mb_flush_def
  atomic_fault_def in_bounds_def

section \<open>What a flush does\<close>

lemma write_back_simps [simp]:
  "cache (write_back l m) = cache m" "mm_len (write_back l m) = mm_len m"
  "mm_ptr (write_back l m) = mm_ptr m" "mm_arch (write_back l m) = mm_arch m"
  "line_of (write_back l m) = line_of m"
  by (simp_all add: write_back_def line_of_def fun_eq_iff)

lemma clwb_simps [simp]:
  "cache (clwb a m) = cache m" "mm_len (clwb a m) = mm_len m"
  "mm_ptr (clwb a m) = mm_ptr m" "mm_arch (clwb a m) = mm_arch m"
  by (simp_all add: clwb_def split: arch.split)

lemma clwb_loop_simps [simp]:
  "cache (clwb_loop p e m) = cache m" "mm_len (clwb_loop p e m) = mm_len m"
  "mm_ptr (clwb_loop p e m) = mm_ptr m" "mm_arch (clwb_loop p e m) = mm_arch m"
  by (induction p e m rule: clwb_loop.induct; subst clwb_loop.simps; simp)+

lemma flush_range_simps [simp]:
  "cache (flush_range a n m) = cache m" "mm_len (flush_range a n m) = mm_len m"
  "mm_ptr (flush_range a n m) = mm_ptr m" "mm_arch (flush_range a n m) = mm_arch m"
  by (simp_all add: flush_range_def sfence_def Let_def)

text \<open>Every line that meets \<open>[p, e)\<close> is written back, when \<open>p\<close> is the start of a line.\<close>

lemma media_clwb_loop:
  assumes "mm_arch m = X86_64" and "p mod 64 = 0"
  shows "media (clwb_loop p e m) x =
    (if p div 64 \<le> line_of m x \<and> line_of m x * 64 < e then cache m x else media m x)"
  using assms
proof (induction p e m rule: clwb_loop.induct)
  case (1 p e m)
  show ?case
  proof (cases "p < e")
    case False
    with "1.prems" show ?thesis
      by (subst clwb_loop.simps) (auto dest: div_le_mono)
  next
    case True
    have step: "media (clwb p m) x = (if line_of m x = p div 64 then cache m x else media m x)"
      using "1.prems" by (simp add: clwb_def write_back_def)
    have ln: "line_of (clwb p m) = line_of m"
      by (simp add: line_of_def fun_eq_iff)
    have "media (clwb_loop (p + 64) e (clwb p m)) x =
        (if (p + 64) div 64 \<le> line_of m x \<and> line_of m x * 64 < e then cache m x
         else media (clwb p m) x)"
      using "1.IH" [OF True] "1.prems" by (simp add: ln)
    moreover have "p div 64 * 64 = p" using "1.prems" by presburger
    ultimately show ?thesis
      using True by (subst clwb_loop.simps) (auto simp: step)
  qed
qed

lemma unat_align_down: "unat (addr AND NOT (CACHELINE - 1)) = unat addr div 64 * 64"
proof -
  have "addr AND NOT (CACHELINE - 1) = addr AND NOT (mask 6)"
    by (simp add: mask_eq_exp_minus_1)
  also have "\<dots> = push_bit 6 (drop_bit 6 addr)"
    by (rule bit_word_eqI) (auto simp: bit_simps)
  finally have "addr AND NOT (CACHELINE - 1) = push_bit 6 (drop_bit 6 addr)" .
  then have "unat (addr AND NOT (CACHELINE - 1)) = unat (addr div 64 * 64)"
    by (simp add: push_bit_eq_mult drop_bit_eq_div)
  also have "\<dots> = (unat addr div 64 * 64) mod 2 ^ 64"
    by (simp add: unat_word_ariths unat_div mod_mult_left_eq)
  finally have "unat (addr AND NOT (CACHELINE - 1)) = (unat addr div 64 * 64) mod 2 ^ 64" .
  moreover have "unat addr div 64 * 64 < 2 ^ 64"
    using unat_u64_lt [of addr] by (intro le_less_trans [OF div_times_less_eq_dividend]) simp
  ultimately show ?thesis by simp
qed

definition mapped :: "mmap \<Rightarrow> bool" where
  "mapped m \<longleftrightarrow> unat (mm_ptr m) + unat (mm_len m) < 2 ^ 64"

lemma media_flush_range:
  assumes "mm_arch m = X86_64" and "mapped m" and "unat off + unat n \<le> unat (mm_len m)" "n \<noteq> 0"
  shows "media (flush_range (mm_ptr m + off) n m) x =
    (if line_of m (unat off) \<le> line_of m x \<and>
        line_of m x * 64 < unat (mm_ptr m) + unat off + unat n
     then cache m x else media m x)"
proof -
  have a: "unat (mm_ptr m + off) = unat (mm_ptr m) + unat off"
    using assms(2,3) by (subst unat_add_lt64) (simp_all add: mapped_def)
  show ?thesis
    using assms(1,4)
    by (simp add: flush_range_def sfence_def Let_def unat_align_down [simplified] media_clwb_loop a
        line_of_def)
qed

lemma media_flush_covers:
  assumes "mm_arch m = X86_64" "mapped m" "unat off + unat n \<le> unat (mm_len m)"
    and "unat off \<le> x" "x < unat off + unat n"
  shows "media (flush_range (mm_ptr m + off) n m) x = cache m x"
proof -
  from assms(4,5) have "n \<noteq> 0" by auto
  moreover have "line_of m x * 64 \<le> unat (mm_ptr m) + x"
    by (simp add: line_of_def div_times_less_eq_dividend)
  moreover have "line_of m (unat off) \<le> line_of m x"
    using assms(4) by (simp add: line_of_def div_le_mono)
  ultimately show ?thesis
    using assms by (simp add: media_flush_range)
qed

text \<open>On another architecture, and for an empty range, a flush does nothing.\<close>

lemma flush_range_noop: "mm_arch m \<noteq> X86_64 \<or> n = 0 \<Longrightarrow> flush_range a n m = m"
proof -
  have "clwb_loop p e m = m" if "mm_arch m = OtherArch" for p e m
    using that
    by (induction p e m rule: clwb_loop.induct; subst clwb_loop.simps; simp add: clwb_def)
  then show "mm_arch m \<noteq> X86_64 \<or> n = 0 \<Longrightarrow> flush_range a n m = m"
    by (cases "mm_arch m") (auto simp: flush_range_def sfence_def Let_def)
qed

lemma media_flush_either:
  assumes "mapped m" "unat off + unat n \<le> unat (mm_len m)"
  shows "media (flush_range (mm_ptr m + off) n m) x \<in> {cache m x, media m x}"
  using assms
  by (cases "mm_arch m = X86_64 \<and> n \<noteq> 0") (auto simp: media_flush_range flush_range_noop)

end
