(* ===== verification/Program.thy ===== *)
theory Program
  imports Backend
begin

text \<open>
  Programs over the trait \<open>MemoryBackend\<close>. The runtime reaches shared memory only through
  the methods of \<open>&dyn MemoryBackend\<close>, so an operation of the runtime is a tree: a node is
  one method call with its arguments, and what the call returns selects the subtree.
  Three readings of the same tree are used: \<open>run\<close> executes it without interruption
  (one host, no crash), \<open>step\<close> executes one call (a crash may happen between any two
  calls, and hosts interleave call by call), and \<open>crash_reach\<close> adds the cacheline
  evictions that the program does not control.
\<close>

datatype 'a prog =
    Ret 'a
  | Fail fault
  | Read usize nat "u8 list \<Rightarrow> 'a prog"
  | Write usize "u8 list" "'a prog"
  | LoadU64 usize ordering "u64 \<Rightarrow> 'a prog"
  | StoreU64 usize u64 ordering "'a prog"
  | FetchAddU64 usize u64 ordering "u64 \<Rightarrow> 'a prog"
  | CompareExchangeU64 usize u64 u64 ordering ordering "u64 + u64 \<Rightarrow> 'a prog"
  | LoadU8 usize ordering "u8 \<Rightarrow> 'a prog"
  | StoreU8 usize u8 ordering "'a prog"
  | Flush usize usize "'a prog"

primrec prog_bind :: "'a prog \<Rightarrow> ('a \<Rightarrow> 'b prog) \<Rightarrow> 'b prog" where
  "prog_bind (Ret x) f = f x"
| "prog_bind (Fail e) f = Fail e"
| "prog_bind (Read a n k) f = Read a n (\<lambda>v. prog_bind (k v) f)"
| "prog_bind (Write a bs k) f = Write a bs (prog_bind k f)"
| "prog_bind (LoadU64 a ord k) f = LoadU64 a ord (\<lambda>v. prog_bind (k v) f)"
| "prog_bind (StoreU64 a v ord k) f = StoreU64 a v ord (prog_bind k f)"
| "prog_bind (FetchAddU64 a d ord k) f = FetchAddU64 a d ord (\<lambda>v. prog_bind (k v) f)"
| "prog_bind (CompareExchangeU64 a x d o1 o2 k) f =
     CompareExchangeU64 a x d o1 o2 (\<lambda>v. prog_bind (k v) f)"
| "prog_bind (LoadU8 a ord k) f = LoadU8 a ord (\<lambda>v. prog_bind (k v) f)"
| "prog_bind (StoreU8 a v ord k) f = StoreU8 a v ord (prog_bind k f)"
| "prog_bind (Flush a n k) f = Flush a n (prog_bind k f)"

section \<open>Uninterrupted execution\<close>

primrec run :: "'a prog \<Rightarrow> mmap \<Rightarrow> fault + ('a \<times> mmap)" where
  "run (Ret x) = (\<lambda>m. Inr (x, m))"
| "run (Fail e) = (\<lambda>m. Inl e)"
| "run (Read a n k) =
     (\<lambda>m. case mb_read m a n of Inl e \<Rightarrow> Inl e | Inr v \<Rightarrow> run (k v) m)"
| "run (Write a bs k) =
     (\<lambda>m. case mb_write m a bs of Inl e \<Rightarrow> Inl e | Inr m' \<Rightarrow> run k m')"
| "run (LoadU64 a ord k) =
     (\<lambda>m. case mb_load_u64 m a ord of Inl e \<Rightarrow> Inl e | Inr v \<Rightarrow> run (k v) m)"
| "run (StoreU64 a v ord k) =
     (\<lambda>m. case mb_store_u64 m a v ord of Inl e \<Rightarrow> Inl e | Inr m' \<Rightarrow> run k m')"
| "run (FetchAddU64 a d ord k) =
     (\<lambda>m. case mb_fetch_add_u64 m a d ord of
             Inl e \<Rightarrow> Inl e | Inr vm \<Rightarrow> run (k (fst vm)) (snd vm))"
| "run (CompareExchangeU64 a x d o1 o2 k) =
     (\<lambda>m. case mb_compare_exchange_u64 m a x d o1 o2 of
             Inl e \<Rightarrow> Inl e | Inr vm \<Rightarrow> run (k (fst vm)) (snd vm))"
| "run (LoadU8 a ord k) =
     (\<lambda>m. case mb_load_u8 m a ord of Inl e \<Rightarrow> Inl e | Inr v \<Rightarrow> run (k v) m)"
| "run (StoreU8 a v ord k) =
     (\<lambda>m. case mb_store_u8 m a v ord of Inl e \<Rightarrow> Inl e | Inr m' \<Rightarrow> run k m')"
| "run (Flush a n k) =
     (\<lambda>m. case mb_flush m a n of Inl e \<Rightarrow> Inl e | Inr m' \<Rightarrow> run k m')"

lemma run_bind:
  "run (prog_bind p f) m = (case run p m of Inl e \<Rightarrow> Inl e | Inr xm \<Rightarrow> run (f (fst xm)) (snd xm))"
  by (induction p arbitrary: m) (simp_all split: sum.split)

lemma run_bindI [exec_simps]:
  "run p m = Inr (x, m') \<Longrightarrow> run (prog_bind p f) m = run (f x) m'"
  by (simp add: run_bind)

text \<open>
  The execution rules: a call whose contract holds is one step. \<open>flushed m a n\<close> is the
  region after a flush of \<open>n\<close> bytes at address \<open>a\<close>; only its media differs.
\<close>

definition flushed :: "mmap \<Rightarrow> usize \<Rightarrow> usize \<Rightarrow> mmap" where
  "flushed m a n = flush_range (mm_ptr m + a) n m"

lemma flushed_simps [simp]:
  "cache (flushed m a n) = cache m" "mm_len (flushed m a n) = mm_len m"
  "mm_ptr (flushed m a n) = mm_ptr m" "mm_arch (flushed m a n) = mm_arch m"
  "mapped (flushed m a n) = mapped m"
  by (simp_all add: flushed_def mapped_def)

lemma run_Ret [exec_simps]: "run (Ret x) m = Inr (x, m)"
  by simp

lemma run_Read [exec_simps]:
  "unat a + n \<le> unat (mm_len m) \<Longrightarrow> run (Read a n k) m = run (k (peek (cache m) (unat a) n)) m"
  by (simp add: mb_defs)

lemma run_Write [exec_simps]:
  "unat a + length bs \<le> unat (mm_len m) \<Longrightarrow>
   run (Write a bs k) m = run k (m\<lparr>cache := poke (cache m) (unat a) bs\<rparr>)"
  by (simp add: mb_defs)

lemma run_LoadU64 [exec_simps]:
  "unat a + 8 \<le> unat (mm_len m) \<Longrightarrow> unat a mod 8 = 0 \<Longrightarrow> ord \<notin> {Release, AcqRel} \<Longrightarrow>
   run (LoadU64 a ord k) m = run (k (get64 (cache m) (unat a))) m"
  by (simp add: mb_defs)

lemma run_StoreU64 [exec_simps]:
  "unat a + 8 \<le> unat (mm_len m) \<Longrightarrow> unat a mod 8 = 0 \<Longrightarrow> ord \<notin> {Acquire, AcqRel} \<Longrightarrow>
   run (StoreU64 a v ord k) m = run k (m\<lparr>cache := put64 (cache m) (unat a) v\<rparr>)"
  by (simp add: mb_defs)

lemma run_FetchAddU64 [exec_simps]:
  "unat a + 8 \<le> unat (mm_len m) \<Longrightarrow> unat a mod 8 = 0 \<Longrightarrow>
   run (FetchAddU64 a d ord k) m =
     run (k (get64 (cache m) (unat a)))
         (m\<lparr>cache := put64 (cache m) (unat a) (get64 (cache m) (unat a) + d)\<rparr>)"
  by (simp add: mb_defs Let_def)

lemma run_CompareExchangeU64 [exec_simps]:
  "unat a + 8 \<le> unat (mm_len m) \<Longrightarrow> unat a mod 8 = 0 \<Longrightarrow> o2 \<notin> {Release, AcqRel} \<Longrightarrow>
   run (CompareExchangeU64 a x d o1 o2 k) m =
     (if get64 (cache m) (unat a) = x
      then run (k (Inr x)) (m\<lparr>cache := put64 (cache m) (unat a) d\<rparr>)
      else run (k (Inl (get64 (cache m) (unat a)))) m)"
  by (simp add: mb_defs Let_def)

lemma run_LoadU8 [exec_simps]:
  "unat a < unat (mm_len m) \<Longrightarrow> ord \<notin> {Release, AcqRel} \<Longrightarrow>
   run (LoadU8 a ord k) m = run (k (cache m (unat a))) m"
  by (simp add: mb_defs)

lemma run_StoreU8 [exec_simps]:
  "unat a < unat (mm_len m) \<Longrightarrow> ord \<notin> {Acquire, AcqRel} \<Longrightarrow>
   run (StoreU8 a v ord k) m = run k (m\<lparr>cache := (cache m)(unat a := v)\<rparr>)"
  by (simp add: mb_defs)

lemma run_Flush [exec_simps]:
  "unat a + unat n \<le> unat (mm_len m) \<Longrightarrow> run (Flush a n k) m = run k (flushed m a n)"
  by (simp add: mb_defs flushed_def)

declare run.simps [simp del]
declare run_Ret [simp]

lemma run_Fail [simp]: "run (Fail e) m = Inl e"
  by (simp add: run.simps)

section \<open>One call at a time, with evictions\<close>

fun step :: "'a prog \<Rightarrow> mmap \<Rightarrow> (fault + 'a prog \<times> mmap) option" where
  "step (Ret x) m = None"
| "step (Fail e) m = Some (Inl e)"
| "step (Read a n k) m =
     Some (case mb_read m a n of Inl e \<Rightarrow> Inl e | Inr v \<Rightarrow> Inr (k v, m))"
| "step (Write a bs k) m =
     Some (case mb_write m a bs of Inl e \<Rightarrow> Inl e | Inr m' \<Rightarrow> Inr (k, m'))"
| "step (LoadU64 a ord k) m =
     Some (case mb_load_u64 m a ord of Inl e \<Rightarrow> Inl e | Inr v \<Rightarrow> Inr (k v, m))"
| "step (StoreU64 a v ord k) m =
     Some (case mb_store_u64 m a v ord of Inl e \<Rightarrow> Inl e | Inr m' \<Rightarrow> Inr (k, m'))"
| "step (FetchAddU64 a d ord k) m =
     Some (case mb_fetch_add_u64 m a d ord of
             Inl e \<Rightarrow> Inl e | Inr (v, m') \<Rightarrow> Inr (k v, m'))"
| "step (CompareExchangeU64 a x d o1 o2 k) m =
     Some (case mb_compare_exchange_u64 m a x d o1 o2 of
             Inl e \<Rightarrow> Inl e | Inr (v, m') \<Rightarrow> Inr (k v, m'))"
| "step (LoadU8 a ord k) m =
     Some (case mb_load_u8 m a ord of Inl e \<Rightarrow> Inl e | Inr v \<Rightarrow> Inr (k v, m))"
| "step (StoreU8 a v ord k) m =
     Some (case mb_store_u8 m a v ord of Inl e \<Rightarrow> Inl e | Inr m' \<Rightarrow> Inr (k, m'))"
| "step (Flush a n k) m =
     Some (case mb_flush m a n of Inl e \<Rightarrow> Inl e | Inr m' \<Rightarrow> Inr (k, m'))"

text \<open>\<open>run\<close> is the iteration of \<open>step\<close>.\<close>

lemma run_step: "run p m = (case step p m of
    None \<Rightarrow> (case p of Ret x \<Rightarrow> Inr (x, m) | _ \<Rightarrow> Inl LoopFuel)
  | Some (Inl e) \<Rightarrow> Inl e
  | Some (Inr (p', m')) \<Rightarrow> run p' m')"
  by (cases p) (auto simp: run.simps split: sum.split prod.split)

inductive crash_reach :: "'a prog \<Rightarrow> mmap \<Rightarrow> 'a prog \<Rightarrow> mmap \<Rightarrow> bool" where
  cr_refl: "crash_reach p m p m"
| cr_step: "crash_reach p m p' m' \<Longrightarrow> step p' m' = Some (Inr (p'', m'')) \<Longrightarrow> crash_reach p m p'' m''"
| cr_evict: "crash_reach p m p' m' \<Longrightarrow> crash_reach p m p' (write_back l m')"

text \<open>A crash: the cached contents are lost, the media is what the next host maps.\<close>

definition crash :: "mmap \<Rightarrow> mmap" where
  "crash m = m\<lparr>cache := media m\<rparr>"

end
