(* ===== verification/Metrics.thy ===== *)
theory Metrics
  imports Program
begin

text \<open>
  \<open>crates/fence-runtime/src/metrics.rs\<close>: the per-host counter blocks after the record slots.
  Every increment is one relaxed \<open>fetch_add\<close> on the host's own block; \<open>read_stats\<close> sums the
  blocks of all hosts.
\<close>

record pool_stats =
  ps_appends_total :: u64
  ps_appends_failed :: u64
  ps_bytes_written :: u64
  ps_reads_total :: u64
  ps_checksum_failures :: u64
  ps_recovery_runs :: u64
  ps_abandoned_found :: u64

definition pool_stats_default :: pool_stats where
  "pool_stats_default =
     \<lparr>ps_appends_total = 0, ps_appends_failed = 0, ps_bytes_written = 0, ps_reads_total = 0,
      ps_checksum_failures = 0, ps_recovery_runs = 0, ps_abandoned_found = 0\<rparr>"

definition METRICS_APPENDS_TOTAL :: usize where "METRICS_APPENDS_TOTAL = 0"
definition METRICS_APPENDS_FAILED :: usize where "METRICS_APPENDS_FAILED = 8"
definition METRICS_BYTES_WRITTEN :: usize where "METRICS_BYTES_WRITTEN = 16"
definition METRICS_READS_TOTAL :: usize where "METRICS_READS_TOTAL = 24"
definition METRICS_CHECKSUM_FAILURES :: usize where "METRICS_CHECKSUM_FAILURES = 32"
definition METRICS_RECOVERY_RUNS :: usize where "METRICS_RECOVERY_RUNS = 40"
definition METRICS_ABANDONED_FOUND :: usize where "METRICS_ABANDONED_FOUND = 48"

lemmas metrics_consts [simp] =
  METRICS_APPENDS_TOTAL_def METRICS_APPENDS_FAILED_def METRICS_BYTES_WRITTEN_def
  METRICS_READS_TOTAL_def METRICS_CHECKSUM_FAILURES_def METRICS_RECOVERY_RUNS_def
  METRICS_ABANDONED_FOUND_def

definition increment_appends :: "pool_geometry \<Rightarrow> u16 \<Rightarrow> unit prog" where
  "increment_appends g host_id =
     (let offset = metrics_offset g host_id + METRICS_APPENDS_TOTAL
      in FetchAddU64 offset 1 Relaxed (\<lambda>_. Ret ()))"

definition increment_appends_failed :: "pool_geometry \<Rightarrow> u16 \<Rightarrow> unit prog" where
  "increment_appends_failed g host_id =
     (let offset = metrics_offset g host_id + METRICS_APPENDS_FAILED
      in FetchAddU64 offset 1 Relaxed (\<lambda>_. Ret ()))"

definition increment_bytes_written :: "pool_geometry \<Rightarrow> u16 \<Rightarrow> u64 \<Rightarrow> unit prog" where
  "increment_bytes_written g host_id n =
     (let offset = metrics_offset g host_id + METRICS_BYTES_WRITTEN
      in FetchAddU64 offset n Relaxed (\<lambda>_. Ret ()))"

definition increment_reads :: "pool_geometry \<Rightarrow> u16 \<Rightarrow> unit prog" where
  "increment_reads g host_id =
     (let offset = metrics_offset g host_id + METRICS_READS_TOTAL
      in FetchAddU64 offset 1 Relaxed (\<lambda>_. Ret ()))"

definition increment_checksum_failures :: "pool_geometry \<Rightarrow> u16 \<Rightarrow> unit prog" where
  "increment_checksum_failures g host_id =
     (let offset = metrics_offset g host_id + METRICS_CHECKSUM_FAILURES
      in FetchAddU64 offset 1 Relaxed (\<lambda>_. Ret ()))"

definition increment_recovery_runs :: "pool_geometry \<Rightarrow> u16 \<Rightarrow> unit prog" where
  "increment_recovery_runs g host_id =
     (let offset = metrics_offset g host_id + METRICS_RECOVERY_RUNS
      in FetchAddU64 offset 1 Relaxed (\<lambda>_. Ret ()))"

definition increment_abandoned_found :: "pool_geometry \<Rightarrow> u16 \<Rightarrow> u64 \<Rightarrow> unit prog" where
  "increment_abandoned_found g host_id n =
     (let offset = metrics_offset g host_id + METRICS_ABANDONED_FOUND
      in FetchAddU64 offset n Relaxed (\<lambda>_. Ret ()))"

text \<open>One round of the loop of \<open>read_stats\<close>: the seven loads of one host's block, in order.\<close>

fun read_stats_loop :: "pool_geometry \<Rightarrow> u16 list \<Rightarrow> pool_stats \<Rightarrow> pool_stats prog" where
  "read_stats_loop g [] stats = Ret stats"
| "read_stats_loop g (host_id # rest) stats =
     (let base = metrics_offset g host_id in
      LoadU64 (base + METRICS_APPENDS_TOTAL) Relaxed (\<lambda>a.
      LoadU64 (base + METRICS_APPENDS_FAILED) Relaxed (\<lambda>f.
      LoadU64 (base + METRICS_BYTES_WRITTEN) Relaxed (\<lambda>b.
      LoadU64 (base + METRICS_READS_TOTAL) Relaxed (\<lambda>r.
      LoadU64 (base + METRICS_CHECKSUM_FAILURES) Relaxed (\<lambda>c.
      LoadU64 (base + METRICS_RECOVERY_RUNS) Relaxed (\<lambda>v.
      LoadU64 (base + METRICS_ABANDONED_FOUND) Relaxed (\<lambda>d.
        read_stats_loop g rest
          (stats\<lparr>ps_appends_total := ps_appends_total stats + a,
                 ps_appends_failed := ps_appends_failed stats + f,
                 ps_bytes_written := ps_bytes_written stats + b,
                 ps_reads_total := ps_reads_total stats + r,
                 ps_checksum_failures := ps_checksum_failures stats + c,
                 ps_recovery_runs := ps_recovery_runs stats + v,
                 ps_abandoned_found := ps_abandoned_found stats + d\<rparr>)))))))))"

definition read_stats :: "pool_geometry \<Rightarrow> pool_stats prog" where
  "read_stats g = read_stats_loop g (word_range 0 (g_max_hosts g)) pool_stats_default"

end
