(* ===== verification/Checksum.thy ===== *)
theory Checksum
  imports Prelude
begin

text \<open>
  \<open>crates/fence-core/src/checksum.rs\<close>. The digest itself comes from the crate
  \<open>crc32fast\<close>, which is not part of the repository: its \<open>Hasher\<close> is the parameter \<open>H\<close> of
  the definitions, with the three operations the code calls. Nothing is assumed of it;
  the theorems hold for every streaming hasher.
\<close>

record 'h hasher =
  h_new :: 'h
  h_update :: "'h \<Rightarrow> u8 list \<Rightarrow> 'h"
  h_finalize :: "'h \<Rightarrow> u32"

definition compute :: "'h hasher \<Rightarrow> u64 \<Rightarrow> u64 \<Rightarrow> u8 list \<Rightarrow> u64" where
  "compute H term index payload =
     (let hasher = h_new H;
          hasher = h_update H hasher (le_bytes 8 term);
          hasher = h_update H hasher (le_bytes 8 index);
          hasher = h_update H hasher payload
      in ucast (h_finalize H hasher))"

definition verify :: "'h hasher \<Rightarrow> u64 \<Rightarrow> u64 \<Rightarrow> u8 list \<Rightarrow> u64 \<Rightarrow> bool" where
  "verify H term index payload expected \<longleftrightarrow> compute H term index payload = expected"

lemma verify_compute [simp]: "verify H t i p (compute H t i p)"
  by (simp add: verify_def)

lemma compute_upper_bits: "unat (compute H t i p) < 2 ^ 32"
  by (simp add: compute_def Let_def)

end
