(* ===== verification/Recovery.thy ===== *)
theory Recovery
  imports Program Checksum
begin

text \<open>
  \<open>crates/fence-runtime/src/recovery.rs\<close>: the scan that abandons broken records, and the
  compare-and-swap loop that advances \<open>committed_tail\<close>.
\<close>

record recovery_report =
  rr_abandoned_count :: u64
  rr_committed_tail :: u64
  rr_slots_scanned :: u64

text \<open>
  Reading a payload into a fresh buffer: an empty buffer is not read into. The engine's
  \<open>read\<close> has the same lines.
\<close>

definition read_payload :: "usize \<Rightarrow> nat \<Rightarrow> (u8 list \<Rightarrow> 'a prog) \<Rightarrow> 'a prog" where
  "read_payload off payload_len k = (if payload_len > 0 then Read off payload_len k else k [])"

text \<open>The body of the scan loop for one slot; \<open>cnt\<close> is \<open>abandoned_count\<close>.\<close>

definition recover_slot :: "'h hasher \<Rightarrow> pool_geometry \<Rightarrow> u32 \<Rightarrow> u64 \<Rightarrow> u64 prog" where
  "recover_slot H g slot cnt =
     (let rec_offset = record_offset g slot in
      LoadU8 (rec_offset + REC_STATE) Acquire (\<lambda>state.
        if state = STATE_WRITING then
          StoreU8 (rec_offset + REC_STATE) STATE_ABANDONED Release (
          Flush rec_offset CACHELINE (
          Ret (cnt + 1)))
        else if state = STATE_COMMITTED then
          LoadU64 (rec_offset + REC_TERM) Relaxed (\<lambda>term.
          LoadU64 (rec_offset + REC_INDEX) Relaxed (\<lambda>index.
          Read (rec_offset + REC_DATA_LEN) 4 (\<lambda>buf.
          let data_len = from_le buf :: u32 in
          LoadU64 (rec_offset + REC_CHECKSUM) Relaxed (\<lambda>stored_checksum.
          let payload_offset = rec_offset + RECORD_META_SIZE;
              payload_len = min (unat data_len) (unat (g_payload_size g)) in
          read_payload payload_offset payload_len (\<lambda>payload_buf.
            if \<not> verify H term index payload_buf stored_checksum then
              StoreU8 (rec_offset + REC_STATE) STATE_ABANDONED Release (
              Flush rec_offset CACHELINE (
              Ret (cnt + 1)))
            else Ret cnt)))))
        else if state = STATE_FREE \<or> state = STATE_ABANDONED then Ret cnt
        else
          StoreU8 (rec_offset + REC_STATE) STATE_ABANDONED Release (
          Flush rec_offset CACHELINE (
          Ret (cnt + 1)))))"

fun recover_scan :: "'h hasher \<Rightarrow> pool_geometry \<Rightarrow> u32 list \<Rightarrow> u64 \<Rightarrow> u64 prog" where
  "recover_scan H g [] cnt = Ret cnt"
| "recover_scan H g (slot # slots) cnt =
     prog_bind (recover_slot H g slot cnt) (\<lambda>cnt'. recover_scan H g slots cnt')"

text \<open>
  The inner \<open>while\<close> of \<open>advance_committed_tail\<close>: it ends because \<open>new_tail\<close> grows
  towards the capacity.
\<close>

function scan_committed :: "pool_geometry \<Rightarrow> u64 \<Rightarrow> u64 prog" where
  "scan_committed g new_tail =
     (if new_tail < ucast (g_capacity g) then
        let slot = ucast new_tail :: u32; rec_offset = record_offset g slot in
        LoadU8 (rec_offset + REC_STATE) Acquire (\<lambda>state.
          if state \<noteq> STATE_COMMITTED then Ret new_tail
          else scan_committed g (new_tail + 1))
      else Ret new_tail)"
  by pat_completeness auto
termination
proof (relation "measure (\<lambda>(g, t). cap g - unat t)", goal_cases)
  case 1
  then show ?case by simp
next
  case (2 g t slot rec state)
  then have "unat t < cap g" by (simp add: word_less_nat_alt)
  moreover from this have "unat (t + 1) = unat t + 1"
    using unat_u32_le [of "g_capacity g"] by (subst unat_add_lt64) simp_all
  ultimately show ?case by simp
qed

declare scan_committed.simps [simp del]

text \<open>
  The outer \<open>loop\<close>: another host can make the compare-and-swap fail, and then the loop
  starts over. Each failure is an advance of the tail by somebody else, so \<open>capacity + 1\<close>
  rounds are enough; \<open>LoopFuel\<close> is what running out would be.
\<close>

primrec advance_loop :: "nat \<Rightarrow> pool_geometry \<Rightarrow> u64 prog" where
  "advance_loop 0 g = Fail LoopFuel"
| "advance_loop (Suc n) g =
     LoadU64 HDR_COMMITTED_TAIL Acquire (\<lambda>current_tail.
     prog_bind (scan_committed g current_tail) (\<lambda>new_tail.
       if new_tail = current_tail then Ret current_tail
       else
         CompareExchangeU64 HDR_COMMITTED_TAIL current_tail new_tail AcqRel Acquire (\<lambda>r.
           case r of Inr _ \<Rightarrow> Ret new_tail | Inl _ \<Rightarrow> advance_loop n g)))"

definition advance_committed_tail :: "pool_geometry \<Rightarrow> u64 prog" where
  "advance_committed_tail g = advance_loop (Suc (unat (g_capacity g))) g"

definition recover :: "'h hasher \<Rightarrow> pool_geometry \<Rightarrow> recovery_report prog" where
  "recover H g =
     LoadU64 HDR_RESERVE_TAIL Acquire (\<lambda>reserve_tail.
     let slots_to_scan = min reserve_tail (ucast (g_capacity g)) in
     prog_bind (recover_scan H g (word_range 0 (ucast slots_to_scan)) 0) (\<lambda>abandoned_count.
     prog_bind (advance_committed_tail g) (\<lambda>committed_tail.
     Ret \<lparr>rr_abandoned_count = abandoned_count, rr_committed_tail = committed_tail,
          rr_slots_scanned = slots_to_scan\<rparr>)))"

end
