(* ===== verification/Errors.thy ===== *)
theory Errors
  imports Prelude
begin

text \<open>
  \<open>FenceError\<close> and its \<open>Display\<close> instance, \<open>crates/fence-core/src/error.rs\<close>. Numbers are
  printed as Rust's \<open>{}\<close> (decimal) and \<open>{:016X}\<close> (sixteen upper-case hexadecimal
  digits). The decimal printer has a parser, and parsing what was printed gives the
  number back, so the message determines the numbers it reports.
\<close>

datatype fence_error =
    PoolFull u32 u64
  | PayloadTooLarge u32 usize
  | ChecksumMismatch u64
  | MmapFailed string
  | InvalidMagic u64 u64
  | Io string
  | IndexOutOfBounds u64 u64
  | TrimBeyondCommitted u64 u64

section \<open>Numbers as text\<close>

definition digit_char :: "nat \<Rightarrow> char" where
  "digit_char d = (if d < 10 then char_of (48 + d) else char_of (55 + d))"

fun show_dec :: "nat \<Rightarrow> string" where
  "show_dec n = (if n < 10 then [digit_char n] else show_dec (n div 10) @ [digit_char (n mod 10)])"

declare show_dec.simps [simp del]

fun show_hex_digits :: "nat \<Rightarrow> nat \<Rightarrow> string" where
  "show_hex_digits 0 n = []"
| "show_hex_digits (Suc w) n = show_hex_digits w (n div 16) @ [digit_char (n mod 16)]"

definition show_hex16 :: "u64 \<Rightarrow> string" where
  "show_hex16 v = show_hex_digits 16 (unat v)"

definition show_word :: "'a::len word \<Rightarrow> string" where
  "show_word w = show_dec (unat w)"

definition parse_dec :: "string \<Rightarrow> nat" where
  "parse_dec cs = foldl (\<lambda>n c. 10 * n + (of_char c - 48)) 0 cs"

lemma of_char_digit: "d < 10 \<Longrightarrow> of_char (digit_char d) = 48 + d"
  by (simp add: digit_char_def)

lemma parse_dec_snoc: "parse_dec (cs @ [c]) = 10 * parse_dec cs + (of_char c - 48)"
  by (simp add: parse_dec_def)

lemma parse_show_dec [simp]: "parse_dec (show_dec n) = n"
proof (induction n rule: show_dec.induct)
  case (1 n)
  show ?case
  proof (cases "n < 10")
    case True
    then show ?thesis
      by (subst show_dec.simps) (simp add: parse_dec_def of_char_digit)
  next
    case False
    with "1.IH" show ?thesis
      by (subst show_dec.simps) (simp add: parse_dec_snoc of_char_digit)
  qed
qed

lemma show_dec_inj: "show_dec m = show_dec n \<longleftrightarrow> m = n"
  by (metis parse_show_dec)

section \<open>Display\<close>

fun fence_error_display :: "fence_error \<Rightarrow> string" where
  "fence_error_display (PoolFull capacity requested_slot) =
     ''pool full: capacity '' @ show_word capacity @ '', requested slot '' @ show_word requested_slot"
| "fence_error_display (PayloadTooLarge mx got) =
     ''payload too large: max '' @ show_word mx @ '' bytes, got '' @ show_word got"
| "fence_error_display (ChecksumMismatch index) = ''checksum mismatch at index '' @ show_word index"
| "fence_error_display (MmapFailed detail) = ''mmap failed: '' @ detail"
| "fence_error_display (InvalidMagic expected actual) =
     ''invalid magic: expected 0x'' @ show_hex16 expected @ '', got 0x'' @ show_hex16 actual"
| "fence_error_display (Io detail) = ''i/o error: '' @ detail"
| "fence_error_display (IndexOutOfBounds index committed_tail) =
     ''index '' @ show_word index @ '' out of bounds (committed_tail: '' @ show_word committed_tail @ '')''"
| "fence_error_display (TrimBeyondCommitted requested committed_tail) =
     ''trim to '' @ show_word requested @ '' exceeds committed_tail '' @ show_word committed_tail"

text \<open>\<open>From<std::io::Error>\<close>: the error's text is the detail.\<close>

definition fence_error_from_io :: "string \<Rightarrow> fence_error" where
  "fence_error_from_io text = Io text"

end
