(* ===== verification/Compaction.thy ===== *)
theory Compaction
  imports Program Errors
begin

text \<open>\<open>crates/fence-runtime/src/compaction.rs\<close>: \<open>trim\<close> abandons the committed records of a prefix.\<close>

record trim_result =
  trimmed_count :: u64

fun trim_scan :: "pool_geometry \<Rightarrow> u32 list \<Rightarrow> u64 \<Rightarrow> u64 prog" where
  "trim_scan g [] cnt = Ret cnt"
| "trim_scan g (slot # slots) cnt =
     (let rec_offset = record_offset g slot in
      LoadU8 (rec_offset + REC_STATE) Acquire (\<lambda>state.
        if state = STATE_COMMITTED then
          StoreU8 (rec_offset + REC_STATE) STATE_ABANDONED Release (
          Flush rec_offset CACHELINE (
          trim_scan g slots (cnt + 1)))
        else trim_scan g slots cnt))"

definition trim :: "pool_geometry \<Rightarrow> u64 \<Rightarrow> (fence_error + trim_result) prog" where
  "trim g up_to =
     LoadU64 HDR_COMMITTED_TAIL Acquire (\<lambda>committed_tail.
       if up_to > committed_tail then Ret (Inl (TrimBeyondCommitted up_to committed_tail))
       else
         prog_bind (trim_scan g (word_range 0 (ucast up_to)) 0) (\<lambda>cnt.
           Ret (Inr \<lparr>trimmed_count = cnt\<rparr>)))"

end
