(* ===== verification/Engine.thy ===== *)
theory Engine
  imports Metrics Recovery Compaction
begin

text \<open>
  \<open>crates/fence-runtime/src/engine.rs\<close>: the operations of \<open>FenceRuntime\<close>. The backend the
  struct owns is the region the program runs on; the record keeps its other two fields.
\<close>

record pool_config =
  pc_path :: "u8 list"
  pc_capacity :: u32
  pc_payload_size :: u32
  pc_max_hosts :: u16
  pc_host_id :: u16
  pc_create :: bool

record log_record =
  r_index :: u64
  r_term :: u64
  r_writer_id :: u64
  r_data :: "u8 list"

record fence_runtime =
  rt_geometry :: pool_geometry
  rt_host_id :: u16

text \<open>
  The part of \<open>open\<close> that works on the mapped region: a fresh header when \<open>create\<close> is
  set, the check of the magic number otherwise.
\<close>

definition open_region ::
    "pool_config \<Rightarrow> pool_geometry \<Rightarrow> (fence_error + fence_runtime) prog" where
  "open_region config g =
     (if pc_create config then
        StoreU64 HDR_MAGIC MAGIC Relaxed (
        StoreU64 HDR_CAPACITY (ucast (pc_capacity config)) Relaxed (
        StoreU64 HDR_RECORD_SIZE (ucast (g_record_size g)) Relaxed (
        StoreU64 HDR_MAX_HOSTS (ucast (pc_max_hosts config)) Relaxed (
        StoreU64 HDR_COMMITTED_TAIL 0 Relaxed (
        StoreU64 HDR_RESERVE_TAIL 0 Relaxed (
        StoreU64 HDR_EPOCH 1 Relaxed (
        Flush 0 HEADER_SIZE (
        Ret (Inr \<lparr>rt_geometry = g, rt_host_id = pc_host_id config\<rparr>)))))))))
      else
        LoadU64 HDR_MAGIC Relaxed (\<lambda>magic.
          if magic \<noteq> MAGIC then Ret (Inl (InvalidMagic MAGIC magic))
          else Ret (Inr \<lparr>rt_geometry = g, rt_host_id = pc_host_id config\<rparr>)))"

text \<open>Steps 3 to 8 of \<open>append\<close>, with the reserved slot.\<close>

definition append_record ::
    "'h hasher \<Rightarrow> fence_runtime \<Rightarrow> u64 \<Rightarrow> u8 list \<Rightarrow> u64 \<Rightarrow> (fence_error + u64) prog" where
  "append_record H rt term data slot =
     (let g = rt_geometry rt; host_id = rt_host_id rt;
          rec_offset = record_offset g (ucast slot); index = slot + 1 in
      StoreU8 (rec_offset + REC_STATE) STATE_WRITING Relaxed (
      StoreU64 (rec_offset + REC_TERM) term Relaxed (
      StoreU64 (rec_offset + REC_INDEX) index Relaxed (
      StoreU64 (rec_offset + REC_WRITER_ID) (ucast host_id) Relaxed (
      Write (rec_offset + REC_DATA_LEN) (le_bytes 4 (word_of_nat (length data) :: u32)) (
      (if data \<noteq> [] then Write (rec_offset + RECORD_META_SIZE) data else id) (
      let crc = compute H term index data in
      StoreU64 (rec_offset + REC_CHECKSUM) crc Relaxed (
      Flush rec_offset (ucast (g_record_size g)) (
      StoreU8 (rec_offset + REC_STATE) STATE_COMMITTED Release (
      Flush rec_offset CACHELINE (
      prog_bind (advance_committed_tail g) (\<lambda>_.
      prog_bind (increment_appends g host_id) (\<lambda>_.
      prog_bind (increment_bytes_written g host_id (word_of_nat (length data))) (\<lambda>_.
      Ret (Inr index)))))))))))))))"

text \<open>\<open>u64::MAX\<close> added to the reservation counter takes one off it.\<close>

definition append ::
    "'h hasher \<Rightarrow> fence_runtime \<Rightarrow> u64 \<Rightarrow> u8 list \<Rightarrow> (fence_error + u64) prog" where
  "append H rt term data =
     (let g = rt_geometry rt; host_id = rt_host_id rt in
      if length data > unat (g_payload_size g) then
        Ret (Inl (PayloadTooLarge (g_payload_size g) (word_of_nat (length data))))
      else
        FetchAddU64 HDR_RESERVE_TAIL 1 AcqRel (\<lambda>slot.
          if slot \<ge> ucast (g_capacity g) then
            FetchAddU64 HDR_RESERVE_TAIL 0xFFFFFFFFFFFFFFFF Relaxed (\<lambda>_.
            prog_bind (increment_appends_failed g host_id) (\<lambda>_.
            Ret (Inl (PoolFull (g_capacity g) slot))))
          else append_record H rt term data slot))"

definition committed_tail :: "u64 prog" where
  "committed_tail = LoadU64 HDR_COMMITTED_TAIL Acquire Ret"

definition reserve_tail :: "u64 prog" where
  "reserve_tail = LoadU64 HDR_RESERVE_TAIL Acquire Ret"

definition read ::
    "'h hasher \<Rightarrow> fence_runtime \<Rightarrow> u64 \<Rightarrow> (fence_error + log_record option) prog" where
  "read H rt index =
     (let g = rt_geometry rt; host_id = rt_host_id rt in
      if index = 0 then
        prog_bind committed_tail (\<lambda>tail. Ret (Inl (IndexOutOfBounds index tail)))
      else
        prog_bind committed_tail (\<lambda>tail.
        if index > tail then Ret (Inl (IndexOutOfBounds index tail))
        else
          let slot = ucast (index - 1) :: u32; rec_offset = record_offset g slot in
          LoadU8 (rec_offset + REC_STATE) Acquire (\<lambda>state.
          if state \<noteq> STATE_COMMITTED then Ret (Inr None)
          else
            LoadU64 (rec_offset + REC_TERM) Relaxed (\<lambda>term.
            LoadU64 (rec_offset + REC_INDEX) Relaxed (\<lambda>stored_index.
            LoadU64 (rec_offset + REC_WRITER_ID) Relaxed (\<lambda>writer_id.
            Read (rec_offset + REC_DATA_LEN) 4 (\<lambda>buf.
            let data_len = from_le buf :: u32 in
            LoadU64 (rec_offset + REC_CHECKSUM) Relaxed (\<lambda>stored_crc.
            let payload_len = min (unat data_len) (unat (g_payload_size g)) in
            read_payload (rec_offset + RECORD_META_SIZE) payload_len (\<lambda>data.
            if \<not> verify H term stored_index data stored_crc then
              prog_bind (increment_checksum_failures g host_id) (\<lambda>_.
              Ret (Inl (ChecksumMismatch index)))
            else
              prog_bind (increment_reads g host_id) (\<lambda>_.
              Ret (Inr (Some \<lparr>r_index = stored_index, r_term = term,
                              r_writer_id = writer_id, r_data = data\<rparr>))))))))))))"

text \<open>
  \<open>read_range\<close> allocates its result first: \<open>end_index - start_index\<close> wraps when the range
  is reversed, and \<open>Vec::with_capacity\<close> panics when the buffer of 48-byte records would
  exceed \<open>isize::MAX\<close> bytes.
\<close>

fun read_loop ::
    "'h hasher \<Rightarrow> fence_runtime \<Rightarrow> u64 list \<Rightarrow> log_record list \<Rightarrow>
     (fence_error + log_record list) prog" where
  "read_loop H rt [] records = Ret (Inr records)"
| "read_loop H rt (idx # rest) records =
     prog_bind (read H rt idx) (\<lambda>r.
       case r of
         Inl e \<Rightarrow> Ret (Inl e)
       | Inr (Some record) \<Rightarrow> read_loop H rt rest (records @ [record])
       | Inr None \<Rightarrow> read_loop H rt rest records)"

definition read_range ::
    "'h hasher \<Rightarrow> fence_runtime \<Rightarrow> u64 \<Rightarrow> u64 \<Rightarrow> (fence_error + log_record list) prog" where
  "read_range H rt start_index end_index =
     (if 48 * unat (end_index - start_index) > 9223372036854775807
      then Fail (Panic ''capacity overflow'')
      else read_loop H rt (word_range start_index end_index) [])"

definition runtime_trim :: "fence_runtime \<Rightarrow> u64 \<Rightarrow> (fence_error + trim_result) prog" where
  "runtime_trim rt up_to = trim (rt_geometry rt) up_to"

definition runtime_recover :: "'h hasher \<Rightarrow> fence_runtime \<Rightarrow> recovery_report prog" where
  "runtime_recover H rt =
     prog_bind (recover H (rt_geometry rt)) (\<lambda>report.
     prog_bind (increment_recovery_runs (rt_geometry rt) (rt_host_id rt)) (\<lambda>_.
     if rr_abandoned_count report > 0 then
       prog_bind (increment_abandoned_found (rt_geometry rt) (rt_host_id rt)
                    (rr_abandoned_count report)) (\<lambda>_. Ret report)
     else Ret report))"

definition stats :: "fence_runtime \<Rightarrow> pool_stats prog" where
  "stats rt = read_stats (rt_geometry rt)"

end
