(* ===== verification/LogView.thy ===== *)
theory LogView
  imports Engine
begin

text \<open>
  What a region means: the view of one record slot, and the abstract log of a whole pool.
  The frame lemmas say which part of the abstract log a store can change: a store inside
  record \<open>s\<close> changes slot \<open>s\<close> only, a store to a counter changes that counter only.
\<close>

section \<open>Slots\<close>

datatype slot_view =
    SFree | SWriting | SCommitted log_record | SCorrupt | SAbandoned | SUnknown

definition stored_data :: "pool_geometry \<Rightarrow> bytes \<Rightarrow> nat \<Rightarrow> u8 list" where
  "stored_data g c s =
     peek c (rec_base g s + 64) (min (unat (get32 c (rec_base g s + 32))) (psz g))"

definition stored_record :: "pool_geometry \<Rightarrow> bytes \<Rightarrow> nat \<Rightarrow> log_record" where
  "stored_record g c s =
     \<lparr>r_index = get64 c (rec_base g s + 16), r_term = get64 c (rec_base g s + 8),
      r_writer_id = get64 c (rec_base g s + 24), r_data = stored_data g c s\<rparr>"

definition checksum_ok :: "'h hasher \<Rightarrow> pool_geometry \<Rightarrow> bytes \<Rightarrow> nat \<Rightarrow> bool" where
  "checksum_ok H g c s \<longleftrightarrow>
     verify H (get64 c (rec_base g s + 8)) (get64 c (rec_base g s + 16)) (stored_data g c s)
       (get64 c (rec_base g s + 40))"

definition slot_view :: "'h hasher \<Rightarrow> pool_geometry \<Rightarrow> bytes \<Rightarrow> nat \<Rightarrow> slot_view" where
  "slot_view H g c s =
     (let state = c (rec_base g s) in
      if state = STATE_FREE then SFree
      else if state = STATE_WRITING then SWriting
      else if state = STATE_ABANDONED then SAbandoned
      else if state = STATE_COMMITTED then
        (if checksum_ok H g c s then SCommitted (stored_record g c s) else SCorrupt)
      else SUnknown)"

text \<open>The slots whose state byte is \<open>STATE_COMMITTED\<close>.\<close>

fun committed_state :: "slot_view \<Rightarrow> bool" where
  "committed_state (SCommitted r) = True"
| "committed_state SCorrupt = True"
| "committed_state _ = False"

lemma committed_state_view [simp]:
  "committed_state (slot_view H g c s) \<longleftrightarrow> c (rec_base g s) = STATE_COMMITTED"
  by (auto simp: slot_view_def Let_def state_consts)

section \<open>The abstract log\<close>

record log =
  l_slots :: "slot_view list"
  l_reserve :: u64
  l_tail :: u64
  l_metrics :: "nat \<Rightarrow> nat \<Rightarrow> u64"

definition abs_log :: "'h hasher \<Rightarrow> pool_geometry \<Rightarrow> bytes \<Rightarrow> log" where
  "abs_log H g c =
     \<lparr>l_slots = map (slot_view H g c) [0..<cap g],
      l_reserve = get64 c 40,
      l_tail = get64 c 32,
      l_metrics = (\<lambda>h i. if h < hosts g \<and> i < 7 then get64 c (met_base g h + 8 * i) else 0)\<rparr>"

lemma log_update_swap: "L\<lparr>l_reserve := a, l_slots := b\<rparr> = L\<lparr>l_slots := b, l_reserve := a\<rparr>"
  by (cases L) simp

lemma abs_log_sel [simp]:
  "l_slots (abs_log H g c) = map (slot_view H g c) [0..<cap g]"
  "l_reserve (abs_log H g c) = get64 c 40"
  "l_tail (abs_log H g c) = get64 c 32"
  by (simp_all add: abs_log_def)

text \<open>A region that holds a pool of geometry \<open>g\<close>.\<close>

definition pool :: "pool_geometry \<Rightarrow> mmap \<Rightarrow> bool" where
  "pool g m \<longleftrightarrow> geom_ok g \<and> mm_len m = g_total_size g \<and> mapped m"

lemma poolD:
  assumes "pool g m"
  shows "geom_ok g" "geom_wf g" "unat (mm_len m) = unat (g_total_size g)" "mapped m"
  using assms by (simp_all add: pool_def geom_ok_def)

lemma pool_cache [simp]: "pool g (m\<lparr>cache := c\<rparr>) = pool g m"
  by (simp add: pool_def mapped_def)

lemma pool_flushed [simp]: "pool g (flushed m a n) = pool g m"
  by (simp add: pool_def)

lemma pool_slot_bounds:
  assumes "pool g m" "s < cap g"
  shows "rec_base g s + 64 + psz g \<le> unat (mm_len m)"
    and "rec_base g s mod 8 = 0" and "rsz g = 64 + psz g"
  using assms poolD [OF assms(1)] rec_end_le_total [of g s] rec_base_mod8 [of g s]
    geom_okD(4) [of g]
  by simp_all

lemma pool_metrics_bounds:
  assumes "pool g m" "h < hosts g"
  shows "met_base g h + 64 \<le> unat (mm_len m)" and "met_base g h mod 8 = 0"
  using assms poolD [OF assms(1)] met_end_le_total [of g h] met_base_mod8 [of g h]
  by simp_all

lemma pool_header_bounds: "pool g m \<Longrightarrow> 64 \<le> unat (mm_len m)"
  using poolD(2,3) [of g m] by (simp add: geom_wf_def)

section \<open>Frames\<close>

definition rec_region :: "pool_geometry \<Rightarrow> nat \<Rightarrow> nat set" where
  "rec_region g s = {rec_base g s..<rec_base g s + rsz g}"

lemma slot_view_cong:
  assumes "rsz g = 64 + psz g"
    and "\<And>x. rec_base g s \<le> x \<Longrightarrow> x < rec_base g s + rsz g \<Longrightarrow> c' x = c x"
  shows "slot_view H g c' s = slot_view H g c s"
proof -
  have g64: "get64 c' (rec_base g s + k) = get64 c (rec_base g s + k)" if "k + 8 \<le> 64" for k
    using assms that by (intro get64_cong) simp
  have g32: "get32 c' (rec_base g s + 32) = get32 c (rec_base g s + 32)"
    using assms by (intro get32_cong) simp
  have pl: "peek c' (rec_base g s + 64) (min n (psz g)) = peek c (rec_base g s + 64) (min n (psz g))"
    for n
    using assms by (intro peek_cong) simp
  have st: "c' (rec_base g s) = c (rec_base g s)"
    using assms by simp
  show ?thesis
    unfolding slot_view_def checksum_ok_def stored_record_def stored_data_def Let_def
    by (simp add: g64 g32 pl st)
qed

lemma slot_view_agree:
  assumes "geom_ok g" "agree_off A c c'" "rec_region g s \<inter> A = {}"
  shows "slot_view H g c' s = slot_view H g c s"
proof (rule slot_view_cong)
  show "rsz g = 64 + psz g" using assms(1) by (rule geom_okD)
  fix x assume "rec_base g s \<le> x" "x < rec_base g s + rsz g"
  then have "x \<notin> A" using assms(3) by (auto simp: rec_region_def)
  then show "c' x = c x" using assms(2) by (simp add: agree_off_def)
qed

lemma rec_region_disjoint: "s \<noteq> t \<Longrightarrow> rec_region g s \<inter> rec_region g t = {}"
  using rec_base_mono [of s t g] rec_base_mono [of t s g]
  by (cases s t rule: linorder_cases) (auto simp: rec_region_def)

lemma rec_region_header: "a + 8 \<le> 64 \<Longrightarrow> {a..<a + 8} \<inter> rec_region g s = {}"
  using rec_base_ge [of g s] by (auto simp: rec_region_def)

lemma rec_region_metrics: "s < cap g \<Longrightarrow> met_base g h \<le> a \<Longrightarrow> {a..<a + 8} \<inter> rec_region g s = {}"
  using rec_end_le_met [of s g h] by (auto simp: rec_region_def)

text \<open>A change confined to one record changes one slot of the abstract log.\<close>

lemma abs_log_slot:
  assumes "geom_ok g" "s < cap g" "agree_off (rec_region g s) c c'"
  shows "abs_log H g c' =
    (abs_log H g c)\<lparr>l_slots := (l_slots (abs_log H g c))[s := slot_view H g c' s]\<rparr>"
proof -
  have "map (slot_view H g c') [0..<cap g]
      = (map (slot_view H g c) [0..<cap g])[s := slot_view H g c' s]"
    using assms by (intro nth_equalityI)
      (auto simp: nth_list_update slot_view_agree rec_region_disjoint)
  moreover have "get64 c' a = get64 c a" if "a + 8 \<le> 64" for a
    using assms(3) that by (simp add: get64_agree rec_region_header)
  moreover have "get64 c' (met_base g h + 8 * i) = get64 c (met_base g h + 8 * i)" for h i
    by (rule get64_agree [OF assms(3) rec_region_metrics [OF assms(2), of h]]) simp
  ultimately show ?thesis
    by (simp add: abs_log_def fun_eq_iff)
qed

lemma slot_view_header:
  "geom_ok g \<Longrightarrow> a + 8 \<le> 64 \<Longrightarrow> slot_view H g (put64 c a v) s = slot_view H g c s"
  using rec_base_ge [of g s]
  by (intro slot_view_agree [where A = "{a..<a + 8}"])
    (auto simp: rec_region_def intro: agree_off_put64)

lemma get64_metrics_header:
  "a + 8 \<le> 64 \<Longrightarrow> get64 (put64 c a v) (met_base g h + k) = get64 c (met_base g h + k)"
  using met_base_ge [of g h] by (simp add: get64_put64_disjoint)

lemma abs_log_tail:
  "geom_ok g \<Longrightarrow> abs_log H g (put64 c 32 v) = (abs_log H g c)\<lparr>l_tail := v\<rparr>"
  by (simp add: abs_log_def slot_view_header get64_metrics_header get64_put64_disjoint
      fun_eq_iff cong: map_cong)

lemma abs_log_reserve:
  "geom_ok g \<Longrightarrow> abs_log H g (put64 c 40 v) = (abs_log H g c)\<lparr>l_reserve := v\<rparr>"
  by (simp add: abs_log_def slot_view_header get64_metrics_header get64_put64_disjoint
      fun_eq_iff cong: map_cong)

text \<open>Adding to a counter of a host.\<close>

definition bump :: "u16 \<Rightarrow> nat \<Rightarrow> u64 \<Rightarrow> log \<Rightarrow> log" where
  "bump h i n L =
     L\<lparr>l_metrics := (l_metrics L)(unat h := (l_metrics L (unat h))(i := l_metrics L (unat h) i + n))\<rparr>"

lemma bump_sel [simp]:
  "l_slots (bump h i n L) = l_slots L" "l_reserve (bump h i n L) = l_reserve L"
  "l_tail (bump h i n L) = l_tail L"
  by (simp_all add: bump_def)

lemma slot_view_metrics:
  assumes "geom_ok g" "s < cap g"
  shows "slot_view H g (put64 c (met_base g h + k) v) s = slot_view H g c s"
  using assms rec_end_le_met [of s g h]
  by (intro slot_view_agree [where A = "{met_base g h + k..<met_base g h + k + 8}"])
    (auto simp: rec_region_def intro: agree_off_put64)

lemma met_addr_disjoint:
  assumes "i < 7" "j < 7" "(h, i) \<noteq> (h', j)"
  shows "met_base g h + 8 * i + 8 \<le> met_base g h' + 8 * j
       \<or> met_base g h' + 8 * j + 8 \<le> met_base g h + 8 * i"
  using assms met_base_mono [of h h' g] met_base_mono [of h' h g]
  by (cases h h' rule: linorder_cases) auto

lemma abs_log_bump:
  assumes "geom_ok g" "unat h < hosts g" "i < 7"
  shows "abs_log H g (put64 c (met_base g (unat h) + 8 * i)
           (get64 c (met_base g (unat h) + 8 * i) + n)) = bump h i n (abs_log H g c)"
    (is "abs_log H g ?c = _")
proof -
  have "map (slot_view H g ?c) [0..<cap g] = map (slot_view H g c) [0..<cap g]"
    using assms(1) by (simp add: slot_view_metrics)
  moreover have "get64 ?c a = get64 c a" if "a + 8 \<le> 64" for a
    using that met_base_ge [of g "unat h"] by (simp add: get64_put64_disjoint)
  moreover have "get64 ?c (met_base g h' + 8 * j) =
      (if h' = unat h \<and> j = i then get64 c (met_base g h' + 8 * j) + n
       else get64 c (met_base g h' + 8 * j))" if "j < 7" for h' j
    using that assms(3) met_addr_disjoint [of j i h' "unat h" g]
    by (auto simp: get64_put64_disjoint)
  ultimately show ?thesis
    using assms by (simp add: abs_log_def bump_def fun_eq_iff)
qed

end
