(* ===== verification/Simulation.thy ===== *)
theory Simulation
  imports Program
begin

text \<open>
  The relation between a program and its abstract specification, for any abstraction of the
  contents of a region, and its rules for the program constructors.
\<close>

definition same_map :: "mmap \<Rightarrow> mmap \<Rightarrow> bool" where
  "same_map m m' \<longleftrightarrow> mm_ptr m' = mm_ptr m \<and> mm_len m' = mm_len m \<and> mm_arch m' = mm_arch m"

text \<open>
  \<open>refines ok view m p r\<close>: on region \<open>m\<close> the program \<open>p\<close> runs without a fault, returns the
  first component of \<open>r\<close>, and leaves a region in \<open>ok\<close> whose contents mean the second.
\<close>

definition refines ::
    "(mmap \<Rightarrow> bool) \<Rightarrow> (bytes \<Rightarrow> 's) \<Rightarrow> mmap \<Rightarrow> 'a prog \<Rightarrow> 'a \<times> 's \<Rightarrow> bool" where
  "refines ok view m p r \<longleftrightarrow>
     (\<exists>m'. run p m = Inr (fst r, m') \<and> view (cache m') = snd r \<and> ok m' \<and> same_map m m')"

lemma same_map_refl [simp]: "same_map m m"
  by (simp add: same_map_def)

lemma same_map_cache [simp]: "same_map m (m'\<lparr>cache := c\<rparr>) = same_map m m'"
  by (simp add: same_map_def)

lemma same_map_flushed [simp]: "same_map m (flushed m' a n) = same_map m m'"
  by (simp add: same_map_def)

lemma same_map_trans: "same_map m m' \<Longrightarrow> same_map m' m'' \<Longrightarrow> same_map m m''"
  by (simp add: same_map_def)

lemma refines_Ret [intro]: "ok m \<Longrightarrow> view (cache m) = L \<Longrightarrow> refines ok view m (Ret x) (x, L)"
  by (simp add: refines_def)

lemma refines_run:
  assumes "run p m = run q m'" "same_map m m'" "refines ok view m' q r"
  shows "refines ok view m p r"
proof -
  from assms(3) obtain m'' where "run q m' = Inr (fst r, m'')"
    "view (cache m'') = snd r" "ok m''" "same_map m' m''"
    by (auto simp: refines_def)
  with assms(1,2) show ?thesis
    unfolding refines_def by (metis same_map_trans)
qed

lemma refines_bind:
  assumes "refines ok view m p (x, L)"
    and "\<And>m'. ok m' \<Longrightarrow> same_map m m' \<Longrightarrow> view (cache m') = L \<Longrightarrow> refines ok view m' (f x) r"
  shows "refines ok view m (prog_bind p f) r"
proof -
  from assms(1) obtain m' where m': "run p m = Inr (x, m')" "view (cache m') = L"
    "ok m'" "same_map m m'"
    by (auto simp: refines_def)
  show ?thesis
    by (rule refines_run [OF run_bindI [OF m'(1)] m'(4)]) (rule assms(2) [OF m'(3,4,2)])
qed

lemma refines_if:
  "(b \<Longrightarrow> refines ok view m p (x, L)) \<Longrightarrow> (\<not> b \<Longrightarrow> refines ok view m q (x, L')) \<Longrightarrow>
   refines ok view m (if b then p else q) (x, if b then L else L')"
  by simp

lemma refines_map: "refines ok view m p (x, L) \<Longrightarrow> refines ok view m (prog_bind p (\<lambda>x. Ret (f x))) (f x, L)"
  by (erule refines_bind) (rule refines_Ret)

end
