(* ===== verification/LogSpec.thy ===== *)
theory LogSpec
  imports LogView Simulation
begin

text \<open>
  The abstract specification of the log operations on \<open>log\<close>, and the simulation of its
  simplest steps by the programs.
\<close>

section \<open>Specification\<close>

definition tail_spec :: "log \<Rightarrow> u64" where
  "tail_spec L = l_tail L +
     word_of_nat (length (takeWhile committed_state (drop (unat (l_tail L)) (l_slots L))))"

definition advance_spec :: "log \<Rightarrow> log" where
  "advance_spec L = L\<lparr>l_tail := tail_spec L\<rparr>"

definition append_spec ::
    "pool_geometry \<Rightarrow> u16 \<Rightarrow> u64 \<Rightarrow> u8 list \<Rightarrow> log \<Rightarrow> (fence_error + u64) \<times> log" where
  "append_spec g host term data L =
     (if psz g < length data then
        (Inl (PayloadTooLarge (g_payload_size g) (word_of_nat (length data))), L)
      else if length (l_slots L) \<le> unat (l_reserve L) then
        (Inl (PoolFull (g_capacity g) (l_reserve L)), bump host 1 1 L)
      else
        let r = l_reserve L;
            entry = \<lparr>r_index = r + 1, r_term = term, r_writer_id = ucast host, r_data = data\<rparr>;
            L1 = L\<lparr>l_slots := (l_slots L)[unat r := SCommitted entry], l_reserve := r + 1\<rparr>
        in (Inr (r + 1),
            bump host 2 (word_of_nat (length data)) (bump host 0 1 (advance_spec L1))))"

definition read_spec ::
    "u16 \<Rightarrow> u64 \<Rightarrow> log \<Rightarrow> (fence_error + log_record option) \<times> log" where
  "read_spec host index L =
     (if index = 0 \<or> l_tail L < index then (Inl (IndexOutOfBounds index (l_tail L)), L)
      else case l_slots L ! (unat index - 1) of
        SCommitted r \<Rightarrow> (Inr (Some r), bump host 3 1 L)
      | SCorrupt \<Rightarrow> (Inl (ChecksumMismatch index), bump host 4 1 L)
      | _ \<Rightarrow> (Inr None, L))"

definition trim_slot :: "slot_view \<Rightarrow> slot_view" where
  "trim_slot v = (if committed_state v then SAbandoned else v)"

definition trim_spec :: "u64 \<Rightarrow> log \<Rightarrow> (fence_error + trim_result) \<times> log" where
  "trim_spec up_to L =
     (if l_tail L < up_to then (Inl (TrimBeyondCommitted up_to (l_tail L)), L)
      else
        (Inr \<lparr>trimmed_count =
           word_of_nat (length (filter committed_state (take (unat up_to) (l_slots L))))\<rparr>,
         L\<lparr>l_slots := sweep trim_slot (unat up_to) (l_slots L)\<rparr>))"

fun broken :: "slot_view \<Rightarrow> bool" where
  "broken SWriting = True"
| "broken SCorrupt = True"
| "broken SUnknown = True"
| "broken _ = False"

definition fix_slot :: "slot_view \<Rightarrow> slot_view" where
  "fix_slot v = (if broken v then SAbandoned else v)"

definition scan_limit :: "pool_geometry \<Rightarrow> log \<Rightarrow> u64" where
  "scan_limit g L = min (l_reserve L) (ucast (g_capacity g))"

definition repair :: "pool_geometry \<Rightarrow> log \<Rightarrow> log" where
  "repair g L =
     advance_spec (L\<lparr>l_slots := sweep fix_slot (unat (scan_limit g L)) (l_slots L)\<rparr>)"

definition broken_count :: "pool_geometry \<Rightarrow> log \<Rightarrow> u64" where
  "broken_count g L = word_of_nat (length (filter broken (take (unat (scan_limit g L)) (l_slots L))))"

definition recover_spec :: "pool_geometry \<Rightarrow> log \<Rightarrow> recovery_report \<times> log" where
  "recover_spec g L =
     (\<lparr>rr_abandoned_count = broken_count g L, rr_committed_tail = l_tail (repair g L),
       rr_slots_scanned = scan_limit g L\<rparr>, repair g L)"

definition runtime_recover_spec ::
    "pool_geometry \<Rightarrow> u16 \<Rightarrow> log \<Rightarrow> recovery_report \<times> log" where
  "runtime_recover_spec g host L =
     (let (report, L') = recover_spec g L; L'' = bump host 5 1 L' in
      (report,
       if rr_abandoned_count report > 0 then bump host 6 (rr_abandoned_count report) L''
       else L''))"

lemma trim_slot_simps:
  "committed_state v \<Longrightarrow> trim_slot v = SAbandoned" "\<not> committed_state v \<Longrightarrow> trim_slot v = v"
  by (simp_all add: trim_slot_def)

lemma fix_slot_simps: "broken v \<Longrightarrow> fix_slot v = SAbandoned" "\<not> broken v \<Longrightarrow> fix_slot v = v"
  by (simp_all add: fix_slot_def)

section \<open>Simulation\<close>

text \<open>\<open>sim H g m p r\<close>: \<open>p\<close> on the region \<open>m\<close>, which holds a pool, implements \<open>r\<close>.\<close>

abbreviation sim :: "'h hasher \<Rightarrow> pool_geometry \<Rightarrow> mmap \<Rightarrow> 'a prog \<Rightarrow> 'a \<times> log \<Rightarrow> bool" where
  "sim H g \<equiv> refines (pool g) (abs_log H g)"

lemmas sim_def = refines_def
lemmas sim_Ret = refines_Ret [where ok = "pool g" and view = "abs_log H g"] for g H
lemmas sim_run = refines_run
lemmas sim_bind = refines_bind [where ok = "pool g" and view = "abs_log H g"] for g H
lemmas sim_if = refines_if [where ok = "pool g" and view = "abs_log H g"] for g H
lemmas sim_map = refines_map [where ok = "pool g" and view = "abs_log H g"] for g H

section \<open>Header, counters and the committed tail\<close>

lemma run_load_header [exec_simps]:
  assumes "pool g m" "unat a + 8 \<le> 64" "unat a mod 8 = 0" "ord \<notin> {Release, AcqRel}"
  shows "run (LoadU64 a ord k) m = run (k (get64 (cache m) (unat a))) m"
  using assms pool_header_bounds [OF assms(1)] by (simp add: run_LoadU64)

lemma sim_bump:
  assumes "pool g m" "unat h < hosts g" "i < 7" "unat c = 8 * i" "abs_log H g (cache m) = L"
  shows "sim H g m (FetchAddU64 (metrics_offset g h + c) n Relaxed (\<lambda>_. Ret ())) ((), bump h i n L)"
proof -
  have a: "unat (metrics_offset g h + c) = met_base g (unat h) + 8 * i"
    using assms(3,4) by (simp add: unat_metrics_offset_plus)
  have "run (FetchAddU64 (metrics_offset g h + c) n Relaxed (\<lambda>_. Ret ())) m =
      Inr ((), m\<lparr>cache := put64 (cache m) (met_base g (unat h) + 8 * i)
                 (get64 (cache m) (met_base g (unat h) + 8 * i) + n)\<rparr>)"
    using pool_metrics_bounds [OF assms(1,2)] assms(3)
    by (subst run_FetchAddU64) (simp_all add: a mod_add_eq [symmetric])
  with assms show ?thesis
    by (auto simp: sim_def abs_log_bump poolD)
qed

lemma sim_increments:
  assumes "pool g m" "unat h < hosts g" "abs_log H g (cache m) = L"
  shows "sim H g m (increment_appends g h) ((), bump h 0 1 L)"
    and "sim H g m (increment_appends_failed g h) ((), bump h 1 1 L)"
    and "sim H g m (increment_bytes_written g h n) ((), bump h 2 n L)"
    and "sim H g m (increment_reads g h) ((), bump h 3 1 L)"
    and "sim H g m (increment_checksum_failures g h) ((), bump h 4 1 L)"
    and "sim H g m (increment_recovery_runs g h) ((), bump h 5 1 L)"
    and "sim H g m (increment_abandoned_found g h n) ((), bump h 6 n L)"
  unfolding increment_appends_def increment_appends_failed_def increment_bytes_written_def
    increment_reads_def increment_checksum_failures_def increment_recovery_runs_def
    increment_abandoned_found_def Let_def
  by (rule sim_bump; use assms in simp)+

lemma sim_committed_tail:
  assumes "pool g m" "abs_log H g (cache m) = L"
  shows "sim H g m committed_tail (l_tail L, L)"
  using assms by (auto simp: committed_tail_def sim_def run_load_header)

lemma sim_reserve_tail:
  assumes "pool g m" "abs_log H g (cache m) = L"
  shows "sim H g m reserve_tail (l_reserve L, L)"
  using assms by (auto simp: reserve_tail_def sim_def run_load_header)

text \<open>The state byte of a slot.\<close>

lemma run_load_state:
  assumes "pool g m" "unat s < cap g"
  shows "run (LoadU8 (record_offset g s) Acquire k) m = run (k (cache m (rec_base g (unat s)))) m"
  using pool_slot_bounds [OF assms] by (subst run_LoadU8) (simp_all add: unat_record_offset)

lemma run_scan_committed:
  assumes "pool g m"
  shows "run (scan_committed g t) m =
    Inr (t + word_of_nat (length (takeWhile (\<lambda>s. cache m (rec_base g s) = STATE_COMMITTED)
                                   [unat t..<cap g])), m)"
  using assms
proof (induction g t rule: scan_committed.induct)
  case (1 g t)
  show ?case
  proof (cases "t < ucast (g_capacity g)")
    case False
    then have "cap g \<le> unat t" by (simp add: not_less word_le_nat_alt)
    with False show ?thesis by (subst scan_committed.simps) simp
  next
    case True
    then have lt: "unat t < cap g" by (simp add: word_less_nat_alt)
    then have t32: "unat (ucast t :: u32) = unat t"
      using unat_u32_lt [of "g_capacity g"] by (intro unat_ucast_u64_u32) linarith
    have t1: "unat (t + 1) = Suc (unat t)"
      using lt unat_u32_le [of "g_capacity g"] by (subst unat_add_lt64) simp_all
    have upt: "[unat t..<cap g] = unat t # [Suc (unat t)..<cap g]"
      using lt by (simp add: upt_conv_Cons)
    show ?thesis
    proof (cases "cache m (rec_base g (unat t)) = STATE_COMMITTED")
      case False
      with True lt "1.prems" show ?thesis
        by (subst scan_committed.simps) (simp add: run_load_state t32 upt)
    next
      case True': True
      from "1.IH" [OF True refl refl _ "1.prems"]
      have "run (scan_committed g (t + 1)) m =
          Inr (t + 1 + word_of_nat (length (takeWhile
            (\<lambda>s. cache m (rec_base g s) = STATE_COMMITTED) [Suc (unat t)..<cap g])), m)"
        by (simp add: t1)
      with True True' lt "1.prems" show ?thesis
        by (subst scan_committed.simps) (simp add: run_load_state t32 upt add.assoc)
    qed
  qed
qed

lemma scanned_tail:
  "t + word_of_nat (length (takeWhile (\<lambda>s. c (rec_base g s) = STATE_COMMITTED) [unat t..<cap g])) =
   t + word_of_nat (length (takeWhile committed_state
         (drop (unat t) (map (slot_view H g c) [0..<cap g]))))"
  by (simp add: drop_map takeWhile_map comp_def)

lemma run_advance:
  assumes "pool g m"
  shows "run (advance_committed_tail g) m =
    Inr (tail_spec (abs_log H g (cache m)),
         m\<lparr>cache := put64 (cache m) 32 (tail_spec (abs_log H g (cache m)))\<rparr>)"
proof -
  let ?t = "get64 (cache m) 32"
  have scan: "run (scan_committed g ?t) m = Inr (tail_spec (abs_log H g (cache m)), m)"
    using assms by (simp add: run_scan_committed scanned_tail [where H = H] tail_spec_def)
  have "run (advance_committed_tail g) m =
      run (if tail_spec (abs_log H g (cache m)) = ?t then Ret ?t
           else CompareExchangeU64 32 ?t (tail_spec (abs_log H g (cache m))) AcqRel Acquire
             (\<lambda>r. case r of Inr _ \<Rightarrow> Ret (tail_spec (abs_log H g (cache m)))
                     | Inl _ \<Rightarrow> advance_loop (cap g) g)) m"
    using assms
    by (simp only: advance_committed_tail_def advance_loop.simps HDR_COMMITTED_TAIL_def)
      (subst run_load_header [where a = 32 and g = g], simp_all add: run_bindI [OF scan])
  also have "\<dots> = Inr (tail_spec (abs_log H g (cache m)),
      m\<lparr>cache := put64 (cache m) 32 (tail_spec (abs_log H g (cache m)))\<rparr>)"
    using pool_header_bounds [OF assms]
    by (cases "tail_spec (abs_log H g (cache m)) = ?t") (simp_all add: run_CompareExchangeU64)
  finally show ?thesis .
qed

lemma sim_advance:
  assumes "pool g m" "abs_log H g (cache m) = L"
  shows "sim H g m (advance_committed_tail g) (tail_spec L, advance_spec L)"
  using assms
  by (auto simp: sim_def run_advance [where H = H] advance_spec_def abs_log_tail poolD)

end
