(* ===== verification/Refine.thy ===== *)
theory Refine
  imports LogSpec
begin

text \<open>
  The operations of the runtime implement the abstract specification: for each, a \<open>sim\<close>
  fact on every region that holds a pool.
\<close>

section \<open>Append\<close>

lemma region_geom: "geom_ok g \<Longrightarrow> rec_region g s = {rec_base g s..<rec_base g s + (64 + psz g)}"
  by (simp add: rec_region_def geom_okD)

text \<open>
  The contents of the record's bytes after steps 3 to 7, as one function of the cache
  before them.
\<close>

definition write_meta :: "u16 \<Rightarrow> u64 \<Rightarrow> u8 list \<Rightarrow> u64 \<Rightarrow> nat \<Rightarrow> bytes \<Rightarrow> bytes" where
  "write_meta host term data slot b c =
     (let c = c(b := STATE_WRITING);
          c = put64 c (b + 8) term;
          c = put64 c (b + 16) (slot + 1);
          c = put64 c (b + 24) (ucast host);
          c = poke c (b + 32) (le_bytes 4 (word_of_nat (length data) :: u32))
      in poke c (b + 64) data)"

definition written ::
    "'h hasher \<Rightarrow> u16 \<Rightarrow> u64 \<Rightarrow> u8 list \<Rightarrow> u64 \<Rightarrow> nat \<Rightarrow> bytes \<Rightarrow> bytes" where
  "written H host term data slot b c =
     put64 (write_meta host term data slot b c) (b + 40) (compute H term (slot + 1) data)"

lemma written_agree:
  assumes "geom_ok g" "length data \<le> psz g"
  shows "agree_off (rec_region g s) c (written H host term data slot (rec_base g s) c)"
  unfolding written_def write_meta_def Let_def using assms
  by (intro agree_off_put64 agree_off_poke agree_off_upd agree_off_refl)
    (auto simp: region_geom)

text \<open>The record that was written, once its state byte is \<open>COMMITTED\<close>.\<close>

lemma slot_view_written:
  assumes "length data \<le> psz g"
  shows "slot_view H g ((written H host term data slot (rec_base g s) c)(rec_base g s := STATE_COMMITTED)) s
    = SCommitted \<lparr>r_index = slot + 1, r_term = term, r_writer_id = ucast host, r_data = data\<rparr>"
proof -
  let ?c = "(written H host term data slot (rec_base g s) c)(rec_base g s := STATE_COMMITTED)"
  have len: "unat (word_of_nat (length data) :: u32) = length data"
    using assms unat_u32_le [of "g_payload_size g"]
    by (simp add: unsigned_of_nat take_bit_nat_eq_self)
  have f: "get64 ?c (rec_base g s + 8) = term" "get64 ?c (rec_base g s + 16) = slot + 1"
    "get64 ?c (rec_base g s + 24) = ucast host"
    "get32 ?c (rec_base g s + 32) = word_of_nat (length data)"
    "get64 ?c (rec_base g s + 40) = compute H term (slot + 1) data"
    "peek ?c (rec_base g s + 64) (length data) = data"
    by (simp_all add: written_def write_meta_def Let_def field_simps_mem)
  have sd: "stored_data g ?c s = data"
    unfolding stored_data_def f len using assms f(6) by (simp add: min_absorb1)
  show ?thesis
    unfolding slot_view_def checksum_ok_def stored_record_def Let_def sd f
    by simp
qed

lemma slot_view_writing:
  "slot_view H g (written H host term data slot (rec_base g s) c) s = SWriting"
  by (simp add: slot_view_def written_def write_meta_def Let_def field_simps_mem)

text \<open>Steps 3 to 7 of \<open>append\<close>, up to the call that advances the tail.\<close>

definition flushed_record ::
    "'h hasher \<Rightarrow> pool_geometry \<Rightarrow> u16 \<Rightarrow> u64 \<Rightarrow> u8 list \<Rightarrow> u64 \<Rightarrow> mmap \<Rightarrow> mmap" where
  "flushed_record H g host term data slot m =
     flushed (m\<lparr>cache := written H host term data slot (rec_base g (unat slot)) (cache m)\<rparr>)
       (record_offset g (ucast slot)) (ucast (g_record_size g))"

definition committed_record ::
    "'h hasher \<Rightarrow> pool_geometry \<Rightarrow> u16 \<Rightarrow> u64 \<Rightarrow> u8 list \<Rightarrow> u64 \<Rightarrow> mmap \<Rightarrow> mmap" where
  "committed_record H g host term data slot m =
     (let m1 = flushed_record H g host term data slot m
      in flushed (m1\<lparr>cache := (cache m1)(rec_base g (unat slot) := STATE_COMMITTED)\<rparr>)
           (record_offset g (ucast slot)) CACHELINE)"

lemma flushed_record_simps [simp]:
  "cache (flushed_record H g host term data slot m) =
     written H host term data slot (rec_base g (unat slot)) (cache m)"
  "mm_ptr (flushed_record H g host term data slot m) = mm_ptr m"
  "mm_len (flushed_record H g host term data slot m) = mm_len m"
  "mm_arch (flushed_record H g host term data slot m) = mm_arch m"
  "pool g' (flushed_record H g host term data slot m) = pool g' m"
  "same_map m' (flushed_record H g host term data slot m) = same_map m' m"
  by (simp_all add: flushed_record_def)

lemma committed_record_simps [simp]:
  "cache (committed_record H g host term data slot m) =
     (written H host term data slot (rec_base g (unat slot)) (cache m))
       (rec_base g (unat slot) := STATE_COMMITTED)"
  "pool g' (committed_record H g host term data slot m) = pool g' m"
  "same_map m' (committed_record H g host term data slot m) = same_map m' m"
  by (simp_all add: committed_record_def Let_def)

lemma slot_arith:
  assumes "pool g m" "unat slot < cap g"
  shows "unat (ucast (slot :: u64) :: u32) = unat slot"
    and "k mod 8 = 0 \<Longrightarrow> (rec_base g (unat slot) + k) mod 8 = 0"
proof -
  show "unat (ucast slot :: u32) = unat slot"
    using assms(2) unat_u32_lt [of "g_capacity g"] by (intro unat_ucast_u64_u32) linarith
  show "k mod 8 = 0 \<Longrightarrow> (rec_base g (unat slot) + k) mod 8 = 0"
    using pool_slot_bounds(2) [OF assms] by presburger
qed

lemma run_append_record:
  assumes "pool g m" "rt_geometry rt = g" "unat slot < cap g" "length data \<le> psz g"
  shows "run (append_record H rt term data slot) m =
      run (prog_bind (advance_committed_tail g) (\<lambda>_.
           prog_bind (increment_appends g (rt_host_id rt)) (\<lambda>_.
           prog_bind (increment_bytes_written g (rt_host_id rt) (word_of_nat (length data))) (\<lambda>_.
           Ret (Inr (slot + 1))))))
        (committed_record H g (rt_host_id rt) term data slot m)"
  using assms pool_slot_bounds [OF assms(1,3)]
  by (cases "data = []")
    (simp_all add: append_record_def Let_def unat_record_offset unat_record_offset_plus
      slot_arith [OF assms(1,3)] run_StoreU8 run_StoreU64 run_Write run_Flush
      written_def write_meta_def poolD committed_record_def flushed_record_def)

lemma sim_append_record:
  assumes "pool g m" "rt_geometry rt = g" "unat slot < cap g" "length data \<le> psz g"
    and "unat (rt_host_id rt) < hosts g" "abs_log H g (cache m) = L"
  shows "sim H g m (append_record H rt term data slot)
    (Inr (slot + 1),
     bump (rt_host_id rt) 2 (word_of_nat (length data)) (bump (rt_host_id rt) 0 1 (advance_spec
       (L\<lparr>l_slots := (l_slots L)[unat slot := SCommitted
          \<lparr>r_index = slot + 1, r_term = term, r_writer_id = ucast (rt_host_id rt), r_data = data\<rparr>]\<rparr>))))"
proof -
  let ?m1 = "committed_record H g (rt_host_id rt) term data slot m"
  have ag: "agree_off (rec_region g (unat slot)) (cache m) (cache ?m1)"
    using written_agree [OF poolD(1) [OF assms(1)] assms(4)] geom_okD(4) [OF poolD(1) [OF assms(1)]]
    by (auto intro!: agree_off_upd simp: rec_region_def)
  have abs1: "abs_log H g (cache ?m1) = L\<lparr>l_slots := (l_slots L)[unat slot := SCommitted
          \<lparr>r_index = slot + 1, r_term = term, r_writer_id = ucast (rt_host_id rt), r_data = data\<rparr>]\<rparr>"
    using abs_log_slot [OF poolD(1) [OF assms(1)] assms(3) ag, of H] assms(4,6)
    by (simp add: slot_view_written)
  have p1: "pool g ?m1" using assms(1) by simp
  show ?thesis
    by (rule sim_run [OF run_append_record [OF assms(1-4)]], simp,
        rule sim_bind [OF sim_advance [OF p1 abs1]],
        rule sim_bind [OF sim_increments(1) [OF _ assms(5)]], assumption, assumption,
        rule sim_bind [OF sim_increments(3) [OF _ assms(5)]], assumption, assumption,
        rule sim_Ret)
qed

theorem sim_append:
  assumes "pool g m" "rt_geometry rt = g" "unat (rt_host_id rt) < hosts g"
  shows "sim H g m (append H rt term data)
    (append_spec g (rt_host_id rt) term data (abs_log H g (cache m)))"
proof (cases "psz g < length data")
  case True
  with assms show ?thesis
    by (auto simp: append_def append_spec_def Let_def)
next
  case False
  let ?L = "abs_log H g (cache m)" and ?r = "get64 (cache m) 40"
  let ?m1 = "m\<lparr>cache := put64 (cache m) 40 (?r + 1)\<rparr>"
  have abs1: "abs_log H g (cache ?m1) = ?L\<lparr>l_reserve := ?r + 1\<rparr>"
    using assms(1) by (simp add: abs_log_reserve poolD)
  have hd: "64 \<le> unat (mm_len m)" using assms(1) by (rule pool_header_bounds)
  show ?thesis
  proof (cases "ucast (g_capacity g) \<le> ?r")
    case full: True
    then have "cap g \<le> unat ?r" by (simp add: word_le_nat_alt)
    with False have spec: "append_spec g (rt_host_id rt) term data ?L =
        (Inl (PoolFull (g_capacity g) ?r), bump (rt_host_id rt) 1 1 ?L)"
      by (simp add: append_spec_def)
    have undo: "put64 (put64 c 40 v) 40 (get64 c 40) = c" for c v
      by (auto simp: fun_eq_iff put64_def poke_def get64_def le_bytes_from_le
          [of "peek c 40 8", where ?'a = 64, simplified] nth_peek)
    have wrap: "x + 18446744073709551616 = (x :: u64)" for x by simp
    have "run (append H rt term data) m =
        run (prog_bind (increment_appends_failed g (rt_host_id rt)) (\<lambda>_.
             Ret (Inl (PoolFull (g_capacity g) ?r)))) m"
      using False full assms hd
      by (simp add: append_def Let_def run_FetchAddU64 undo add.assoc wrap)
    moreover have "sim H g m (prog_bind (increment_appends_failed g (rt_host_id rt)) (\<lambda>_.
             Ret (Inl (PoolFull (g_capacity g) ?r))))
        (append_spec g (rt_host_id rt) term data ?L)"
      unfolding spec
      by (rule sim_bind [OF sim_increments(2) [OF assms(1,3) refl]], rule sim_Ret)
    ultimately show ?thesis by (rule sim_run [OF _ same_map_refl])
  next
    case free: False
    then have lt: "unat ?r < cap g" by (simp add: not_le word_less_nat_alt)
    have "run (append H rt term data) m = run (append_record H rt term data ?r) ?m1"
      using False free assms hd
      by (simp add: append_def Let_def run_FetchAddU64)
    moreover have "append_spec g (rt_host_id rt) term data ?L =
      (Inr (?r + 1),
       bump (rt_host_id rt) 2 (word_of_nat (length data)) (bump (rt_host_id rt) 0 1 (advance_spec
         (?L\<lparr>l_reserve := ?r + 1, l_slots := (l_slots ?L)[unat ?r := SCommitted
          \<lparr>r_index = ?r + 1, r_term = term, r_writer_id = ucast (rt_host_id rt), r_data = data\<rparr>]\<rparr>))))"
      using False lt by (simp add: append_spec_def Let_def log_update_swap)
    moreover have "sim H g ?m1 (append_record H rt term data ?r) \<dots>"
      using sim_append_record [of g ?m1 rt ?r data H "?L\<lparr>l_reserve := ?r + 1\<rparr>" "term"] False lt assms abs1
      by simp
    ultimately show ?thesis
      using sim_run [of "append H rt term data" m "append_record H rt term data ?r" ?m1] by simp
  qed
qed

section \<open>Trim\<close>

lemma run_abandon:
  assumes "pool g m" "unat s < cap g"
  shows "run (StoreU8 (record_offset g s) STATE_ABANDONED Release (Flush (record_offset g s) CACHELINE k)) m
    = run k (flushed (m\<lparr>cache := (cache m)(rec_base g (unat s) := STATE_ABANDONED)\<rparr>)
               (record_offset g s) CACHELINE)"
  using pool_slot_bounds [OF assms] assms
  by (simp add: run_StoreU8 run_Flush unat_record_offset poolD)

lemma abandon_abs:
  assumes "pool g m" "s < cap g" "abs_log H g (cache m) = L"
  shows "abs_log H g ((cache m)(rec_base g s := STATE_ABANDONED)) =
    L\<lparr>l_slots := (l_slots L)[s := SAbandoned]\<rparr>"
proof -
  have "slot_view H g ((cache m)(rec_base g s := STATE_ABANDONED)) s = SAbandoned"
    by (simp add: slot_view_def)
  moreover have "agree_off (rec_region g s) (cache m) ((cache m)(rec_base g s := STATE_ABANDONED))"
    using geom_okD(4) [OF poolD(1) [OF assms(1)]]
    by (intro agree_off_upd agree_off_refl) (simp add: rec_region_def)
  ultimately show ?thesis
    using abs_log_slot [OF poolD(1) [OF assms(1)] assms(2), of "cache m" _ H] assms(3) by metis
qed

lemma sim_abandon:
  assumes "pool g m" "unat s < cap g" "abs_log H g (cache m) = L"
    and "\<And>m'. pool g m' \<Longrightarrow>
      abs_log H g (cache m') = L\<lparr>l_slots := (l_slots L)[unat s := SAbandoned]\<rparr> \<Longrightarrow> sim H g m' k r"
  shows "sim H g m (StoreU8 (record_offset g s) STATE_ABANDONED Release
           (Flush (record_offset g s) CACHELINE k)) r"
  by (rule sim_run [OF run_abandon [OF assms(1,2)]], simp, rule assms(4))
    (use assms(1) abandon_abs [OF assms(1,2,3)] in simp_all)

lemma pool_slot_nth:
  "abs_log H g (cache m) = L \<Longrightarrow> s < cap g \<Longrightarrow> l_slots L ! s = slot_view H g (cache m) s"
  by (metis abs_log_sel(1) add_0 nth_map_upt diff_zero)

lemma pool_slots_length: "abs_log H g c = L \<Longrightarrow> length (l_slots L) = cap g"
  by auto

lemma sim_trim_scan:
  assumes "pool g m" "abs_log H g (cache m) = L" "distinct (map unat ss)" "\<forall>s\<in>set ss. unat s < cap g"
  shows "sim H g m (trim_scan g ss cnt)
    (cnt + word_of_nat (length (filter (\<lambda>s. committed_state (l_slots L ! s)) (map unat ss))),
     L\<lparr>l_slots := update_at trim_slot (map unat ss) (l_slots L)\<rparr>)"
  using assms
proof (induction ss arbitrary: m L cnt)
  case Nil
  then show ?case by (auto intro: sim_Ret)
next
  case (Cons s ss)
  note pm = Cons.prems(1) and L = Cons.prems(2)
  have s: "unat s < cap g" using Cons.prems(4) by simp
  let ?st = "cache m (rec_base g (unat s))"
  have st: "committed_state (l_slots L ! unat s) \<longleftrightarrow> ?st = STATE_COMMITTED"
    using pool_slot_nth [OF L s] by simp
  have run0: "run (trim_scan g (s # ss) cnt) m =
      run (if ?st = STATE_COMMITTED then
             StoreU8 (record_offset g s) STATE_ABANDONED Release
               (Flush (record_offset g s) CACHELINE (trim_scan g ss (cnt + 1)))
           else trim_scan g ss cnt) m"
    using pm s by (simp add: Let_def run_load_state)
  show ?case
  proof (cases "?st = STATE_COMMITTED")
    case False
    then have "(l_slots L)[unat s := trim_slot (l_slots L ! unat s)] = l_slots L"
      using st by (simp add: trim_slot_simps)
    with False Cons.IH [OF pm L] Cons.prems(3,4) st show ?thesis
      by (intro sim_run [OF run0 same_map_refl]) simp
  next
    case True
    let ?L1 = "L\<lparr>l_slots := (l_slots L)[unat s := SAbandoned]\<rparr>"
    have same: "filter (\<lambda>t. committed_state (l_slots ?L1 ! t)) (map unat ss) =
        filter (\<lambda>t. committed_state (l_slots L ! t)) (map unat ss)"
      using Cons.prems(3) by (simp add: filter_nth_update)
    have "sim H g m (StoreU8 (record_offset g s) STATE_ABANDONED Release
               (Flush (record_offset g s) CACHELINE (trim_scan g ss (cnt + 1))))
        (cnt + 1 + word_of_nat (length (filter (\<lambda>t. committed_state (l_slots ?L1 ! t)) (map unat ss))),
         ?L1\<lparr>l_slots := update_at trim_slot (map unat ss) (l_slots ?L1)\<rparr>)"
      by (rule sim_abandon [OF pm s L], rule Cons.IH) (use Cons.prems(3,4) in simp_all)
    with True st same show ?thesis
      by (intro sim_run [OF run0 same_map_refl]) (simp add: add.assoc trim_slot_simps)
  qed
qed

text \<open>The slots of a prefix, as the loops enumerate them.\<close>

lemma prefix_slots:
  assumes "unat (n :: u64) \<le> cap g"
  shows "map unat (word_range 0 (ucast n :: u32)) = [0..<unat n]"
    and "\<forall>s\<in>set (word_range 0 (ucast n :: u32)). unat s < cap g"
proof -
  have "unat (ucast n :: u32) = unat n"
    using assms unat_u32_lt [of "g_capacity g"] by (intro unat_ucast_u64_u32) linarith
  then show map: "map unat (word_range 0 (ucast n :: u32)) = [0..<unat n]"
    by (simp add: map_unat_word_range)
  show "\<forall>s\<in>set (word_range 0 (ucast n :: u32)). unat s < cap g"
  proof
    fix s assume "s \<in> set (word_range 0 (ucast n :: u32))"
    then have "unat s \<in> set (map unat (word_range 0 (ucast n :: u32)))" by simp
    with map assms show "unat s < cap g" by simp
  qed
qed

theorem sim_trim:
  assumes "pool g m" "unat (get64 (cache m) 32) \<le> cap g"
  shows "sim H g m (trim g up_to) (trim_spec up_to (abs_log H g (cache m)))"
proof -
  let ?L = "abs_log H g (cache m)" and ?t = "get64 (cache m) 32"
  have run0: "run (trim g up_to) m =
      run (if up_to > ?t then Ret (Inl (TrimBeyondCommitted up_to ?t))
           else prog_bind (trim_scan g (word_range 0 (ucast up_to)) 0) (\<lambda>cnt.
             Ret (Inr \<lparr>trimmed_count = cnt\<rparr>))) m"
    using assms(1) by (simp add: trim_def run_load_header)
  show ?thesis
  proof (cases "up_to > ?t")
    case True
    with assms show ?thesis
      by (intro sim_run [OF run0 same_map_refl]) (auto simp: trim_spec_def)
  next
    case False
    then have le: "unat up_to \<le> cap g" using assms(2) by (simp add: not_less word_le_nat_alt)
    note ps = prefix_slots [OF le]
    have "sim H g m (trim_scan g (word_range 0 (ucast up_to)) 0)
        (word_of_nat (length (filter committed_state (take (unat up_to) (l_slots ?L)))),
         ?L\<lparr>l_slots := sweep trim_slot (unat up_to) (l_slots ?L)\<rparr>)"
      using sim_trim_scan [OF assms(1) refl _ ps(2), of H 0] le
        length_filter_upt [of "unat up_to" "l_slots ?L" committed_state]
      by (simp add: ps(1) update_at_upt)
    from sim_map [OF this, of "\<lambda>cnt. Inr \<lparr>trimmed_count = cnt\<rparr>"] False show ?thesis
      by (intro sim_run [OF run0 same_map_refl]) (simp add: trim_spec_def)
  qed
qed

section \<open>Recovery\<close>

lemma run_read_payload:
  assumes "pool g m" "s < cap g" "unat off = rec_base g s + 64" "n \<le> psz g"
  shows "run (read_payload off n k) m = run (k (peek (cache m) (rec_base g s + 64) n)) m"
  using assms pool_slot_bounds [OF assms(1,2)]
  by (auto simp: read_payload_def run_Read)

text \<open>The fields a reader loads before it checks the checksum.\<close>

lemma run_fields:
  assumes "pool g m" "unat s < cap g"
  shows "run (LoadU64 (record_offset g s + 8) Relaxed k) m = run (k (get64 (cache m) (rec_base g (unat s) + 8))) m"
    and "run (LoadU64 (record_offset g s + 16) Relaxed k) m = run (k (get64 (cache m) (rec_base g (unat s) + 16))) m"
    and "run (LoadU64 (record_offset g s + 24) Relaxed k) m = run (k (get64 (cache m) (rec_base g (unat s) + 24))) m"
    and "run (LoadU64 (record_offset g s + 40) Relaxed k) m = run (k (get64 (cache m) (rec_base g (unat s) + 40))) m"
    and "run (Read (record_offset g s + 32) 4 kb) m = run (kb (peek (cache m) (rec_base g (unat s) + 32) 4)) m"
  using pool_slot_bounds [OF assms] mod_add_eq [of "rec_base g (unat s)" 8, symmetric]
  by (simp_all add: run_LoadU64 run_Read unat_record_offset_plus)

lemma checksum_ok_alt:
  "verify H (get64 c (rec_base g s + 8)) (get64 c (rec_base g s + 16))
     (peek c (rec_base g s + 64)
        (min (unat (from_le (peek c (rec_base g s + 32) 4) :: u32)) (psz g)))
     (get64 c (rec_base g s + 40)) \<longleftrightarrow> checksum_ok H g c s"
  by (simp add: checksum_ok_def stored_data_def get32_def)

lemma sim_recover_slot:
  assumes "pool g m" "abs_log H g (cache m) = L" "unat s < cap g"
  shows "sim H g m (recover_slot H g s cnt)
    (if broken (l_slots L ! unat s) then cnt + 1 else cnt,
     L\<lparr>l_slots := (l_slots L)[unat s := fix_slot (l_slots L ! unat s)]\<rparr>)"
proof -
  let ?st = "cache m (rec_base g (unat s))"
  let ?abandon = "StoreU8 (record_offset g s) STATE_ABANDONED Release
        (Flush (record_offset g s) CACHELINE (Ret (cnt + 1)))"
  have v: "l_slots L ! unat s = slot_view H g (cache m) (unat s)"
    by (rule pool_slot_nth [OF assms(2,3)])
  have run0: "run (recover_slot H g s cnt) m =
      run (if ?st = STATE_WRITING then ?abandon
           else if ?st = STATE_COMMITTED then
             (if \<not> checksum_ok H g (cache m) (unat s) then ?abandon else Ret cnt)
           else if ?st = STATE_FREE \<or> ?st = STATE_ABANDONED then Ret cnt
           else ?abandon) m"
    using assms(1,3)
    by (simp add: recover_slot_def Let_def run_load_state run_fields run_read_payload
        [where s = "unat s"] unat_record_offset_plus checksum_ok_alt split: if_split)
  have "sim H g m ?abandon (cnt + 1, L\<lparr>l_slots := (l_slots L)[unat s := SAbandoned]\<rparr>)"
    by (rule sim_abandon [OF assms(1,3,2)]) (rule sim_Ret)
  moreover have "sim H g m (Ret cnt) (cnt, L)"
    using assms by (intro sim_Ret)
  moreover have "(l_slots L)[unat s := l_slots L ! unat s] = l_slots L" by simp
  ultimately show ?thesis
    by (intro sim_run [OF run0 same_map_refl])
      (auto simp: v slot_view_def Let_def fix_slot_def)
qed

lemma sim_recover_scan:
  assumes "pool g m" "abs_log H g (cache m) = L" "distinct (map unat ss)" "\<forall>s\<in>set ss. unat s < cap g"
  shows "sim H g m (recover_scan H g ss cnt)
    (cnt + word_of_nat (length (filter (\<lambda>s. broken (l_slots L ! s)) (map unat ss))),
     L\<lparr>l_slots := update_at fix_slot (map unat ss) (l_slots L)\<rparr>)"
  using assms
proof (induction ss arbitrary: m L cnt)
  case Nil
  then show ?case by (auto intro: sim_Ret)
next
  case (Cons s ss)
  have s: "unat s < cap g" using Cons.prems(4) by simp
  let ?L1 = "L\<lparr>l_slots := (l_slots L)[unat s := fix_slot (l_slots L ! unat s)]\<rparr>"
  let ?c1 = "if broken (l_slots L ! unat s) then cnt + 1 else cnt"
  have same: "filter (\<lambda>t. broken (l_slots ?L1 ! t)) (map unat ss) =
      filter (\<lambda>t. broken (l_slots L ! t)) (map unat ss)"
    using Cons.prems(3) by (simp add: filter_nth_update)
  have "sim H g m (recover_scan H g (s # ss) cnt)
      (?c1 + word_of_nat (length (filter (\<lambda>t. broken (l_slots ?L1 ! t)) (map unat ss))),
       ?L1\<lparr>l_slots := update_at fix_slot (map unat ss) (l_slots ?L1)\<rparr>)"
    unfolding recover_scan.simps
    by (rule sim_bind [OF sim_recover_slot [OF Cons.prems(1,2) s]], rule Cons.IH)
      (use Cons.prems(3,4) in simp_all)
  with same show ?case
    by (simp add: add.assoc split: if_splits)
qed

theorem sim_recover:
  assumes "pool g m" "abs_log H g (cache m) = L"
  shows "sim H g m (recover H g) (recover_spec g L)"
proof -
  let ?n = "scan_limit g L"
  have le: "unat ?n \<le> cap g"
    unfolding scan_limit_def by (metis min.cobounded2 word_le_nat_alt unat_ucast_u32_u64)
  note ps = prefix_slots [OF le]
  have len: "length (l_slots L) = cap g" using assms(2) by (rule pool_slots_length)
  let ?L1 = "L\<lparr>l_slots := sweep fix_slot (unat ?n) (l_slots L)\<rparr>"
  have scan: "sim H g m (recover_scan H g (word_range 0 (ucast ?n)) 0) (broken_count g L, ?L1)"
    using sim_recover_scan [OF assms _ ps(2), of 0] le len
      length_filter_upt [of "unat ?n" "l_slots L" broken]
    by (simp add: ps(1) update_at_upt broken_count_def)
  have run0: "run (recover H g) m = run (prog_bind (recover_scan H g (word_range 0 (ucast ?n)) 0)
      (\<lambda>ac. prog_bind (advance_committed_tail g) (\<lambda>t.
        Ret \<lparr>rr_abandoned_count = ac, rr_committed_tail = t, rr_slots_scanned = ?n\<rparr>))) m"
    using assms by (auto simp: recover_def Let_def run_load_header scan_limit_def)
  have adv: "sim H g m' (prog_bind (advance_committed_tail g) (\<lambda>t.
        Ret \<lparr>rr_abandoned_count = ac, rr_committed_tail = t, rr_slots_scanned = ?n\<rparr>))
      (\<lparr>rr_abandoned_count = ac, rr_committed_tail = tail_spec ?L1, rr_slots_scanned = ?n\<rparr>,
       advance_spec ?L1)"
    if "pool g m'" "abs_log H g (cache m') = ?L1" for m' ac
    by (rule sim_map [OF sim_advance [OF that]])
  have spec: "recover_spec g L =
      (\<lparr>rr_abandoned_count = broken_count g L, rr_committed_tail = tail_spec ?L1,
        rr_slots_scanned = ?n\<rparr>, advance_spec ?L1)"
    by (simp add: recover_spec_def repair_def advance_spec_def)
  show ?thesis
    unfolding spec by (rule sim_run [OF run0 same_map_refl], rule sim_bind [OF scan], rule adv)
qed

theorem sim_runtime_recover:
  assumes "pool g m" "rt_geometry rt = g" "unat (rt_host_id rt) < hosts g"
    and "abs_log H g (cache m) = L"
  shows "sim H g m (runtime_recover H rt) (runtime_recover_spec g (rt_host_id rt) L)"
proof -
  let ?h = "rt_host_id rt"
  obtain r L1 where r: "recover_spec g L = (r, L1)" by (cases "recover_spec g L")
  have last: "sim H g m' (if rr_abandoned_count r > 0 then
        prog_bind (increment_abandoned_found g ?h (rr_abandoned_count r)) (\<lambda>_. Ret r)
      else Ret r) (r, if rr_abandoned_count r > 0 then bump ?h 6 (rr_abandoned_count r) L2 else L2)"
    if "pool g m'" "abs_log H g (cache m') = L2" for m' L2
    by (rule sim_if) (rule sim_map [OF sim_increments(7) [OF that(1) assms(3) that(2)]],
        rule sim_Ret [OF that])
  show ?thesis
    unfolding runtime_recover_def runtime_recover_spec_def r Let_def assms(2) prod.case
    by (rule sim_bind [OF sim_recover [OF assms(1,4), unfolded r]],
        rule sim_bind [OF sim_increments(6) [OF _ assms(3)]], assumption, assumption, rule last)
qed

end
