(* ===== verification/ReadRefine.thy ===== *)
theory ReadRefine
  imports Refine
begin

text \<open>
  The reading operations: \<open>read\<close>, the loop of \<open>read_range\<close>, and \<open>stats\<close>.
\<close>

section \<open>Reading one record\<close>

lemma read_slot_arith:
  assumes "index \<noteq> (0 :: u64)" "unat index \<le> cap g"
  shows "unat (ucast (index - 1) :: u32) = unat index - 1" "unat index - 1 < cap g"
    "unat (index - 1) = unat index - 1"
proof -
  have pos: "0 < unat index" using assms(1) by (simp add: unat_gt_0)
  then show lt: "unat index - 1 < cap g" using assms(2) by linarith
  show i: "unat (index - 1) = unat index - 1"
    using pos by (simp add: unat_sub word_le_nat_alt)
  show "unat (ucast (index - 1) :: u32) = unat index - 1"
    using lt unat_u32_le [of "g_capacity g"] by (subst unat_ucast_u64_u32) (simp_all add: i)
qed

lemma sim_read_at:
  assumes "pool g m" "rt_geometry rt = g" "unat (rt_host_id rt) < hosts g"
    and "abs_log H g (cache m) = L" "index \<le> l_tail L \<Longrightarrow> unat index \<le> cap g"
  shows "sim H g m (read H rt index) (read_spec (rt_host_id rt) index L)"
proof (cases "index = 0 \<or> l_tail L < index")
  case True
  then have "run (read H rt index) m = Inr (Inl (IndexOutOfBounds index (l_tail L)), m)"
    using assms by (auto simp: read_def committed_tail_def Let_def run_load_header)
  with True assms show ?thesis
    by (auto simp: sim_def read_spec_def)
next
  case False
  then have i: "index \<noteq> 0" "unat index \<le> cap g"
    using assms(5) by (auto simp: not_less)
  note sl = read_slot_arith [OF i]
  let ?s = "ucast (index - 1) :: u32" and ?h = "rt_host_id rt"
  have s: "unat ?s < cap g" using sl by simp
  let ?st = "cache m (rec_base g (unat ?s))"
  have v: "l_slots L ! (unat index - 1) = slot_view H g (cache m) (unat ?s)"
    using pool_slot_nth [OF assms(4) s] by (simp add: sl(1))
  have run0: "run (read H rt index) m =
      run (if ?st \<noteq> STATE_COMMITTED then Ret (Inr None)
           else if \<not> checksum_ok H g (cache m) (unat ?s) then
             prog_bind (increment_checksum_failures g ?h) (\<lambda>_. Ret (Inl (ChecksumMismatch index)))
           else prog_bind (increment_reads g ?h)
                  (\<lambda>_. Ret (Inr (Some (stored_record g (cache m) (unat ?s)))))) m"
    using assms s False
    by (auto simp add: read_def committed_tail_def Let_def run_load_header run_load_state run_fields
        run_read_payload [where s = "unat ?s"] unat_record_offset_plus checksum_ok_alt
        stored_record_def stored_data_def get32_def)
  note incs = sim_increments [OF assms(1,3,4)]
  have "sim H g m (prog_bind (increment_checksum_failures g ?h)
          (\<lambda>_. Ret (Inl (ChecksumMismatch index)))) (Inl (ChecksumMismatch index), bump ?h 4 1 L)"
    by (rule sim_map [OF incs(5)])
  moreover have "sim H g m (prog_bind (increment_reads g ?h) (\<lambda>_. Ret (Inr r))) (Inr r, bump ?h 3 1 L)"
    for r :: "log_record option"
    by (rule sim_map [OF incs(4)])
  moreover have "sim H g m (Ret (Inr None)) (Inr None, L)" using assms by (intro sim_Ret)
  ultimately show ?thesis
    using False
    by (intro sim_run [OF run0 same_map_refl]) (auto simp: read_spec_def v [simplified] slot_view_def Let_def)
qed

lemma sim_read:
  assumes "pool g m" "rt_geometry rt = g" "unat (rt_host_id rt) < hosts g"
    and "abs_log H g (cache m) = L" "unat (l_tail L) \<le> cap g"
  shows "sim H g m (read H rt index) (read_spec (rt_host_id rt) index L)"
  using assms(5) by (intro sim_read_at [OF assms(1-4)]) (simp add: word_le_nat_alt)

section \<open>Reading a range\<close>

text \<open>The loop of \<open>read_range\<close> over the abstract log: it stops at the first error.\<close>

fun read_range_spec ::
    "u16 \<Rightarrow> u64 list \<Rightarrow> log_record list \<Rightarrow> log \<Rightarrow> (fence_error + log_record list) \<times> log" where
  "read_range_spec host [] rs L = (Inr rs, L)"
| "read_range_spec host (i # is) rs L =
     (case read_spec host i L of
        (Inl e, L') \<Rightarrow> (Inl e, L')
      | (Inr (Some r), L') \<Rightarrow> read_range_spec host is (rs @ [r]) L'
      | (Inr None, L') \<Rightarrow> read_range_spec host is rs L')"

lemma read_spec_sel:
  "read_spec host i L = (r, L') \<Longrightarrow>
   l_tail L' = l_tail L \<and> l_slots L' = l_slots L \<and> l_reserve L' = l_reserve L"
  by (auto simp: read_spec_def split: if_splits slot_view.splits)

lemma read_range_spec_sel:
  "l_tail (snd (read_range_spec host is rs L)) = l_tail L \<and>
   l_slots (snd (read_range_spec host is rs L)) = l_slots L \<and>
   l_reserve (snd (read_range_spec host is rs L)) = l_reserve L"
proof (induction host "is" rs L rule: read_range_spec.induct)
  case (2 host i "is" rs L)
  obtain r L' where r: "read_spec host i L = (r, L')" by fastforce
  note sel = read_spec_sel [OF r]
  show ?case
  proof (cases r)
    case (Inl e)
    with r sel show ?thesis by simp
  next
    case (Inr ro)
    with 2 r sel show ?thesis by (cases ro) simp_all
  qed
qed simp

lemma sim_read_loop:
  assumes "pool g m" "rt_geometry rt = g" "unat (rt_host_id rt) < hosts g"
    and "abs_log H g (cache m) = L" "unat (l_tail L) \<le> cap g"
  shows "sim H g m (read_loop H rt is rs) (read_range_spec (rt_host_id rt) is rs L)"
  using assms
proof (induction "is" arbitrary: m L rs)
  case Nil
  then show ?case by auto
next
  case (Cons i is')
  obtain r L' where r: "read_spec (rt_host_id rt) i L = (r, L')" by fastforce
  have t: "unat (l_tail L') \<le> cap g" using read_spec_sel [OF r] Cons.prems(5) by simp
  have "sim H g m' (case r of Inl e \<Rightarrow> Ret (Inl e) | Inr (Some record) \<Rightarrow> read_loop H rt is' (rs @ [record])
             | Inr None \<Rightarrow> read_loop H rt is' rs)
          (read_range_spec (rt_host_id rt) (i # is') rs L)"
    if "pool g m'" "abs_log H g (cache m') = L'" for m'
    using Cons.IH [OF that(1) Cons.prems(2,3) that(2) t] that
    by (auto simp: r split: sum.split option.split)
  then show ?case
    unfolding read_loop.simps
    by (intro sim_bind [OF sim_read [OF Cons.prems, of i, unfolded r]])
qed

theorem sim_read_range:
  assumes "pool g m" "rt_geometry rt = g" "unat (rt_host_id rt) < hosts g"
    and "abs_log H g (cache m) = L" "unat (l_tail L) \<le> cap g"
    and "start \<le> e" "48 * (unat e - unat start) \<le> 9223372036854775807"
  shows "sim H g m (read_range H rt start e)
    (read_range_spec (rt_host_id rt) (word_range start e) [] L)"
proof -
  have "unat (e - start) = unat e - unat start"
    using assms(6) by (simp add: unat_sub word_le_nat_alt)
  then show ?thesis
    using sim_read_loop [OF assms(1-5)] assms(7) by (simp add: read_range_def)
qed

text \<open>A reversed range panics before anything is read: the difference wraps.\<close>

lemma run_read_range_reversed:
  assumes "e < start" "unat start - unat e \<le> 2 ^ 62"
  shows "run (read_range H rt start e) m = Inl (Panic ''capacity overflow'')"
proof -
  have lt: "unat e < unat start" using assms(1) by (simp add: word_less_nat_alt)
  have "unat (e - start) = 2 ^ 64 - (unat start - unat e)"
    using lt unat_u64_lt [of start] by (simp add: unat_sub_if_size word_size not_le)
  with assms(2) have "9223372036854775807 < 48 * unat (e - start)" by simp
  then show ?thesis by (simp add: read_range_def)
qed

section \<open>Statistics\<close>

definition sum_metric :: "log \<Rightarrow> nat list \<Rightarrow> nat \<Rightarrow> u64" where
  "sum_metric L hs i = (\<Sum>h\<leftarrow>hs. l_metrics L h i)"

definition add_block :: "pool_stats \<Rightarrow> (nat \<Rightarrow> u64) \<Rightarrow> pool_stats" where
  "add_block st f =
     \<lparr>ps_appends_total = ps_appends_total st + f 0, ps_appends_failed = ps_appends_failed st + f 1,
      ps_bytes_written = ps_bytes_written st + f 2, ps_reads_total = ps_reads_total st + f 3,
      ps_checksum_failures = ps_checksum_failures st + f 4,
      ps_recovery_runs = ps_recovery_runs st + f 5, ps_abandoned_found = ps_abandoned_found st + f 6\<rparr>"

definition stats_spec :: "pool_geometry \<Rightarrow> log \<Rightarrow> pool_stats" where
  "stats_spec g L = add_block pool_stats_default (sum_metric L [0..<hosts g])"

lemma run_load_metric:
  assumes "pool g m" "unat h < hosts g" "i < 7" "unat c = 8 * i"
  shows "run (LoadU64 (metrics_offset g h + c) Relaxed k) m =
    run (k (l_metrics (abs_log H g (cache m)) (unat h) i)) m"
  using pool_metrics_bounds [OF assms(1,2)] assms(2,3,4)
    mod_add_eq [of "met_base g (unat h)" 8 "8 * i", symmetric]
  by (simp add: run_LoadU64 unat_metrics_offset_plus abs_log_def)

lemma run_read_stats_loop:
  assumes "pool g m" "\<forall>h\<in>set hs. unat h < hosts g"
  shows "run (read_stats_loop g hs st) m =
    Inr (add_block st (sum_metric (abs_log H g (cache m)) (map unat hs)), m)"
  using assms
proof (induction hs arbitrary: st)
  case Nil
  then show ?case by (simp add: add_block_def sum_metric_def)
next
  case (Cons h hs)
  let ?L = "abs_log H g (cache m)"
  have h: "unat h < hosts g" using Cons.prems(2) by simp
  have "run (read_stats_loop g (h # hs) st) m =
      run (read_stats_loop g hs (add_block st (l_metrics ?L (unat h)))) m"
    by (cases st) (simp add: Let_def add_block_def
        run_load_metric [OF Cons.prems(1) h, where c = 0 and i = 0 and H = H, simplified]
        run_load_metric [OF Cons.prems(1) h, where i = 1 and H = H]
        run_load_metric [OF Cons.prems(1) h, where i = 2 and H = H]
        run_load_metric [OF Cons.prems(1) h, where i = 3 and H = H]
        run_load_metric [OF Cons.prems(1) h, where i = 4 and H = H]
        run_load_metric [OF Cons.prems(1) h, where i = 5 and H = H]
        run_load_metric [OF Cons.prems(1) h, where i = 6 and H = H])
  with Cons show ?case
    by (simp add: add_block_def sum_metric_def add.assoc)
qed

theorem run_stats:
  assumes "pool g m" "rt_geometry rt = g"
  shows "run (stats rt) m = Inr (stats_spec g (abs_log H g (cache m)), m)"
proof -
  have map: "map unat (word_range 0 (g_max_hosts g)) = [0..<hosts g]"
    by (simp add: map_unat_word_range)
  have "\<forall>h\<in>set (word_range 0 (g_max_hosts g)). unat h < hosts g"
  proof
    fix h assume "h \<in> set (word_range 0 (g_max_hosts g))"
    then have "unat h \<in> set (map unat (word_range 0 (g_max_hosts g)))" by simp
    then show "unat h < hosts g" by (simp add: map)
  qed
  from run_read_stats_loop [OF assms(1) this, where H = H] show ?thesis
    by (simp add: stats_def read_stats_def stats_spec_def map assms(2))
qed

end
