(* ===== verification/LogInv.thy ===== *)
theory LogInv
  imports ReadRefine
begin

text \<open>
  The invariant of the abstract log, its preservation by every operation, and sessions:
  sequences of operations by any hosts, one after the other.
\<close>

section \<open>Advancing the tail\<close>

abbreviation committed_run :: "log \<Rightarrow> slot_view list" where
  "committed_run L \<equiv> takeWhile committed_state (drop (unat (l_tail L)) (l_slots L))"

lemma unat_tail_spec:
  assumes "unat (l_tail L) \<le> length (l_slots L)" "length (l_slots L) \<le> cap g"
  shows "unat (tail_spec L) = unat (l_tail L) + length (committed_run L)"
    and "unat (tail_spec L) \<le> length (l_slots L)"
proof -
  have le: "length (committed_run L) \<le> length (l_slots L) - unat (l_tail L)"
    using length_takeWhile_le [of committed_state "drop (unat (l_tail L)) (l_slots L)"] by simp
  then have lt: "unat (l_tail L) + length (committed_run L) \<le> 4294967295"
    using assms unat_u32_le [of "g_capacity g"] by linarith
  then have "unat (word_of_nat (length (committed_run L)) :: u64) = length (committed_run L)"
    by (simp add: unsigned_of_nat take_bit_nat_eq_self)
  with lt show eq: "unat (tail_spec L) = unat (l_tail L) + length (committed_run L)"
    unfolding tail_spec_def by (subst unat_add_lt64) simp_all
  with le assms(1) show "unat (tail_spec L) \<le> length (l_slots L)" by simp
qed

lemma committed_runD:
  assumes "unat (l_tail L) \<le> i" "i < unat (l_tail L) + length (committed_run L)"
  shows "committed_state (l_slots L ! i)"
proof -
  let ?n = "i - unat (l_tail L)"
  have n: "?n < length (committed_run L)" using assms by linarith
  then have "unat (l_tail L) \<le> length (l_slots L)" by (cases "unat (l_tail L) \<le> length (l_slots L)") simp_all
  moreover have "committed_run L ! ?n = drop (unat (l_tail L)) (l_slots L) ! ?n"
    using n by (rule takeWhile_nth)
  ultimately have "committed_run L ! ?n = l_slots L ! i" using assms(1) by simp
  then show ?thesis using nth_mem [OF n] set_takeWhileD by metis
qed

lemma committed_run_stop:
  assumes "unat (l_tail L) + length (committed_run L) < length (l_slots L)"
  shows "\<not> committed_state (l_slots L ! (unat (l_tail L) + length (committed_run L)))"
proof -
  have "length (committed_run L) < length (drop (unat (l_tail L)) (l_slots L))"
    using assms by simp
  from nth_length_takeWhile [OF this] show ?thesis
    using assms by (simp add: add.commute)
qed

section \<open>The invariant\<close>

fun slot_ok :: "nat \<Rightarrow> nat \<Rightarrow> nat \<Rightarrow> nat \<Rightarrow> slot_view \<Rightarrow> bool" where
  "slot_ok p t r i SFree \<longleftrightarrow> t \<le> i"
| "slot_ok p t r i SWriting \<longleftrightarrow> t \<le> i \<and> i < r"
| "slot_ok p t r i (SCommitted e) \<longleftrightarrow>
     i < r \<and> unat (r_index e) = i + 1 \<and> length (r_data e) \<le> p"
| "slot_ok p t r i SAbandoned \<longleftrightarrow> i < r"
| "slot_ok p t r i SCorrupt \<longleftrightarrow> False"
| "slot_ok p t r i SUnknown \<longleftrightarrow> False"

definition log_inv :: "pool_geometry \<Rightarrow> log \<Rightarrow> bool" where
  "log_inv g L \<longleftrightarrow> length (l_slots L) = cap g \<and>
     unat (l_tail L) \<le> unat (l_reserve L) \<and> unat (l_tail L) \<le> cap g \<and>
     (\<forall>i<cap g. slot_ok (psz g) (unat (l_tail L)) (unat (l_reserve L)) i (l_slots L ! i))"

lemma log_invD:
  assumes "log_inv g L"
  shows "length (l_slots L) = cap g" "unat (l_tail L) \<le> unat (l_reserve L)"
    "unat (l_tail L) \<le> cap g"
    "i < cap g \<Longrightarrow> slot_ok (psz g) (unat (l_tail L)) (unat (l_reserve L)) i (l_slots L ! i)"
  using assms by (simp_all add: log_inv_def)

lemma slot_ok_mono: "slot_ok p t r i v \<Longrightarrow> r \<le> r' \<Longrightarrow> slot_ok p t r' i v"
  by (cases v) auto

lemma slot_ok_committed: "slot_ok p t r i v \<Longrightarrow> committed_state v \<Longrightarrow> i < r \<and> slot_ok p t' r i v"
  by (cases v) auto

lemma log_inv_bump [simp]: "log_inv g (bump h i n L) = log_inv g L"
  by (simp add: log_inv_def)

lemma log_inv_advance:
  assumes "log_inv g L"
  shows "log_inv g (advance_spec L)"
proof -
  note D = log_invD [OF assms]
  note t = unat_tail_spec [of L g, unfolded D(1), OF D(3) order_refl]
  have run: "slot_ok (psz g) t' (unat (l_reserve L)) i (l_slots L ! i) \<and> i < unat (l_reserve L)"
    if "unat (l_tail L) \<le> i" "i < unat (tail_spec L)" for i t'
    using slot_ok_committed [OF D(4)] committed_runD [of L i] that t by simp
  have "unat (tail_spec L) \<le> unat (l_reserve L)"
  proof (cases "unat (tail_spec L) = unat (l_tail L)")
    case True
    with D(2) show ?thesis by simp
  next
    case False
    with t(1) have "unat (l_tail L) \<le> unat (tail_spec L) - 1" "unat (tail_spec L) - 1 < unat (tail_spec L)"
      by linarith+
    from run [OF this, THEN conjunct2] show ?thesis by linarith
  qed
  moreover have "slot_ok (psz g) (unat (tail_spec L)) (unat (l_reserve L)) i (l_slots L ! i)"
    if "i < cap g" for i
  proof (cases "unat (l_tail L) \<le> i \<and> i < unat (tail_spec L)")
    case True
    then show ?thesis using run by blast
  next
    case False
    with D(4) [OF that] t(1) show ?thesis by (cases "l_slots L ! i") auto
  qed
  ultimately show ?thesis
    using D(1) t(2) by (simp add: log_inv_def advance_spec_def)
qed

lemma log_inv_append:
  assumes "log_inv g L"
  shows "log_inv g (snd (append_spec g host term data L))"
proof (cases "psz g < length data \<or> length (l_slots L) \<le> unat (l_reserve L)")
  case True
  with assms show ?thesis by (auto simp: append_spec_def)
next
  case False
  note D = log_invD [OF assms]
  let ?r = "l_reserve L"
  from False D(1) have r: "unat ?r < cap g" by simp
  then have r1: "unat (?r + 1) = Suc (unat ?r)"
    using unat_u32_le [of "g_capacity g"] by (subst unat_add_lt64) simp_all
  have "log_inv g (L\<lparr>l_slots := (l_slots L)[unat ?r := SCommitted
      \<lparr>r_index = ?r + 1, r_term = term, r_writer_id = ucast host, r_data = data\<rparr>], l_reserve := ?r + 1\<rparr>)"
    using D False r slot_ok_mono [OF D(4)] by (auto simp: log_inv_def r1 nth_list_update)
  then show ?thesis
    using False by (auto simp: append_spec_def Let_def intro: log_inv_advance)
qed

lemma log_inv_trim: "log_inv g L \<Longrightarrow> log_inv g (snd (trim_spec up_to L))"
proof -
  assume a: "log_inv g L"
  have "slot_ok p t r i (trim_slot v)" if "slot_ok p t r i v" for p t r i v
    using that by (cases v) (auto simp: trim_slot_def)
  with log_invD [OF a] show ?thesis
    by (auto simp: trim_spec_def log_inv_def nth_sweep)
qed

lemma log_inv_read: "log_inv g L \<Longrightarrow> log_inv g (snd (read_spec host index L))"
  using read_spec_sel [OF prod.collapse [symmetric], of host index L] by (simp add: log_inv_def)

lemma log_inv_read_range: "log_inv g L \<Longrightarrow> log_inv g (snd (read_range_spec host is rs L))"
  by (simp add: log_inv_def read_range_spec_sel)

lemma log_inv_repair:
  assumes "log_inv g L"
  shows "log_inv g (repair g L)"
proof -
  note D = log_invD [OF assms]
  have "slot_ok p t r i (fix_slot v)" if "slot_ok p t r i v" for p t r i v
    using that by (cases v) (auto simp: fix_slot_def)
  with D have "log_inv g (L\<lparr>l_slots := sweep fix_slot (unat (scan_limit g L)) (l_slots L)\<rparr>)"
    by (auto simp: log_inv_def nth_sweep)
  then show ?thesis by (simp add: repair_def log_inv_advance)
qed

lemma log_inv_recover: "log_inv g L \<Longrightarrow> log_inv g (snd (runtime_recover_spec g host L))"
  by (simp add: runtime_recover_spec_def recover_spec_def log_inv_repair Let_def)

section \<open>Sessions\<close>

datatype log_op =
    OpAppend u64 "u8 list"
  | OpRead u64
  | OpReadRange u64 u64
  | OpTrim u64
  | OpRecover
  | OpCommittedTail
  | OpReserveTail
  | OpStats

datatype outcome =
    RAppend "fence_error + u64"
  | RRead "fence_error + log_record option"
  | RReadRange "fence_error + log_record list"
  | RTrim "fence_error + trim_result"
  | RRecover recovery_report
  | RTail u64
  | RStats pool_stats

fun op_prog :: "'h hasher \<Rightarrow> fence_runtime \<Rightarrow> log_op \<Rightarrow> outcome prog" where
  "op_prog H rt (OpAppend term data) = prog_bind (append H rt term data) (\<lambda>r. Ret (RAppend r))"
| "op_prog H rt (OpRead i) = prog_bind (read H rt i) (\<lambda>r. Ret (RRead r))"
| "op_prog H rt (OpReadRange a b) = prog_bind (read_range H rt a b) (\<lambda>r. Ret (RReadRange r))"
| "op_prog H rt (OpTrim n) = prog_bind (runtime_trim rt n) (\<lambda>r. Ret (RTrim r))"
| "op_prog H rt OpRecover = prog_bind (runtime_recover H rt) (\<lambda>r. Ret (RRecover r))"
| "op_prog H rt OpCommittedTail = prog_bind committed_tail (\<lambda>r. Ret (RTail r))"
| "op_prog H rt OpReserveTail = prog_bind reserve_tail (\<lambda>r. Ret (RTail r))"
| "op_prog H rt OpStats = prog_bind (stats rt) (\<lambda>r. Ret (RStats r))"

fun op_spec :: "pool_geometry \<Rightarrow> u16 \<Rightarrow> log_op \<Rightarrow> log \<Rightarrow> outcome \<times> log" where
  "op_spec g h (OpAppend term data) L = map_prod RAppend id (append_spec g h term data L)"
| "op_spec g h (OpRead i) L = map_prod RRead id (read_spec h i L)"
| "op_spec g h (OpReadRange a b) L = map_prod RReadRange id (read_range_spec h (word_range a b) [] L)"
| "op_spec g h (OpTrim n) L = map_prod RTrim id (trim_spec n L)"
| "op_spec g h OpRecover L = map_prod RRecover id (runtime_recover_spec g h L)"
| "op_spec g h OpCommittedTail L = (RTail (l_tail L), L)"
| "op_spec g h OpReserveTail L = (RTail (l_reserve L), L)"
| "op_spec g h OpStats L = (RStats (stats_spec g L), L)"

text \<open>The calls a client may make: a range must not be reversed or huge.\<close>

fun op_ok :: "log_op \<Rightarrow> bool" where
  "op_ok (OpReadRange a b) \<longleftrightarrow> a \<le> b \<and> 48 * (unat b - unat a) \<le> 9223372036854775807"
| "op_ok _ \<longleftrightarrow> True"

lemma sim_wrap: "sim H g m p r \<Longrightarrow> sim H g m (prog_bind p (\<lambda>x. Ret (C x))) (map_prod C id r)"
  using refines_map [of "pool g" "abs_log H g" m p "fst r" "snd r" C] by (cases r) simp

lemma sim_op:
  assumes "pool g m" "rt_geometry rt = g" "unat (rt_host_id rt) < hosts g"
    and "abs_log H g (cache m) = L" "log_inv g L" "op_ok op"
  shows "sim H g m (op_prog H rt op) (op_spec g (rt_host_id rt) op L)"
proof -
  note t = log_invD(3) [OF assms(5)]
  show ?thesis
  proof (cases op)
    case (OpAppend x1 x2)
    then show ?thesis using sim_wrap [OF sim_append [OF assms(1-3)]] assms(4) by auto
  next
    case (OpRead x)
    then show ?thesis using sim_wrap [OF sim_read [OF assms(1-4) t]] by auto
  next
    case (OpReadRange x1 x2)
    then show ?thesis using sim_wrap [OF sim_read_range [OF assms(1-4) t]] assms(6) by auto
  next
    case (OpTrim x)
    then show ?thesis using sim_wrap [OF sim_trim [OF assms(1)]] assms(2,4) t
      by (auto simp: runtime_trim_def)
  next
    case OpRecover
    then show ?thesis using sim_wrap [OF sim_runtime_recover [OF assms(1-4)]] by auto
  next
    case OpCommittedTail
    then show ?thesis using sim_map [OF sim_committed_tail [OF assms(1,4)]] by auto
  next
    case OpReserveTail
    then show ?thesis using sim_map [OF sim_reserve_tail [OF assms(1,4)]] by auto
  next
    case OpStats
    have "sim H g m (stats rt) (stats_spec g L, L)"
      using assms(1,4) by (auto simp: sim_def run_stats [OF assms(1,2), where H = H])
    from sim_map [OF this] OpStats show ?thesis by auto
  qed
qed

lemma log_inv_op: "log_inv g L \<Longrightarrow> log_inv g (snd (op_spec g h op L))"
  by (cases op) (simp_all add: log_inv_append log_inv_read log_inv_read_range log_inv_trim log_inv_recover)

fun session :: "'h hasher \<Rightarrow> pool_geometry \<Rightarrow> (u16 \<times> log_op) list \<Rightarrow> outcome list prog" where
  "session H g [] = Ret []"
| "session H g ((h, op) # ops) =
     prog_bind (op_prog H \<lparr>rt_geometry = g, rt_host_id = h\<rparr> op) (\<lambda>r.
     prog_bind (session H g ops) (\<lambda>rs. Ret (r # rs)))"

fun session_spec :: "pool_geometry \<Rightarrow> (u16 \<times> log_op) list \<Rightarrow> log \<Rightarrow> outcome list \<times> log" where
  "session_spec g [] L = ([], L)"
| "session_spec g ((h, op) # ops) L =
     (let (r, L1) = op_spec g h op L; (rs, L2) = session_spec g ops L1 in (r # rs, L2))"

definition session_ok :: "pool_geometry \<Rightarrow> (u16 \<times> log_op) list \<Rightarrow> bool" where
  "session_ok g ops \<longleftrightarrow> list_all (\<lambda>(h, op). unat h < hosts g \<and> op_ok op) ops"

lemma sim_session:
  assumes "pool g m" "abs_log H g (cache m) = L" "log_inv g L" "session_ok g ops"
  shows "sim H g m (session H g ops) (session_spec g ops L)"
  using assms
proof (induction ops arbitrary: m L)
  case Nil
  then show ?case by auto
next
  case (Cons hop ops)
  obtain h op where hop: "hop = (h, op)" by fastforce
  let ?rt = "\<lparr>rt_geometry = g, rt_host_id = h\<rparr>"
  obtain r L1 where s: "op_spec g h op L = (r, L1)" by fastforce
  obtain rs L2 where s2: "session_spec g ops L1 = (rs, L2)" by fastforce
  have ok: "unat h < hosts g" "op_ok op" "session_ok g ops"
    using Cons.prems(4) by (simp_all add: session_ok_def hop)
  have inv: "log_inv g L1" using log_inv_op [OF Cons.prems(3), of h op] by (simp add: s)
  have first: "sim H g m (op_prog H ?rt op) (r, L1)"
    using sim_op [of g m ?rt H L op] Cons.prems ok by (simp add: s)
  have "sim H g m' (prog_bind (session H g ops) (\<lambda>rs. Ret (r # rs))) (r # rs, L2)"
    if "pool g m'" "abs_log H g (cache m') = L1" for m'
    using sim_map [OF Cons.IH [OF that inv ok(3), unfolded s2]] .
  then show ?case
    unfolding hop session.simps session_spec.simps s s2 Let_def prod.case
    by (intro sim_bind [OF first])
qed

lemma log_inv_session: "log_inv g L \<Longrightarrow> log_inv g (snd (session_spec g ops L))"
proof (induction g ops L rule: session_spec.induct)
  case (2 g h op ops L)
  from 2(2) have "log_inv g (snd (op_spec g h op L))" by (rule log_inv_op)
  with 2(1) show ?case by (auto split: prod.split simp: Let_def)
qed simp

end
