(* ===== verification/CrashLogic.thy ===== *)
theory CrashLogic
  imports LogView
begin

text \<open>
  Reasoning about every point at which a program can be interrupted. \<open>crash_spec P p Q C\<close>
  is a crash Hoare triple: started in \<open>P\<close>, the program \<open>p\<close> has \<open>C\<close> at each of its
  interruption points, whatever cachelines were evicted before it, and \<open>Q\<close> when it returns.
  \<open>writes_within B p\<close> bounds the bytes a program can store to, and gives a frame rule.
\<close>

section \<open>Crash triples\<close>

inductive_cases crash_reachE: "crash_reach p m p' m'"
inductive_simps crash_reach_Ret_simps: "crash_reach p m (Ret x) m'"

inductive evicted :: "mmap \<Rightarrow> mmap \<Rightarrow> bool" where
  ev_refl: "evicted m m"
| ev_line: "evicted m m' \<Longrightarrow> evicted m (write_back l m')"

definition evict_closed :: "(mmap \<Rightarrow> bool) \<Rightarrow> bool" where
  "evict_closed P \<longleftrightarrow> (\<forall>l m. P m \<longrightarrow> P (write_back l m))"

definition crash_spec ::
    "(mmap \<Rightarrow> bool) \<Rightarrow> 'a prog \<Rightarrow> ('a \<Rightarrow> mmap \<Rightarrow> bool) \<Rightarrow> (mmap \<Rightarrow> bool) \<Rightarrow> bool" where
  "crash_spec P p Q C \<longleftrightarrow>
     (\<forall>m p' m'. P m \<longrightarrow> crash_reach p m p' m' \<longrightarrow> C m' \<and> (\<forall>x. p' = Ret x \<longrightarrow> Q x m'))"

lemma crash_specI:
  "(\<And>m p' m'. P m \<Longrightarrow> crash_reach p m p' m' \<Longrightarrow> C m' \<and> (\<forall>x. p' = Ret x \<longrightarrow> Q x m')) \<Longrightarrow>
   crash_spec P p Q C"
  by (simp add: crash_spec_def)

lemma crash_specD:
  "crash_spec P p Q C \<Longrightarrow> P m \<Longrightarrow> crash_reach p m p' m' \<Longrightarrow> C m'"
  "crash_spec P p Q C \<Longrightarrow> P m \<Longrightarrow> crash_reach p m (Ret x) m' \<Longrightarrow> Q x m'"
  by (auto simp: crash_spec_def)

lemma evicted_closed: "evicted m m' \<Longrightarrow> evict_closed P \<Longrightarrow> P m \<Longrightarrow> P m'"
  by (induction rule: evicted.induct) (auto simp: evict_closed_def)

lemma crash_reach_head:
  "crash_reach p m p' m' \<Longrightarrow>
   (p' = p \<and> evicted m m') \<or>
   (\<exists>m1 p1 m2. evicted m m1 \<and> step p m1 = Some (Inr (p1, m2)) \<and> crash_reach p1 m2 p' m')"
proof (induction rule: crash_reach.induct)
  case (cr_refl p m)
  then show ?case by (simp add: ev_refl)
next
  case (cr_step p m p' m' p'' m'')
  then show ?case by (meson crash_reach.cr_refl crash_reach.cr_step)
next
  case (cr_evict p m p' m' l)
  then show ?case by (meson crash_reach.cr_evict ev_line)
qed

lemma crash_spec_conseq:
  "crash_spec P p Q C \<Longrightarrow> (\<And>m. P' m \<Longrightarrow> P m) \<Longrightarrow> (\<And>x m. Q x m \<Longrightarrow> Q' x m) \<Longrightarrow>
   (\<And>m. C m \<Longrightarrow> C' m) \<Longrightarrow> crash_spec P' p Q' C'"
  unfolding crash_spec_def by metis

lemma crash_spec_pre: "crash_spec P p Q C \<Longrightarrow> (\<And>m. P' m \<Longrightarrow> P m) \<Longrightarrow> crash_spec P' p Q C"
  by (auto simp: crash_spec_def)

lemma crash_spec_Ret:
  assumes "evict_closed P" "\<And>m. P m \<Longrightarrow> C m" "\<And>m. P m \<Longrightarrow> Q x m"
  shows "crash_spec P (Ret x) Q C"
proof (rule crash_specI)
  fix m p' m' assume "P m" "crash_reach (Ret x) m p' m'"
  with crash_reach_head [of "Ret x" m p' m'] have "p' = Ret x" "P m'"
    using evicted_closed [OF _ assms(1)] by auto
  with assms show "C m' \<and> (\<forall>y. p' = Ret y \<longrightarrow> Q y m')" by simp
qed

lemma crash_spec_step:
  assumes "evict_closed P" "\<And>m. P m \<Longrightarrow> C m"
    and "\<And>m. P m \<Longrightarrow> \<exists>p1 m1. step p m = Some (Inr (p1, m1)) \<and> R p1 m1"
    and "\<And>p1. crash_spec (R p1) p1 Q C"
  shows "crash_spec P p Q C"
proof (rule crash_specI)
  fix m p' m' assume P: "P m" "crash_reach p m p' m'"
  from crash_reach_head [OF P(2)]
  consider (here) "p' = p" "evicted m m'"
    | (later) m1 p1 m2 where "evicted m m1" "step p m1 = Some (Inr (p1, m2))" "crash_reach p1 m2 p' m'"
    by blast
  then show "C m' \<and> (\<forall>x. p' = Ret x \<longrightarrow> Q x m')"
  proof cases
    case here
    then have "P m'" using evicted_closed [OF _ assms(1) P(1)] by blast
    moreover from assms(3) [OF this] have "\<forall>x. p \<noteq> Ret x" by auto
    ultimately show ?thesis using assms(2) here by simp
  next
    case later
    then have "P m1" using evicted_closed [OF _ assms(1) P(1)] by blast
    from assms(3) [OF this] later have "R p1 m2" by simp
    with assms(4) later(3) show ?thesis by (auto simp: crash_spec_def)
  qed
qed

section \<open>Sequencing\<close>

lemma step_bind:
  "\<forall>x. p \<noteq> Ret x \<Longrightarrow> step (prog_bind p f) m =
   (case step p m of None \<Rightarrow> None | Some (Inl e) \<Rightarrow> Some (Inl e)
    | Some (Inr (p', m')) \<Rightarrow> Some (Inr (prog_bind p' f, m')))"
  by (cases p) (auto split: sum.split)

lemma crash_reach_trans:
  "crash_reach p1 m1 p2 m2 \<Longrightarrow> crash_reach p m p1 m1 \<Longrightarrow> crash_reach p m p2 m2"
  by (induction rule: crash_reach.induct) (auto intro: crash_reach.intros)

lemma crash_reach_bind:
  "crash_reach q m q' m' \<Longrightarrow> q = prog_bind p f \<Longrightarrow>
   (\<exists>p'. q' = prog_bind p' f \<and> crash_reach p m p' m') \<or>
   (\<exists>x m1. crash_reach p m (Ret x) m1 \<and> crash_reach (f x) m1 q' m')"
proof (induction arbitrary: p rule: crash_reach.induct)
  case (cr_refl q m)
  then show ?case by (auto intro: crash_reach.cr_refl)
next
  case (cr_step q m q' m' q'' m'')
  from cr_step.IH [OF cr_step.prems]
  consider p' where "q' = prog_bind p' f" "crash_reach p m p' m'"
    | x m1 where "crash_reach p m (Ret x) m1" "crash_reach (f x) m1 q' m'"
    by blast
  then show ?case
  proof cases
    case 1
    show ?thesis
    proof (cases "\<exists>x. p' = Ret x")
      case True
      with 1 cr_step.hyps show ?thesis
        by (metis crash_reach.cr_refl crash_reach.cr_step prog_bind.simps(1))
    next
      case False
      with 1 cr_step.hyps obtain p1 where "step p' m' = Some (Inr (p1, m''))" "q'' = prog_bind p1 f"
        by (auto simp: step_bind split: option.splits sum.splits)
      moreover from this have "crash_reach p m p1 m''" using 1 by (blast intro: crash_reach.cr_step)
      ultimately show ?thesis by blast
    qed
  next
    case 2
    with cr_step.hyps show ?thesis by (meson crash_reach.cr_step)
  qed
next
  case (cr_evict q m q' m' l)
  from cr_evict.IH [OF cr_evict.prems] show ?case by (blast intro: crash_reach.cr_evict)
qed

lemma crash_spec_bind:
  assumes "crash_spec P p R C" "\<And>x. crash_spec (R x) (f x) Q C"
  shows "crash_spec P (prog_bind p f) Q C"
proof (rule crash_specI)
  fix m q m' assume P: "P m" "crash_reach (prog_bind p f) m q m'"
  from crash_reach_bind [OF P(2) refl]
  consider p' where "q = prog_bind p' f" "crash_reach p m p' m'"
    | x m1 where "crash_reach p m (Ret x) m1" "crash_reach (f x) m1 q m'"
    by blast
  then show "C m' \<and> (\<forall>x. q = Ret x \<longrightarrow> Q x m')"
  proof cases
    case 1
    have C: "C m'" using crash_specD(1) [OF assms(1) P(1) 1(2)] .
    show ?thesis
    proof (cases "\<exists>x. p' = Ret x")
      case True
      then obtain x where x: "p' = Ret x" by blast
      then have "R x m'" using crash_specD(2) [OF assms(1) P(1)] 1(2) by blast
      from assms(2) [unfolded crash_spec_def, rule_format, OF this crash_reach.cr_refl]
      show ?thesis using x 1 by simp
    next
      case False
      then have "\<forall>x. q \<noteq> Ret x" using 1 by (cases p') auto
      with C show ?thesis by blast
    qed
  next
    case 2
    then have "R x m1" using crash_specD(2) [OF assms(1) P(1)] by blast
    with 2(2) assms(2) show ?thesis by (auto simp: crash_spec_def)
  qed
qed

section \<open>Known cache, possible media\<close>

text \<open>
  \<open>pstate m0 c S\<close>: the region of \<open>m0\<close> with the cache \<open>c\<close> and, at each address \<open>x\<close>, one of
  the media bytes \<open>S x\<close>. It is stable under evictions when \<open>S\<close> admits the cache.
\<close>

definition pstate :: "mmap \<Rightarrow> bytes \<Rightarrow> (nat \<Rightarrow> u8 set) \<Rightarrow> mmap \<Rightarrow> bool" where
  "pstate m0 c S m \<longleftrightarrow>
     mm_ptr m = mm_ptr m0 \<and> mm_len m = mm_len m0 \<and> mm_arch m = mm_arch m0 \<and>
     cache m = c \<and> (\<forall>x. media m x \<in> S x)"

definition admits :: "(nat \<Rightarrow> u8 set) \<Rightarrow> bytes \<Rightarrow> bool" where
  "admits S c \<longleftrightarrow> (\<forall>x. c x \<in> S x)"

lemma pstate_evict_closed: "admits S c \<Longrightarrow> evict_closed (pstate m0 c S)"
  by (auto simp: evict_closed_def pstate_def admits_def write_back_def)

lemma admits_poke:
  "admits S c \<Longrightarrow> (\<And>x. a \<le> x \<Longrightarrow> x < a + length bs \<Longrightarrow> S x = UNIV) \<Longrightarrow> admits S (poke c a bs)"
  by (auto simp: admits_def poke_def)

lemma admits_put64:
  "admits S c \<Longrightarrow> (\<And>x. a \<le> x \<Longrightarrow> x < a + 8 \<Longrightarrow> S x = UNIV) \<Longrightarrow> admits S (put64 c a v)"
  unfolding put64_def by (rule admits_poke) simp_all

lemma admits_upd: "admits S c \<Longrightarrow> v \<in> S a \<Longrightarrow> admits S (c(a := v))"
  by (simp add: admits_def)

lemma pstate_mono: "pstate m0 c S m \<Longrightarrow> (\<And>x. S x \<subseteq> S' x) \<Longrightarrow> pstate m0 c S' m"
  by (auto simp: pstate_def)

lemma crash_spec_pstep:
  assumes "admits S c" "\<And>m. pstate m0 c S m \<Longrightarrow> C m"
    and "\<And>m. pstate m0 c S m \<Longrightarrow> \<exists>m1. step p m = Some (Inr (k, m1)) \<and> pstate m0 c' S' m1"
    and "crash_spec (pstate m0 c' S') k Q C"
  shows "crash_spec (pstate m0 c S) p Q C"
  by (rule crash_spec_step [OF pstate_evict_closed [OF assms(1)] assms(2),
        where R = "\<lambda>p1 m1. p1 = k \<and> pstate m0 c' S' m1"])
    (use assms(3,4) in \<open>auto simp: crash_spec_def\<close>)

lemma cs_StoreU8:
  assumes "admits S c" "\<And>m. pstate m0 c S m \<Longrightarrow> C m"
    and "unat a < unat (mm_len m0)" "ord \<notin> {Acquire, AcqRel}"
    and "crash_spec (pstate m0 (c(unat a := v)) S) k Q C"
  shows "crash_spec (pstate m0 c S) (StoreU8 a v ord k) Q C"
  by (rule crash_spec_pstep [OF assms(1,2) _ assms(5)])
    (use assms(3,4) in \<open>auto simp: pstate_def mb_defs\<close>)

lemma cs_StoreU64:
  assumes "admits S c" "\<And>m. pstate m0 c S m \<Longrightarrow> C m"
    and "unat a + 8 \<le> unat (mm_len m0)" "unat a mod 8 = 0" "ord \<notin> {Acquire, AcqRel}"
    and "crash_spec (pstate m0 (put64 c (unat a) v) S) k Q C"
  shows "crash_spec (pstate m0 c S) (StoreU64 a v ord k) Q C"
  by (rule crash_spec_pstep [OF assms(1,2) _ assms(6)])
    (use assms(3-5) in \<open>auto simp: pstate_def mb_defs\<close>)

lemma cs_Write:
  assumes "admits S c" "\<And>m. pstate m0 c S m \<Longrightarrow> C m"
    and "unat a + length bs \<le> unat (mm_len m0)"
    and "crash_spec (pstate m0 (poke c (unat a) bs) S) k Q C"
  shows "crash_spec (pstate m0 c S) (Write a bs k) Q C"
  by (rule crash_spec_pstep [OF assms(1,2) _ assms(4)])
    (use assms(3) in \<open>auto simp: pstate_def mb_defs\<close>)

lemma cs_Write_nonempty:
  assumes "admits S c" "\<And>m. pstate m0 c S m \<Longrightarrow> C m"
    and "unat a + length bs \<le> unat (mm_len m0)"
    and "crash_spec (pstate m0 (poke c (unat a) bs) S) k Q C"
  shows "crash_spec (pstate m0 c S) ((if bs \<noteq> [] then Write a bs else id) k) Q C"
  using cs_Write [OF assms] assms(4) by (cases "bs = []") simp_all

lemma cs_FetchAddU64:
  assumes "admits S c" "\<And>m. pstate m0 c S m \<Longrightarrow> C m"
    and "unat a + 8 \<le> unat (mm_len m0)" "unat a mod 8 = 0"
    and "crash_spec (pstate m0 (put64 c (unat a) (get64 c (unat a) + d)) S) (k (get64 c (unat a))) Q C"
  shows "crash_spec (pstate m0 c S) (FetchAddU64 a d ord k) Q C"
  by (rule crash_spec_pstep [OF assms(1,2) _ assms(5)])
    (use assms(3,4) in \<open>auto simp: pstate_def mb_defs Let_def\<close>)

text \<open>After a flush on x86-64 the media of the flushed range is the cache.\<close>

definition settle :: "nat \<Rightarrow> nat \<Rightarrow> bytes \<Rightarrow> (nat \<Rightarrow> u8 set) \<Rightarrow> nat \<Rightarrow> u8 set" where
  "settle a n c S = (\<lambda>x. if a \<le> x \<and> x < a + n then {c x} else S x)"

lemma admits_settle: "admits S c \<Longrightarrow> admits (settle a n c S) c"
  by (simp add: admits_def settle_def)

lemma cs_Flush:
  assumes "admits S c" "\<And>m. pstate m0 c S m \<Longrightarrow> C m"
    and "mm_arch m0 = X86_64" "mapped m0" "unat a + unat n \<le> unat (mm_len m0)"
    and "crash_spec (pstate m0 c (settle (unat a) (unat n) c S)) k Q C"
  shows "crash_spec (pstate m0 c S) (Flush a n k) Q C"
proof (rule crash_spec_pstep [OF assms(1,2) _ assms(6)])
  fix m assume m: "pstate m0 c S m"
  then have mp: "mapped m" "mm_arch m = X86_64" "unat a + unat n \<le> unat (mm_len m)"
    using assms(3-5) by (simp_all add: pstate_def mapped_def)
  have "media (flush_range (mm_ptr m + a) n m) x \<in> settle (unat a) (unat n) c S x" for x
    using media_flush_covers [OF mp(2,1,3)] media_flush_either [OF mp(1,3), of x] m assms(1)
    by (auto simp: settle_def pstate_def admits_def)
  then show "\<exists>m1. step (Flush a n k) m = Some (Inr (k, m1)) \<and>
      pstate m0 c (settle (unat a) (unat n) c S) m1"
    using mp m by (simp add: mb_defs pstate_def)
qed

section \<open>Footprints\<close>

primrec writes_within :: "nat set \<Rightarrow> 'a prog \<Rightarrow> bool" where
  "writes_within B (Ret x) \<longleftrightarrow> True"
| "writes_within B (Fail e) \<longleftrightarrow> True"
| "writes_within B (Read a n k) \<longleftrightarrow> (\<forall>v. writes_within B (k v))"
| "writes_within B (Write a bs k) \<longleftrightarrow> {unat a..<unat a + length bs} \<subseteq> B \<and> writes_within B k"
| "writes_within B (LoadU64 a ord k) \<longleftrightarrow> (\<forall>v. writes_within B (k v))"
| "writes_within B (StoreU64 a v ord k) \<longleftrightarrow> {unat a..<unat a + 8} \<subseteq> B \<and> writes_within B k"
| "writes_within B (FetchAddU64 a d ord k) \<longleftrightarrow>
     {unat a..<unat a + 8} \<subseteq> B \<and> (\<forall>v. writes_within B (k v))"
| "writes_within B (CompareExchangeU64 a x d o1 o2 k) \<longleftrightarrow>
     {unat a..<unat a + 8} \<subseteq> B \<and> (\<forall>v. writes_within B (k v))"
| "writes_within B (LoadU8 a ord k) \<longleftrightarrow> (\<forall>v. writes_within B (k v))"
| "writes_within B (StoreU8 a v ord k) \<longleftrightarrow> unat a \<in> B \<and> writes_within B k"
| "writes_within B (Flush a n k) \<longleftrightarrow> writes_within B k"

lemma writes_within_bind:
  "writes_within B p \<Longrightarrow> (\<And>x. writes_within B (f x)) \<Longrightarrow> writes_within B (prog_bind p f)"
  by (induction p) auto

lemma writes_within_mono: "writes_within B p \<Longrightarrow> B \<subseteq> B' \<Longrightarrow> writes_within B' p"
  by (induction p) auto

text \<open>Outside the footprint the cache stays, and the media holds the old byte or the cached one.\<close>

definition frame :: "nat set \<Rightarrow> mmap \<Rightarrow> mmap \<Rightarrow> bool" where
  "frame B m m' \<longleftrightarrow>
     mm_ptr m' = mm_ptr m \<and> mm_len m' = mm_len m \<and> mm_arch m' = mm_arch m \<and>
     (\<forall>x. x \<notin> B \<longrightarrow> cache m' x = cache m x \<and> (media m' x = media m x \<or> media m' x = cache m x))"

lemma frame_refl: "frame B m m"
  by (simp add: frame_def)

lemma frame_write_back: "frame B m m' \<Longrightarrow> frame B m (write_back l m')"
  by (auto simp: frame_def write_back_def)

lemma frame_flush:
  assumes "frame B m m'" "mapped m" "unat a + unat n \<le> unat (mm_len m)"
  shows "frame B m (flush_range (mm_ptr m' + a) n m')"
proof -
  have "mapped m'" "unat a + unat n \<le> unat (mm_len m')"
    using assms by (simp_all add: frame_def mapped_def)
  then have "media (flush_range (mm_ptr m' + a) n m') x \<in> {cache m' x, media m' x}" for x
    by (rule media_flush_either)
  with assms(1) show ?thesis
    by (simp add: frame_def) metis
qed

lemma frame_cache: "frame B m m' \<Longrightarrow> (\<And>x. x \<notin> B \<Longrightarrow> c x = cache m' x) \<Longrightarrow> frame B m (m'\<lparr>cache := c\<rparr>)"
  by (auto simp: frame_def)

lemma step_frame:
  assumes "step p m' = Some (Inr (p'', m''))" "writes_within B p" "frame B m m'" "mapped m"
  shows "writes_within B p'' \<and> frame B m m''"
proof (cases p)
  case (Flush a n k)
  with assms have "mm_len m' = mm_len m" by (simp add: frame_def)
  with Flush assms show ?thesis
    by (auto simp: mb_defs split: if_splits intro!: frame_flush)
qed (use assms in \<open>auto simp: mb_defs Let_def split: if_splits option.splits sum.splits
      intro!: frame_cache simp: put64_def poke_def\<close>)

lemma crash_reach_frame:
  "crash_reach p m p' m' \<Longrightarrow> writes_within B p \<Longrightarrow> mapped m \<Longrightarrow> writes_within B p' \<and> frame B m m'"
proof (induction rule: crash_reach.induct)
  case (cr_refl p m)
  then show ?case by (simp add: frame_refl)
next
  case (cr_step p m p' m' p'' m'')
  then show ?case using step_frame by blast
next
  case (cr_evict p m p' m' l)
  then show ?case by (simp add: frame_write_back)
qed

lemma frame_trans: "frame B m m' \<Longrightarrow> frame B m' m'' \<Longrightarrow> frame B m m''"
  by (simp add: frame_def) metis

text \<open>The regions reachable from one in \<open>P\<close> by stores within \<open>B\<close>.\<close>

definition framed :: "nat set \<Rightarrow> (mmap \<Rightarrow> bool) \<Rightarrow> mmap \<Rightarrow> bool" where
  "framed B P m' \<longleftrightarrow> (\<exists>m. P m \<and> mapped m \<and> frame B m m')"

lemma framedI: "P m \<Longrightarrow> mapped m \<Longrightarrow> framed B P m"
  unfolding framed_def using frame_refl by blast

lemma framed_evict_closed: "evict_closed (framed B P)"
  by (auto simp: evict_closed_def framed_def intro: frame_write_back)

lemma crash_spec_framed:
  assumes "writes_within B p"
  shows "crash_spec (framed B P) p (\<lambda>_. framed B P) (framed B P)"
proof (rule crash_specI)
  fix m p' m' assume "framed B P m" "crash_reach p m p' m'"
  then obtain m1 where m1: "P m1" "mapped m1" "frame B m1 m" by (auto simp: framed_def)
  then have "mapped m" by (simp add: frame_def mapped_def)
  with \<open>crash_reach p m p' m'\<close> assms have "frame B m m'" using crash_reach_frame by blast
  with m1 have "framed B P m'" unfolding framed_def using frame_trans by blast
  then show "framed B P m' \<and> (\<forall>x. p' = Ret x \<longrightarrow> framed B P m')" by simp
qed

lemma crash_spec_framed_conseq:
  assumes "writes_within B p" "\<And>m. framed B P m \<Longrightarrow> C m"
  shows "crash_spec (framed B P) p (\<lambda>_. framed B P) C"
  by (rule crash_spec_conseq [OF crash_spec_framed [OF assms(1)] _ _ assms(2)])

section \<open>Uninterrupted executions as sequences of steps\<close>

inductive steps :: "'a prog \<Rightarrow> mmap \<Rightarrow> 'a prog \<Rightarrow> mmap \<Rightarrow> bool" where
  st_refl: "steps p m p m"
| st_step: "step p m = Some (Inr (p1, m1)) \<Longrightarrow> steps p1 m1 p' m' \<Longrightarrow> steps p m p' m'"

lemma steps_call:
  "mb_read m a n = Inr v \<Longrightarrow> steps (kr v) m q m' \<Longrightarrow> steps (Read a n kr) m q m'"
  "mb_write m a bs = Inr m1 \<Longrightarrow> steps k m1 q m' \<Longrightarrow> steps (Write a bs k) m q m'"
  "mb_load_u64 m a ord = Inr w \<Longrightarrow> steps (k64 w) m q m' \<Longrightarrow> steps (LoadU64 a ord k64) m q m'"
  "mb_store_u64 m a w ord = Inr m1 \<Longrightarrow> steps k m1 q m' \<Longrightarrow> steps (StoreU64 a w ord k) m q m'"
  "mb_fetch_add_u64 m a d ord = Inr vm \<Longrightarrow> steps (k64 (fst vm)) (snd vm) q m' \<Longrightarrow>
   steps (FetchAddU64 a d ord k64) m q m'"
  "mb_compare_exchange_u64 m a w d o1 o2 = Inr rm \<Longrightarrow> steps (kc (fst rm)) (snd rm) q m' \<Longrightarrow>
   steps (CompareExchangeU64 a w d o1 o2 kc) m q m'"
  "mb_load_u8 m a ord = Inr b \<Longrightarrow> steps (k8 b) m q m' \<Longrightarrow> steps (LoadU8 a ord k8) m q m'"
  "mb_store_u8 m a b ord = Inr m1 \<Longrightarrow> steps k m1 q m' \<Longrightarrow> steps (StoreU8 a b ord k) m q m'"
  "mb_flush m a w = Inr m1 \<Longrightarrow> steps k m1 q m' \<Longrightarrow> steps (Flush a w k) m q m'"
  by (rule st_step; (simp add: case_prod_beta)?; assumption?)+

lemma run_steps: "run p m = Inr (x, m') \<Longrightarrow> steps p m (Ret x) m'"
  by (induction p arbitrary: m)
    (auto simp: run.simps intro: st_refl steps_call split: sum.splits)

lemma steps_crash_reach: "steps p m p' m' \<Longrightarrow> crash_reach p m p' m'"
proof (induction rule: steps.induct)
  case (st_step p m p1 m1 p' m')
  then show ?case
    using crash_reach_trans crash_reach.cr_step [OF crash_reach.cr_refl] by blast
qed (rule cr_refl)

lemma run_crash_reach: "run p m = Inr (x, m') \<Longrightarrow> crash_reach p m (Ret x) m'"
  by (intro steps_crash_reach run_steps)

end
