(* ===== verification/Crash.thy ===== *)
theory Crash
  imports LogInv CrashLogic
begin

text \<open>
  Crashes during the runtime's operations: which bytes an operation can have touched at any
  interruption point, and what the media holds when power is lost during or after an append.
\<close>

section \<open>Footprints of the operations\<close>

abbreviation tail_bytes :: "nat set" where "tail_bytes \<equiv> {32..<40}"
abbreviation reserve_bytes :: "nat set" where "reserve_bytes \<equiv> {40..<48}"

definition metrics_bytes :: "pool_geometry \<Rightarrow> u16 \<Rightarrow> nat set" where
  "metrics_bytes g h = {met_base g (unat h)..<met_base g (unat h) + 56}"

definition state_bytes :: "pool_geometry \<Rightarrow> nat set" where
  "state_bytes g = rec_base g ` {..<2 ^ 32}"

lemma state_bytesI [intro]: "rec_base g (unat (s :: u32)) \<in> state_bytes g"
  by (simp add: state_bytes_def image_def) (use unat_u32_lt in blast)

lemma scan_committed_reads_only [simp]: "writes_within B (scan_committed g t)"
proof (induction g t rule: scan_committed.induct)
  case (1 g t)
  then show ?case by (subst scan_committed.simps) (simp add: Let_def)
qed

lemma advance_footprint: "tail_bytes \<subseteq> B \<Longrightarrow> writes_within B (advance_committed_tail g)"
proof -
  assume B: "tail_bytes \<subseteq> B"
  have "writes_within B (advance_loop n g)" for n
    by (induction n) (use B in \<open>auto simp del: scan_committed.simps
        intro!: writes_within_bind split: sum.split\<close>)
  then show ?thesis unfolding advance_committed_tail_def .
qed

lemma metric_word_within: "unat c \<le> 48 \<Longrightarrow> metrics_bytes g h \<subseteq> B \<Longrightarrow>
    {unat (metrics_offset g h + c)..<unat (metrics_offset g h + c) + 8} \<subseteq> B"
  by (subst unat_metrics_offset_plus, simp, subst unat_metrics_offset_plus, simp)
    (auto simp: metrics_bytes_def)

lemma increments_footprint:
  assumes "metrics_bytes g h \<subseteq> B"
  shows "writes_within B (increment_appends g h)" "writes_within B (increment_appends_failed g h)"
    "writes_within B (increment_bytes_written g h n)" "writes_within B (increment_reads g h)"
    "writes_within B (increment_checksum_failures g h)" "writes_within B (increment_recovery_runs g h)"
    "writes_within B (increment_abandoned_found g h n)"
  unfolding increment_appends_def increment_appends_failed_def increment_bytes_written_def
    increment_reads_def increment_checksum_failures_def increment_recovery_runs_def
    increment_abandoned_found_def Let_def writes_within.simps metrics_consts
  by (intro conjI metric_word_within [OF _ assms] allI TrueI; simp)+

lemma read_footprint:
  "metrics_bytes (rt_geometry rt) (rt_host_id rt) \<subseteq> B \<Longrightarrow> writes_within B (read H rt index)"
  unfolding read_def Let_def committed_tail_def
  by (auto simp: read_payload_def intro!: writes_within_bind increments_footprint)

lemma trim_footprint:
  assumes "state_bytes g \<subseteq> B"
  shows "writes_within B (trim g up_to)"
proof -
  have "writes_within B (trim_scan g ss cnt)" for ss cnt
    by (induction ss arbitrary: cnt)
      (use assms in \<open>auto simp: Let_def unat_record_offset\<close>)
  then show ?thesis
    by (auto simp: trim_def intro!: writes_within_bind)
qed

lemma recover_footprint:
  assumes "state_bytes g \<subseteq> B" "tail_bytes \<subseteq> B"
  shows "writes_within B (recover H g)"
proof -
  have slot: "writes_within B (recover_slot H g s cnt)" for s cnt
    unfolding recover_slot_def Let_def using assms(1)
    by (auto simp: read_payload_def unat_record_offset)
  have "writes_within B (recover_scan H g ss cnt)" for ss cnt
    by (induction ss arbitrary: cnt) (auto intro!: writes_within_bind slot)
  then show ?thesis
    unfolding recover_def Let_def
    by (auto intro!: writes_within_bind advance_footprint assms(2))
qed

section \<open>A crash during append\<close>

text \<open>The media values possible before, and after, the flush of the record.\<close>

definition before_flush :: "pool_geometry \<Rightarrow> mmap \<Rightarrow> nat \<Rightarrow> nat \<Rightarrow> u8 set" where
  "before_flush g m0 s x =
     (if x = rec_base g s then - {STATE_COMMITTED}
      else if x \<in> rec_region g s \<union> reserve_bytes then UNIV
      else {media m0 x, cache m0 x})"

definition after_commit :: "pool_geometry \<Rightarrow> mmap \<Rightarrow> nat \<Rightarrow> bytes \<Rightarrow> nat \<Rightarrow> u8 set" where
  "after_commit g m0 s w x =
     (if x = rec_base g s then {STATE_WRITING, STATE_COMMITTED}
      else if x \<in> rec_region g s then {w x}
      else if x \<in> reserve_bytes then UNIV
      else {media m0 x, cache m0 x})"

text \<open>
  What must hold of the media at every point: outside the record, the reservation counter
  and \<open>B\<close> a byte is the old one or the cached one, and the record is not marked committed
  unless it is complete.
\<close>

definition crash_safe ::
    "'h hasher \<Rightarrow> pool_geometry \<Rightarrow> nat set \<Rightarrow> mmap \<Rightarrow> nat \<Rightarrow> log_record \<Rightarrow> mmap \<Rightarrow> bool" where
  "crash_safe H g B m0 s e m \<longleftrightarrow>
     (\<forall>x. x \<notin> rec_region g s \<union> reserve_bytes \<union> B \<longrightarrow> media m x = media m0 x \<or> media m x = cache m0 x) \<and>
     (committed_state (slot_view H g (media m) s) \<longrightarrow> slot_view H g (media m) s = SCommitted e)"

lemma crash_safe_before:
  assumes "geom_ok g" "\<And>x. media m x \<in> before_flush g m0 s x"
  shows "crash_safe H g B m0 s e m"
proof -
  have r: "rec_base g s \<in> rec_region g s"
    using geom_okD(4) [OF assms(1)] by (simp add: rec_region_def)
  have "media m (rec_base g s) \<noteq> STATE_COMMITTED"
    using assms(2) [of "rec_base g s"] by (simp add: before_flush_def)
  moreover have "media m x = media m0 x \<or> media m x = cache m0 x"
    if "x \<notin> rec_region g s \<union> reserve_bytes \<union> B" for x
    using that r assms(2) [of x] by (auto simp: before_flush_def split: if_splits)
  ultimately show ?thesis by (auto simp: crash_safe_def)
qed

lemma crash_safe_after:
  assumes "geom_ok g" "length data \<le> psz g" "\<And>x. media m x \<in> after_commit g m0 s w x"
    and w: "w = written H host term data slot (rec_base g s) c"
    and e: "e = \<lparr>r_index = slot + 1, r_term = term, r_writer_id = ucast host, r_data = data\<rparr>"
  shows "crash_safe H g B m0 s e m"
proof -
  have rs: "rsz g = 64 + psz g" using assms(1) by (rule geom_okD)
  have r: "rec_base g s \<in> rec_region g s" by (simp add: rec_region_def rs)
  have "slot_view H g (media m) s = SCommitted e" if "media m (rec_base g s) = STATE_COMMITTED"
  proof -
    have "media m x = (w(rec_base g s := STATE_COMMITTED)) x"
      if "rec_base g s \<le> x" "x < rec_base g s + rsz g" for x
      using that assms(3) [of x] \<open>media m (rec_base g s) = _\<close>
      by (auto simp: after_commit_def rec_region_def split: if_splits)
    then have "slot_view H g (media m) s = slot_view H g (w(rec_base g s := STATE_COMMITTED)) s"
      by (rule slot_view_cong [OF rs])
    then show ?thesis unfolding w e using assms(2) by (simp add: slot_view_written)
  qed
  moreover have "media m x = media m0 x \<or> media m x = cache m0 x"
    if "x \<notin> rec_region g s \<union> reserve_bytes \<union> B" for x
    using that r assms(3) [of x] by (auto simp: after_commit_def split: if_splits)
  ultimately show ?thesis by (auto simp: crash_safe_def)
qed

text \<open>An interruption point after the record was committed and flushed.\<close>

definition durable ::
    "'h hasher \<Rightarrow> pool_geometry \<Rightarrow> nat set \<Rightarrow> mmap \<Rightarrow> nat \<Rightarrow> log_record \<Rightarrow> mmap \<Rightarrow> bool" where
  "durable H g B m0 s e m \<longleftrightarrow>
     slot_view H g (media m) s = SCommitted e \<and> crash_safe H g B m0 s e m \<and>
     (\<forall>x\<in>rec_region g s. media m x = cache m x)"

lemma durable_framed:
  assumes "geom_ok g" "length data \<le> psz g" "rec_region g s \<inter> B = {}"
    and w: "w = written H host term data slot (rec_base g s) c"
    and e: "e = \<lparr>r_index = slot + 1, r_term = term, r_writer_id = ucast host, r_data = data\<rparr>"
    and off: "agree_off (rec_region g s \<union> reserve_bytes) (cache m0) w"
    and fr: "framed B (pstate m0 (w(rec_base g s := STATE_COMMITTED))
        (settle (rec_base g s) 64 (w(rec_base g s := STATE_COMMITTED)) (after_commit g m0 s w))) m"
  shows "durable H g B m0 s e m"
proof -
  let ?w = "w(rec_base g s := STATE_COMMITTED)"
  have rs: "rsz g = 64 + psz g" using assms(1) by (rule geom_okD)
  have r: "rec_base g s \<in> rec_region g s" by (simp add: rec_region_def rs)
  from fr obtain m1 where m1: "cache m1 = ?w" "frame B m1 m"
    "\<And>x. media m1 x \<in> settle (rec_base g s) 64 ?w (after_commit g m0 s w) x"
    by (auto simp: framed_def pstate_def)
  have in_rec: "media m x = ?w x" if "rec_base g s \<le> x" "x < rec_base g s + rsz g" for x
  proof -
    have "x \<notin> B" using that assms(3) by (auto simp: rec_region_def)
    with m1(2) have "media m x = media m1 x \<or> media m x = ?w x"
      by (auto simp: frame_def m1(1))
    moreover have "media m1 x = ?w x"
      using that m1(3) [of x] by (auto simp: settle_def after_commit_def rec_region_def split: if_splits)
    ultimately show ?thesis by auto
  qed
  then have "slot_view H g (media m) s = slot_view H g ?w s"
    by (rule slot_view_cong [OF rs])
  then have view: "slot_view H g (media m) s = SCommitted e"
    unfolding w e using assms(2) by (simp add: slot_view_written)
  have "media m x = media m0 x \<or> media m x = cache m0 x"
    if x: "x \<notin> rec_region g s \<union> reserve_bytes \<union> B" for x
  proof -
    have "?w x = cache m0 x" using x off r by (auto simp: agree_off_def)
    moreover have "x < rec_base g s \<or> rec_base g s + 64 \<le> x"
      using x rs by (auto simp: rec_region_def)
    ultimately show ?thesis
      using x m1(2) m1(3) [of x] r
      by (auto simp: frame_def m1(1) settle_def after_commit_def split: if_splits)
  qed
  moreover have "media m x = cache m x" if "x \<in> rec_region g s" for x
  proof -
    have "x \<notin> B" using that assms(3) by blast
    then have "cache m x = ?w x" using m1(2) by (simp add: frame_def m1(1))
    with in_rec [of x] that show ?thesis by (simp add: rec_region_def)
  qed
  ultimately show ?thesis using view by (simp add: durable_def crash_safe_def)
qed

text \<open>
  The chain of steps 3 to 7: every store before the flush stays inside the record and
  leaves the state byte uncommitted.
\<close>

lemma before_flush_UNIV:
  "x \<in> rec_region g s \<union> reserve_bytes \<Longrightarrow> x \<noteq> rec_base g s \<Longrightarrow> before_flush g m0 s x = UNIV"
  by (simp add: before_flush_def)

lemma admits_written:
  assumes "geom_ok g" "length data \<le> psz g" "admits (before_flush g m0 s) c"
  shows "admits (before_flush g m0 s) (written H host term data slot (rec_base g s) c)"
  unfolding written_def write_meta_def Let_def using assms
  by (intro admits_put64 admits_poke admits_upd)
    (auto simp: before_flush_UNIV region_geom before_flush_def)

lemma settle_after_commit:
  assumes "geom_ok g" "w (rec_base g s) = STATE_WRITING"
  shows "settle (rec_base g s) (rsz g) w (before_flush g m0 s) x \<subseteq> after_commit g m0 s w x"
  using assms geom_okD(4) [OF assms(1)]
  by (auto simp: settle_def after_commit_def before_flush_def rec_region_def)

lemma crash_rest:
  assumes "geom_ok g" "length data \<le> psz g" "rec_region g s \<inter> B = {}"
    and "w = written H host term data slot (rec_base g s) c"
    and "e = \<lparr>r_index = slot + 1, r_term = term, r_writer_id = ucast host, r_data = data\<rparr>"
    and "agree_off (rec_region g s \<union> reserve_bytes) (cache m0) w"
    and "tail_bytes \<subseteq> B" "metrics_bytes g host \<subseteq> B" "mapped m0"
    and "wc = w(rec_base g s := STATE_COMMITTED)"
  shows "crash_spec (pstate m0 wc (settle (rec_base g s) 64 wc (after_commit g m0 s w)))
     (prog_bind (advance_committed_tail g) (\<lambda>_.
      prog_bind (increment_appends g host) (\<lambda>_.
      prog_bind (increment_bytes_written g host n) (\<lambda>_. Ret (Inr (slot + 1) :: fence_error + u64)))))
     (\<lambda>r m. r = Inr (slot + 1) \<and> durable H g B m0 s e m) (crash_safe H g B m0 s e)"
proof -
  let ?P = "pstate m0 wc (settle (rec_base g s) 64 wc (after_commit g m0 s w))"
  have dur: "durable H g B m0 s e m" if "framed B ?P m" for m
    using durable_framed [OF assms(1-6)] that assms(10) by blast
  have safe: "crash_safe H g B m0 s e m" if "framed B ?P m" for m
    using dur [OF that] by (simp add: durable_def)
  have ret: "crash_spec (framed B ?P) (Ret (Inr (slot + 1) :: fence_error + u64))
      (\<lambda>r m. r = Inr (slot + 1) \<and> durable H g B m0 s e m) (crash_safe H g B m0 s e)"
    by (rule crash_spec_Ret [OF framed_evict_closed]) (use dur in \<open>auto simp: durable_def\<close>)
  have "crash_spec (framed B ?P)
     (prog_bind (advance_committed_tail g) (\<lambda>_.
      prog_bind (increment_appends g host) (\<lambda>_.
      prog_bind (increment_bytes_written g host n) (\<lambda>_. Ret (Inr (slot + 1) :: fence_error + u64)))))
     (\<lambda>r m. r = Inr (slot + 1) \<and> durable H g B m0 s e m) (crash_safe H g B m0 s e)"
    by (intro crash_spec_bind [OF crash_spec_framed_conseq] ret safe advance_footprint
        increments_footprint assms(7,8))
  moreover have "framed B ?P m" if "?P m" for m
    using that assms(9) by (auto intro!: framedI simp: pstate_def mapped_def)
  ultimately show ?thesis by (rule crash_spec_pre)
qed

lemma crash_append_record:
  assumes "pool g m0" "mm_arch m0 = X86_64" "rt_geometry rt = g" "unat slot < cap g"
    and "length data \<le> psz g" "rec_region g (unat slot) \<inter> B = {}"
    and "tail_bytes \<subseteq> B" "metrics_bytes g (rt_host_id rt) \<subseteq> B"
    and adm: "admits (before_flush g m0 (unat slot)) c"
    and off: "agree_off (rec_region g (unat slot) \<union> reserve_bytes) (cache m0) c"
    and e: "e = \<lparr>r_index = slot + 1, r_term = term, r_writer_id = ucast (rt_host_id rt), r_data = data\<rparr>"
  shows "crash_spec (pstate m0 c (before_flush g m0 (unat slot))) (append_record H rt term data slot)
     (\<lambda>r m. r = Inr (slot + 1) \<and> durable H g B m0 (unat slot) e m)
     (crash_safe H g B m0 (unat slot) e)"
proof -
  let ?h = "rt_host_id rt" and ?s = "unat slot"
  let ?b = "rec_base g ?s" and ?S = "before_flush g m0 ?s"
  let ?w = "written H ?h term data slot ?b c"
  let ?wc = "?w(?b := STATE_COMMITTED)"
  note ok = poolD(1) [OF assms(1)] and rs = geom_okD(4) [OF poolD(1) [OF assms(1)]]
  note len = pool_slot_bounds [OF assms(1,4)]
  have sl: "unat (ucast slot :: u32) = ?s" by (rule slot_arith(1) [OF assms(1,4)])
  have addr: "unat (record_offset g (ucast slot)) = ?b"
    "unat k < 4294967296 \<Longrightarrow> unat (record_offset g (ucast slot) + k) = ?b + unat k" for k
    by (simp_all add: unat_record_offset unat_record_offset_plus sl)
  have al: "(?b + k) mod 8 = 0" if "k mod 8 = 0" for k
    using len(2) that by presburger
  have safe: "crash_safe H g B m0 ?s e m" if "pstate m0 c' ?S m" for c' m
    using that by (intro crash_safe_before [OF ok]) (simp add: pstate_def)
  have fl: "crash_safe H g B m0 ?s e m"
    if "pstate m0 c' S m" "\<And>x. S x \<subseteq> after_commit g m0 ?s ?w x" for c' S m
    using that by (intro crash_safe_after [OF ok assms(5) _ refl e]) (auto simp: pstate_def)
  have w0: "?w ?b = STATE_WRITING"
    by (simp add: written_def write_meta_def Let_def field_simps_mem)
  have agw: "agree_off (rec_region g ?s \<union> reserve_bytes) (cache m0) ?w"
    using off written_agree [OF ok assms(5), of ?s c H ?h "term" slot] by (auto simp: agree_off_def)
  have admw: "admits ?S ?w" by (rule admits_written [OF ok assms(5) adm])
  have sub: "settle ?b (rsz g) ?w ?S x \<subseteq> after_commit g m0 ?s ?w x" for x
    using settle_after_commit [OF ok, where w = ?w and s = ?s] w0 by simp
  have adm_c: "admits (after_commit g m0 ?s ?w) ?wc"
    using admw agw by (auto simp: admits_def after_commit_def agree_off_def)
  have rest: "crash_spec (pstate m0 ?wc (settle ?b 64 ?wc (after_commit g m0 ?s ?w)))
     (prog_bind (advance_committed_tail g) (\<lambda>_.
      prog_bind (increment_appends g ?h) (\<lambda>_.
      prog_bind (increment_bytes_written g ?h (word_of_nat (length data))) (\<lambda>_.
      Ret (Inr (slot + 1) :: fence_error + u64)))))
     (\<lambda>r m. r = Inr (slot + 1) \<and> durable H g B m0 ?s e m) (crash_safe H g B m0 ?s e)"
    by (rule crash_rest [OF ok assms(5,6) refl e agw assms(7,8) poolD(4) [OF assms(1)] refl])
  have commit: "crash_spec (pstate m0 ?w (settle ?b (rsz g) ?w ?S))
     (StoreU8 (record_offset g (ucast slot)) STATE_COMMITTED Release (
      Flush (record_offset g (ucast slot)) CACHELINE (
      prog_bind (advance_committed_tail g) (\<lambda>_.
      prog_bind (increment_appends g ?h) (\<lambda>_.
      prog_bind (increment_bytes_written g ?h (word_of_nat (length data))) (\<lambda>_.
      Ret (Inr (slot + 1) :: fence_error + u64)))))))
     (\<lambda>r m. r = Inr (slot + 1) \<and> durable H g B m0 ?s e m) (crash_safe H g B m0 ?s e)"
    apply (rule cs_StoreU8 [OF admits_settle [OF admw] fl [OF _ sub]], assumption)
      apply (use len in \<open>simp add: addr\<close>, simp)
    apply (rule crash_spec_pre [where P = "pstate m0 ?wc (after_commit g m0 ?s ?w)"])
     apply (rule cs_Flush [OF adm_c fl], assumption, simp)
    using assms(1,2) len rest apply (simp_all add: addr poolD)
    using sub apply (simp add: pstate_mono)
    done
  let ?off = "record_offset g (ucast slot)"
  have st64: "crash_spec (pstate m0 c' ?S) (StoreU64 (?off + k) v Relaxed p) Q (crash_safe H g B m0 ?s e)"
    if "admits ?S c'" "unat k \<in> {8, 16, 24, 40}"
      "admits ?S (put64 c' (?b + unat k) v) \<Longrightarrow>
       crash_spec (pstate m0 (put64 c' (?b + unat k) v) ?S) p Q (crash_safe H g B m0 ?s e)"
    for c' k v and p :: "(fence_error + u64) prog" and Q
  proof -
    have "admits ?S (put64 c' (?b + unat k) v)"
      using that(1,2) rs by (intro admits_put64) (auto simp: before_flush_def rec_region_def)
    with that(3) have "crash_spec (pstate m0 (put64 c' (unat (?off + k)) v) ?S) p Q (crash_safe H g B m0 ?s e)"
      using that(2) by (subst addr) auto
    moreover have "unat (?off + k) + 8 \<le> unat (mm_len m0)" "unat (?off + k) mod 8 = 0"
      using that(2) len al by (auto simp: addr)
    ultimately show ?thesis
      by (intro cs_StoreU64 [OF that(1) safe]) simp_all
  qed
  have flush: "crash_spec (pstate m0 ?w ?S) (Flush ?off (ucast (g_record_size g))
     (StoreU8 ?off STATE_COMMITTED Release (
      Flush ?off CACHELINE (
      prog_bind (advance_committed_tail g) (\<lambda>_.
      prog_bind (increment_appends g ?h) (\<lambda>_.
      prog_bind (increment_bytes_written g ?h (word_of_nat (length data))) (\<lambda>_.
      Ret (Inr (slot + 1) :: fence_error + u64))))))))
     (\<lambda>r m. r = Inr (slot + 1) \<and> durable H g B m0 ?s e m) (crash_safe H g B m0 ?s e)"
    using assms(1,2) len commit by (intro cs_Flush [OF admw safe]) (simp_all add: addr poolD rs)
  have wr: "crash_spec (pstate m0 c' ?S) ((if bs \<noteq> [] then Write (?off + k) bs else id) p) Q
      (crash_safe H g B m0 ?s e)"
    if "admits ?S c'" "unat k \<in> {32, 64}" "unat k + length bs \<le> 64 + psz g"
      "admits ?S (poke c' (?b + unat k) bs) \<Longrightarrow>
       crash_spec (pstate m0 (poke c' (?b + unat k) bs) ?S) p Q (crash_safe H g B m0 ?s e)"
    for c' k bs and p :: "(fence_error + u64) prog" and Q
  proof -
    have "admits ?S (poke c' (?b + unat k) bs)"
      using that(1,2,3) rs by (intro admits_poke) (auto simp: before_flush_def rec_region_def)
    with that(4) have "crash_spec (pstate m0 (poke c' (unat (?off + k)) bs) ?S) p Q (crash_safe H g B m0 ?s e)"
      using that(2) by (subst addr) auto
    moreover have "unat (?off + k) + length bs \<le> unat (mm_len m0)"
      using that(2,3) len(1) by (auto simp: addr)
    ultimately show ?thesis
      by (intro cs_Write_nonempty [OF that(1) safe]) simp_all
  qed
  have st8: "crash_spec (pstate m0 c ?S) (StoreU8 ?off STATE_WRITING Relaxed p) Q (crash_safe H g B m0 ?s e)"
    if "admits ?S (c(?b := STATE_WRITING)) \<Longrightarrow>
      crash_spec (pstate m0 (c(?b := STATE_WRITING)) ?S) p Q (crash_safe H g B m0 ?s e)"
    for p :: "(fence_error + u64) prog" and Q
    using that len adm
    by (intro cs_StoreU8 [OF adm safe]) (simp_all add: addr admits_upd before_flush_def)
  have wr4: "crash_spec (pstate m0 c' ?S) (Write (?off + k) (le_bytes 4 v) p) Q (crash_safe H g B m0 ?s e)"
    if "admits ?S c'" "unat k = 32"
      "admits ?S (poke c' (?b + unat k) (le_bytes 4 v)) \<Longrightarrow>
       crash_spec (pstate m0 (poke c' (?b + unat k) (le_bytes 4 v)) ?S) p Q (crash_safe H g B m0 ?s e)"
    for c' k and v :: u32 and p :: "(fence_error + u64) prog" and Q
    using wr [of c' k "le_bytes 4 v" p Q] that by simp
  show ?thesis
    unfolding append_record_def Let_def assms(3) REC_STATE_def add_0_right
    apply (rule st8)
    apply (rule st64, assumption, simp)+
    apply (rule wr4, assumption, simp)
    apply (rule wr, assumption, simp, simp add: assms(5))
    apply (rule st64, assumption, simp)
    using flush by (simp add: written_def write_meta_def Let_def)
qed

text \<open>\<open>other_bytes\<close>: what an append may have touched besides the record and the reservation.\<close>

definition other_bytes :: "fence_runtime \<Rightarrow> nat set" where
  "other_bytes rt = tail_bytes \<union> metrics_bytes (rt_geometry rt) (rt_host_id rt)"

lemma rec_region_other: "s < cap (rt_geometry rt) \<Longrightarrow> rec_region (rt_geometry rt) s \<inter> other_bytes rt = {}"
  using rec_base_ge [of "rt_geometry rt" s] rec_end_le_met [of s "rt_geometry rt" "unat (rt_host_id rt)"]
  by (auto simp: rec_region_def other_bytes_def metrics_bytes_def)

definition new_record :: "u16 \<Rightarrow> u64 \<Rightarrow> u64 \<Rightarrow> u8 list \<Rightarrow> log_record" where
  "new_record host slot term data =
     \<lparr>r_index = slot + 1, r_term = term, r_writer_id = ucast host, r_data = data\<rparr>"

lemma crash_append:
  assumes "pool g m" "mm_arch m = X86_64" "rt_geometry rt = g" "length data \<le> psz g"
    and r: "r = get64 (cache m) 40" "unat r < cap g"
    and st: "cache m (rec_base g (unat r)) \<noteq> STATE_COMMITTED"
      "media m (rec_base g (unat r)) \<noteq> STATE_COMMITTED"
  shows "crash_spec ((=) m) (append H rt term data)
     (\<lambda>x m'. x = Inr (r + 1) \<and> durable H g (other_bytes rt) m (unat r) (new_record (rt_host_id rt) r term data) m')
     (crash_safe H g (other_bytes rt) m (unat r) (new_record (rt_host_id rt) r term data))"
proof -
  let ?S = "before_flush g m (unat r)" and ?B = "other_bytes rt"
  let ?c = "put64 (cache m) 40 (r + 1)"
  let ?e = "new_record (rt_host_id rt) r term data"
  note ok = poolD(1) [OF assms(1)]
  have B: "tail_bytes \<subseteq> ?B" "metrics_bytes g (rt_host_id rt) \<subseteq> ?B"
    using assms(3) by (auto simp: other_bytes_def)
  have adm: "admits ?S (cache m)"
    using st by (simp add: admits_def before_flush_def)
  have adm1: "admits ?S ?c"
    using rec_base_ge [of g "unat r"] by (intro admits_put64 [OF adm]) (simp add: before_flush_def)
  have off: "agree_off (rec_region g (unat r) \<union> reserve_bytes) (cache m) ?c"
    by (intro agree_off_put64 agree_off_refl) auto
  have rec: "crash_spec (pstate m ?c ?S) (append_record H rt term data r)
     (\<lambda>x m'. x = Inr (r + 1) \<and> durable H g ?B m (unat r) ?e m') (crash_safe H g ?B m (unat r) ?e)"
    by (rule crash_append_record [OF assms(1,2,3) r(2) assms(4) _ B adm1 off])
      (use rec_region_other [of "unat r" rt] assms(3) r(2) in \<open>simp_all add: new_record_def\<close>)
  have notfull: "\<not> ucast (g_capacity g) \<le> r"
    using r(2) by (simp add: not_le word_less_nat_alt)
  have "crash_spec (pstate m (cache m) ?S) (append H rt term data)
     (\<lambda>x m'. x = Inr (r + 1) \<and> durable H g ?B m (unat r) ?e m') (crash_safe H g ?B m (unat r) ?e)"
    using assms(4) notfull rec pool_header_bounds [OF assms(1)]
    unfolding append_def Let_def assms(3)
    by (simp, intro cs_FetchAddU64 [OF adm])
      (auto intro!: crash_safe_before [OF ok] simp: pstate_def r(1) [symmetric])
  moreover have "pstate m (cache m) ?S m"
    using st by (simp add: pstate_def before_flush_def)
  ultimately show ?thesis by (auto intro: crash_spec_pre)
qed

section \<open>Recovery from a crash image\<close>

lemma crash_simps [simp]:
  "cache (crash m) = media m" "media (crash m) = media m" "pool g (crash m) = pool g m"
  by (simp_all add: crash_def)

lemma crash_reach_pool:
  assumes "crash_reach p m p' m'" "pool g m"
  shows "pool g m'"
proof -
  have "writes_within UNIV p" by (induction p) auto
  from crash_reach_frame [OF assms(1) this poolD(4) [OF assms(2)]] assms(2) show ?thesis
    by (auto simp: frame_def pool_def mapped_def)
qed

text \<open>The slots other than the one being written are on the media what they were.\<close>

lemma crash_safe_others:
  assumes "geom_ok g" "crash_safe H g (other_bytes rt) m s e m'" "rt_geometry rt = g"
    and "t < cap g" "s < cap g" "t \<noteq> s"
    and "\<And>x. x \<in> rec_region g t \<Longrightarrow> media m x = cache m x"
  shows "slot_view H g (media m') t = slot_view H g (cache m) t"
proof (rule slot_view_cong [OF geom_okD(4) [OF assms(1)]])
  fix x assume "rec_base g t \<le> x" "x < rec_base g t + rsz g"
  then have x: "x \<in> rec_region g t" by (simp add: rec_region_def)
  have "x \<notin> rec_region g s" using rec_region_disjoint [OF assms(6)] x by blast
  moreover have "x \<notin> other_bytes rt" using rec_region_other [of t rt] assms(3,4) x by blast
  moreover have "x \<notin> reserve_bytes" using x rec_base_ge [of g t] by (auto simp: rec_region_def)
  ultimately show "media m' x = cache m x"
    using assms(2,7) x by (auto simp: crash_safe_def)
qed

lemma recovered_slot:
  assumes "pool g m'" "s < cap g"
  shows "\<exists>rep m2. run (recover H g) (crash m') = Inr (rep, m2) \<and> pool g m2 \<and>
    (\<forall>t<cap g. \<forall>e. slot_view H g (cache m2) t = SCommitted e \<longleftrightarrow> slot_view H g (media m') t = SCommitted e) \<and>
    (\<forall>t<cap g. t < unat (get64 (media m') 40) \<longrightarrow> \<not> broken (slot_view H g (cache m2) t))"
proof -
  let ?L = "abs_log H g (media m')" and ?n = "unat (scan_limit g (abs_log H g (media m')))"
  from sim_recover [of g "crash m'" H ?L] assms(1) obtain m2 where
    m2: "run (recover H g) (crash m') = Inr (fst (recover_spec g ?L), m2)" "pool g m2"
      "abs_log H g (cache m2) = repair g ?L"
    by (auto simp: sim_def recover_spec_def)
  have slot: "slot_view H g (cache m2) t =
      (if t < ?n then fix_slot (slot_view H g (media m') t) else slot_view H g (media m') t)"
    if "t < cap g" for t
    unfolding pool_slot_nth [OF m2(3) that, symmetric] using that
    by (simp add: repair_def advance_spec_def nth_sweep)
  have fix_committed: "fix_slot v = SCommitted e \<longleftrightarrow> v = SCommitted e" for v e
    by (cases v) (simp_all add: fix_slot_def)
  have fix_broken: "\<not> broken (fix_slot v)" for v
    by (cases v) (simp_all add: fix_slot_def)
  have "?n = min (unat (get64 (media m') 40)) (cap g)"
    by (simp add: scan_limit_def min_def word_le_nat_alt)
  then show ?thesis
    using m2(1,2) slot fix_committed fix_broken by auto
qed

section \<open>The header is never flushed\<close>

text \<open>Every flush of the program starts at or after byte \<open>lo\<close>.\<close>

primrec flushes_from :: "nat \<Rightarrow> 'a prog \<Rightarrow> bool" where
  "flushes_from lo (Ret x) \<longleftrightarrow> True"
| "flushes_from lo (Fail e) \<longleftrightarrow> True"
| "flushes_from lo (Read a n k) \<longleftrightarrow> (\<forall>v. flushes_from lo (k v))"
| "flushes_from lo (Write a bs k) \<longleftrightarrow> flushes_from lo k"
| "flushes_from lo (LoadU64 a ord k) \<longleftrightarrow> (\<forall>v. flushes_from lo (k v))"
| "flushes_from lo (StoreU64 a v ord k) \<longleftrightarrow> flushes_from lo k"
| "flushes_from lo (FetchAddU64 a d ord k) \<longleftrightarrow> (\<forall>v. flushes_from lo (k v))"
| "flushes_from lo (CompareExchangeU64 a x d o1 o2 k) \<longleftrightarrow> (\<forall>v. flushes_from lo (k v))"
| "flushes_from lo (LoadU8 a ord k) \<longleftrightarrow> (\<forall>v. flushes_from lo (k v))"
| "flushes_from lo (StoreU8 a v ord k) \<longleftrightarrow> flushes_from lo k"
| "flushes_from lo (Flush a n k) \<longleftrightarrow> lo \<le> unat a \<and> flushes_from lo k"

lemma flushes_from_bind:
  "flushes_from lo p \<Longrightarrow> (\<And>x. flushes_from lo (f x)) \<Longrightarrow> flushes_from lo (prog_bind p f)"
  by (induction p) auto

lemma media_below_flush:
  assumes "mapped m" "unat off + unat n \<le> unat (mm_len m)" "unat (mm_ptr m) mod 64 = 0"
    and "64 \<le> unat off" "x < 64"
  shows "media (flush_range (mm_ptr m + off) n m) x = media m x"
proof (cases "mm_arch m = X86_64 \<and> n \<noteq> 0")
  case True
  obtain k where k: "unat (mm_ptr m) = 64 * k"
    using assms(3) by (metis mult_div_mod_eq add_0_right)
  have "line_of m x = k" using assms(5) by (simp add: line_of_def k)
  moreover have "k + 1 \<le> line_of m (unat off)"
    using div_le_mono [OF assms(4), of 64] by (simp add: line_of_def k)
  ultimately show ?thesis using True assms(1,2) by (simp add: media_flush_range)
qed (use flush_range_noop in auto)

definition line_aligned :: "mmap \<Rightarrow> bool" where
  "line_aligned m \<longleftrightarrow> mapped m \<and> unat (mm_ptr m) mod 64 = 0"

lemma step_header_media:
  assumes "step p m = Some (Inr (p', m'))" "flushes_from 64 p" "line_aligned m" "a < 64"
  shows "flushes_from 64 p' \<and> media m' a = media m a \<and> line_aligned m'"
proof (cases p)
  case (Flush off n k)
  with assms have "media (flush_range (mm_ptr m + off) n m) a = media m a"
    by (intro media_below_flush) (auto simp: line_aligned_def mb_defs split: if_splits)
  with Flush assms show ?thesis
    by (auto simp: mb_defs line_aligned_def mapped_def split: if_splits)
qed (use assms in \<open>auto simp: mb_defs Let_def line_aligned_def mapped_def
      split: if_splits option.splits sum.splits\<close>)

lemma run_header_media:
  assumes "run p m = Inr (x, m')" "flushes_from 64 p" "line_aligned m" "a < 64"
  shows "media m' a = media m a \<and> line_aligned m'"
proof -
  have "steps p m (Ret x) m'" using assms(1) by (rule run_steps)
  then show ?thesis
    using assms(2,3)
  proof (induction p m "Ret x :: 'a prog" m' rule: steps.induct)
    case (st_step p m p1 m1 m')
    with step_header_media [OF st_step.hyps(1) _ _ assms(4)] show ?case by simp
  qed simp
qed

lemma advance_flushes: "flushes_from lo (advance_committed_tail g)"
proof -
  have scan: "flushes_from lo (scan_committed g t)" for t
  proof (induction g t rule: scan_committed.induct)
    case (1 g t)
    then show ?case by (subst scan_committed.simps) (simp add: Let_def)
  qed
  have "flushes_from lo (advance_loop n g)" for n
    by (induction n) (auto intro!: flushes_from_bind scan split: sum.split)
  then show ?thesis unfolding advance_committed_tail_def .
qed

lemma increments_flushes:
  "flushes_from lo (increment_appends g h)" "flushes_from lo (increment_appends_failed g h)"
  "flushes_from lo (increment_bytes_written g h n)"
  by (simp_all add: increment_appends_def increment_appends_failed_def increment_bytes_written_def Let_def)

lemma append_flushes: "flushes_from 64 (append H rt term data)"
proof -
  have "flushes_from 64 (append_record H rt term data slot)" for slot
    unfolding append_record_def Let_def
    by (auto simp: unat_record_offset rec_base_ge
        intro!: flushes_from_bind advance_flushes increments_flushes)
  then show ?thesis
    unfolding append_def Let_def by (auto intro!: flushes_from_bind increments_flushes)
qed

text \<open>So after an append the media still holds the old reservation counter.\<close>

lemma stale_reserve:
  assumes "run (append H rt term data) m = Inr (x, m1)" "line_aligned m" "media m = cache m" "a + 8 \<le> 64"
  shows "get64 (media m1) a = get64 (cache m) a"
  using run_header_media [OF assms(1) append_flushes assms(2)] assms(3,4)
  by (intro get64_cong) auto

section \<open>An acknowledged record can be overwritten\<close>

lemma runtime_recover_spec_sel:
  "l_slots (snd (runtime_recover_spec g h L)) = sweep fix_slot (unat (scan_limit g L)) (l_slots L)"
  "l_reserve (snd (runtime_recover_spec g h L)) = l_reserve L"
  by (simp_all add: runtime_recover_spec_def recover_spec_def repair_def advance_spec_def Let_def)

lemma append_spec_ok:
  assumes "length data \<le> psz g" "unat (l_reserve L) < length (l_slots L)"
  shows "fst (append_spec g h term data L) = Inr (l_reserve L + 1)"
    and "l_slots (snd (append_spec g h term data L)) =
      (l_slots L)[unat (l_reserve L) := SCommitted (new_record h (l_reserve L) term data)]"
    and "l_reserve (snd (append_spec g h term data L)) = l_reserve L + 1"
    and "l_tail (snd (append_spec g h term data L)) =
      tail_spec (L\<lparr>l_slots := (l_slots L)[unat (l_reserve L) := SCommitted (new_record h (l_reserve L) term data)]\<rparr>)"
  using assms by (auto simp: append_spec_def Let_def advance_spec_def new_record_def tail_spec_def)

lemma overwritten_after_crash:
  assumes "pool g m" "line_aligned m" "mm_arch m = X86_64" "media m = cache m"
    and "rt_geometry rt = g" "unat (rt_host_id rt) < hosts g"
    and r: "r = get64 (cache m) 40" "unat r < cap g"
    and st: "cache m (rec_base g (unat r)) \<noteq> STATE_COMMITTED"
    and len: "length d1 \<le> psz g" "length d2 \<le> psz g"
  shows "\<exists>m1 rep m2 m3.
     run (append H rt t1 d1) m = Inr (Inr (r + 1), m1) \<and>
     run (runtime_recover H rt) (crash m1) = Inr (rep, m2) \<and>
     slot_view H g (cache m2) (unat r) = SCommitted (new_record (rt_host_id rt) r t1 d1) \<and>
     run (append H rt t2 d2) m2 = Inr (Inr (r + 1), m3) \<and>
     slot_view H g (cache m3) (unat r) = SCommitted (new_record (rt_host_id rt) r t2 d2)"
proof -
  let ?h = "rt_host_id rt"
  let ?L = "abs_log H g (cache m)"
  have L: "length (l_slots ?L) = cap g" "l_reserve ?L = r" by (simp_all add: r)
  obtain m1 where m1: "run (append H rt t1 d1) m = Inr (Inr (r + 1), m1)" "pool g m1"
    using sim_append [OF assms(1,5,6), of H t1 d1] append_spec_ok(1) [of d1 g ?L] len(1) r L
    by (auto simp: sim_def)
  have dur: "slot_view H g (media m1) (unat r) = SCommitted (new_record ?h r t1 d1)"
    using crash_specD(2) [OF crash_append [OF assms(1,3,5) len(1) r st] refl run_crash_reach [OF m1(1)]]
      st assms(4) by (simp add: durable_def)
  let ?L1 = "abs_log H g (media m1)"
  have res1: "l_reserve ?L1 = r"
    using stale_reserve [OF m1(1) assms(2,4)] by (simp add: r)
  obtain rep m2 where m2: "run (runtime_recover H rt) (crash m1) = Inr (rep, m2)" "pool g m2"
    "abs_log H g (cache m2) = snd (runtime_recover_spec g ?h ?L1)"
    using sim_runtime_recover [of g "crash m1" rt H ?L1] m1(2) assms(5,6) by (auto simp: sim_def)
  let ?L2 = "abs_log H g (cache m2)"
  have L2: "length (l_slots ?L2) = cap g" "l_reserve ?L2 = r"
    by (simp, unfold m2(3) runtime_recover_spec_sel, rule res1)
  have "l_slots ?L2 ! unat r = SCommitted (new_record ?h r t1 d1)"
    unfolding m2(3) runtime_recover_spec_sel using r(2) dur by (simp add: nth_sweep fix_slot_def)
  then have v2: "slot_view H g (cache m2) (unat r) = SCommitted (new_record ?h r t1 d1)"
    using r(2) by simp
  have len2: "unat (l_reserve ?L2) < length (l_slots ?L2)" using L2 r(2) by metis
  obtain m3 where m3: "run (append H rt t2 d2) m2 = Inr (Inr (r + 1), m3)"
    "abs_log H g (cache m3) = snd (append_spec g ?h t2 d2 ?L2)"
    using sim_append [OF m2(2) assms(5,6), of H t2 d2] append_spec_ok(1) [OF len(2) len2] L2(2)
    by (auto simp: sim_def)
  have "l_slots (abs_log H g (cache m3)) ! unat r = SCommitted (new_record ?h r t2 d2)"
    unfolding m3(2) append_spec_ok(2) [OF len(2) len2] L2(2) using r(2) by simp
  then have "slot_view H g (cache m3) (unat r) = SCommitted (new_record ?h r t2 d2)"
    using r(2) by simp
  with m1 m2 m3 v2 show ?thesis by blast
qed

end
