(* ===== verification/Open.thy ===== *)
theory Open
  imports Crash
begin

text \<open>
  Opening a region: a created pool has fresh counters whatever the region held, a pool that
  is not created must carry the magic number.
\<close>

lemma slot_view_put_header:
  assumes "geom_ok g" "a + 8 \<le> 64" "a + 8 \<le> 32 \<or> 48 \<le> a"
  shows "abs_log H g (put64 c a v) = abs_log H g c"
proof -
  have "get64 (put64 c a v) 40 = get64 c 40" "get64 (put64 c a v) 32 = get64 c 32"
    using assms(3) by (intro get64_put64_disjoint; linarith)+
  with assms(1,2) show ?thesis
    by (simp add: abs_log_def slot_view_header get64_metrics_header fun_eq_iff cong: map_cong)
qed

definition fresh_header :: "pool_config \<Rightarrow> pool_geometry \<Rightarrow> bytes \<Rightarrow> bytes" where
  "fresh_header config g c =
     put64 (put64 (put64 (put64 (put64 (put64 (put64 c 0 MAGIC) 8 (ucast (pc_capacity config)))
       16 (ucast (g_record_size g))) 24 (ucast (pc_max_hosts config))) 32 0) 40 0) 48 1"

lemma run_create:
  assumes "pool g m" "pc_create config"
  shows "run (open_region config g) m =
    Inr (Inr \<lparr>rt_geometry = g, rt_host_id = pc_host_id config\<rparr>,
         flushed (m\<lparr>cache := fresh_header config g (cache m)\<rparr>) 0 64)"
  using assms pool_header_bounds [OF assms(1)]
  by (simp add: open_region_def run_StoreU64 run_Flush fresh_header_def)

lemma abs_log_fresh:
  "geom_ok g \<Longrightarrow> abs_log H g (fresh_header config g c) = (abs_log H g c)\<lparr>l_tail := 0, l_reserve := 0\<rparr>"
  by (simp add: fresh_header_def slot_view_put_header abs_log_tail abs_log_reserve)

lemma fresh_header_fields:
  "get64 (fresh_header config g c) 0 = MAGIC"
  "get64 (fresh_header config g c) 8 = ucast (pc_capacity config)"
  "get64 (fresh_header config g c) 16 = ucast (g_record_size g)"
  "get64 (fresh_header config g c) 24 = ucast (pc_max_hosts config)"
  "get64 (fresh_header config g c) 32 = 0" "get64 (fresh_header config g c) 40 = 0"
  "get64 (fresh_header config g c) 48 = 1"
  by (simp_all add: fresh_header_def get64_put64_disjoint)

lemma run_open_existing:
  assumes "pool g m" "\<not> pc_create config"
  shows "run (open_region config g) m =
    Inr (if get64 (cache m) 0 = MAGIC then Inr \<lparr>rt_geometry = g, rt_host_id = pc_host_id config\<rparr>
         else Inl (InvalidMagic MAGIC (get64 (cache m) 0)), m)"
  using assms by (simp add: open_region_def run_load_header)

text \<open>A pool created on zeroed memory satisfies the invariant.\<close>

lemma slot_view_zero: "c (rec_base g s) = 0 \<Longrightarrow> slot_view H g c s = SFree"
  by (simp add: slot_view_def STATE_FREE_def)

lemma fresh_log_inv:
  assumes "geom_ok g" "\<And>s. s < cap g \<Longrightarrow> c (rec_base g s) = 0"
  shows "log_inv g (abs_log H g (fresh_header config g c))"
  using assms by (simp add: abs_log_fresh log_inv_def slot_view_zero)

end
