(* ===== verification/Demo.thy ===== *)
theory Demo
  imports Open
begin

text \<open>
  A small concrete pool (four slots of 16 bytes, two hosts, mapped at a page boundary) and a
  concrete hasher. They show that the hypotheses of the properties can hold.
\<close>

definition demo_hasher :: "u32 hasher" where
  "demo_hasher = \<lparr>h_new = 0, h_update = (\<lambda>h bs. h + sum_list (map ucast bs)), h_finalize = id\<rparr>"

definition demo_geometry :: pool_geometry where
  "demo_geometry = \<lparr>g_capacity = 4, g_payload_size = 16, g_max_hosts = 2, g_record_size = 80,
     g_total_size = 512\<rparr>"

definition demo_region :: "bytes \<Rightarrow> mmap" where
  "demo_region c = \<lparr>mm_ptr = 4096, mm_len = 512, mm_arch = X86_64, cache = c, media = c\<rparr>"

definition demo_runtime :: fence_runtime where
  "demo_runtime = \<lparr>rt_geometry = demo_geometry, rt_host_id = 0\<rparr>"

definition demo_config :: "bool \<Rightarrow> pool_config" where
  "demo_config create = \<lparr>pc_path = [0x2F, 0x70], pc_capacity = 4, pc_payload_size = 16, pc_max_hosts = 2,
     pc_host_id = 0, pc_create = create\<rparr>"

abbreviation zeros :: bytes where "zeros \<equiv> (\<lambda>_. 0)"

lemma demo_geometry_new: "geometry_new 4 16 2 = Inr demo_geometry"
  by (simp add: geometry_new_def Let_def demo_geometry_def)

lemma demo_sel [simp]:
  "g_capacity demo_geometry = 4" "g_payload_size demo_geometry = 16" "g_max_hosts demo_geometry = 2"
  "g_record_size demo_geometry = 80" "g_total_size demo_geometry = 512"
  "rt_geometry demo_runtime = demo_geometry" "rt_host_id demo_runtime = 0"
  "mm_ptr (demo_region c) = 4096" "mm_len (demo_region c) = 512" "mm_arch (demo_region c) = X86_64"
  "cache (demo_region c) = c" "media (demo_region c) = c"
  by (simp_all add: demo_geometry_def demo_runtime_def demo_region_def)

lemma demo_pool [simp]: "pool demo_geometry (demo_region c)" "line_aligned (demo_region c)"
  "geom_ok demo_geometry"
  by (simp_all add: pool_def geom_ok_def geom_wf_def mapped_def line_aligned_def)

lemma zeros_simps [simp]: "peek zeros a n = replicate n 0" "from_le (replicate n 0) = (0 :: 'a::len word)"
  "get64 zeros a = 0" "get32 zeros a = 0"
proof -
  show p: "peek zeros a n = replicate n 0" for a n by (simp add: peek_def map_replicate_const)
  show f: "from_le (replicate n 0) = (0 :: 'b::len word)" for n by (induction n) simp_all
  show "get64 zeros a = 0" "get32 zeros a = 0" by (simp_all add: get64_def get32_def p f)
qed

lemma demo_log_inv [simp]: "log_inv demo_geometry (abs_log demo_hasher demo_geometry zeros)"
  by (simp add: log_inv_def slot_view_zero)

text \<open>A pool whose first writer died: slot 0 is reserved and was abandoned by a recovery.\<close>

definition gap_bytes :: bytes where
  "gap_bytes = put64 (zeros(64 := STATE_ABANDONED)) 40 1"

lemma gap_bytes_simps [simp]: "get64 gap_bytes 40 = 1" "get64 gap_bytes 32 = 0"
  "gap_bytes 64 = STATE_ABANDONED" "x \<noteq> 64 \<Longrightarrow> 48 \<le> x \<Longrightarrow> gap_bytes x = 0"
  by (simp_all add: gap_bytes_def get64_put64_disjoint get64_upd_disjoint put64_out)

end
