(* ===== verification/Lifecycle.thy ===== *)
theory Lifecycle
  imports LogInv
begin

text \<open>
  The life of a slot. A slot is free, then being written, then committed, and at the end
  abandoned; the order on \<open>slot_view\<close> says which states can follow which. Every operation
  moves every slot upwards, and the committed tail never moves back.
\<close>

section \<open>The order on slots\<close>

fun stage :: "slot_view \<Rightarrow> nat" where
  "stage SFree = 0"
| "stage SWriting = 1"
| "stage (SCommitted r) = 2"
| "stage SCorrupt = 2"
| "stage SUnknown = 2"
| "stage SAbandoned = 3"

instantiation slot_view :: order
begin

definition less_eq_slot_view :: "slot_view \<Rightarrow> slot_view \<Rightarrow> bool" where
  "less_eq_slot_view v w \<longleftrightarrow> v = w \<or> stage v < stage w"

definition less_slot_view :: "slot_view \<Rightarrow> slot_view \<Rightarrow> bool" where
  "less_slot_view v w \<longleftrightarrow> stage v < stage w"

instance
  by standard (auto simp: less_eq_slot_view_def less_slot_view_def)

end

lemma fix_slot_up: "v \<le> fix_slot v"
  by (cases v) (simp_all add: fix_slot_def less_eq_slot_view_def)

lemma trim_slot_up: "v \<le> trim_slot v"
  by (cases v) (simp_all add: trim_slot_def less_eq_slot_view_def)

lemma free_below [simp]: "SFree \<le> v"
  by (cases v) (simp_all add: less_eq_slot_view_def)

lemma committed_above: "SCommitted r \<le> v \<longleftrightarrow> v = SCommitted r \<or> v = SAbandoned"
  by (cases v) (auto simp: less_eq_slot_view_def)

section \<open>Logs that only grow\<close>

definition later :: "log \<Rightarrow> log \<Rightarrow> bool" where
  "later L L' \<longleftrightarrow> length (l_slots L') = length (l_slots L) \<and> l_tail L \<le> l_tail L' \<and>
     l_reserve L \<le> l_reserve L' \<and> (\<forall>i<length (l_slots L). l_slots L ! i \<le> l_slots L' ! i)"

lemma later_refl [simp]: "later L L"
  by (simp add: later_def)

lemma later_trans: "later L L' \<Longrightarrow> later L' L'' \<Longrightarrow> later L L''"
  unfolding later_def by (metis order_trans)

lemma later_bump [simp]: "later L (bump h i n L') = later L L'"
  by (simp add: later_def)

lemma later_sweep: "(\<And>v. v \<le> f v) \<Longrightarrow> later L (L\<lparr>l_slots := sweep f n (l_slots L)\<rparr>)"
  by (simp add: later_def nth_sweep)

lemma later_advance:
  assumes "log_inv g L"
  shows "later L (advance_spec L)"
  using unat_tail_spec [of L g] log_invD [OF assms]
  by (simp add: later_def advance_spec_def word_le_nat_alt)

lemma later_append:
  assumes "log_inv g L"
  shows "later L (snd (append_spec g h term data L))"
proof (cases "psz g < length data \<or> length (l_slots L) \<le> unat (l_reserve L)")
  case True
  then show ?thesis by (auto simp: append_spec_def)
next
  case False
  note D = log_invD [OF assms]
  let ?r = "unat (l_reserve L)"
  let ?e = "SCommitted \<lparr>r_index = l_reserve L + 1, r_term = term, r_writer_id = ucast h, r_data = data\<rparr>"
  let ?L1 = "L\<lparr>l_slots := (l_slots L)[?r := ?e], l_reserve := l_reserve L + 1\<rparr>"
  from False D(1) have r: "?r < cap g" by simp
  then have r1: "unat (l_reserve L + 1) = Suc ?r"
    using unat_u32_le [of "g_capacity g"] by (subst unat_add_lt64) simp_all
  have "l_slots L ! ?r = SFree"
    using D(4) [OF r] by (cases "l_slots L ! ?r") auto
  then have "later L ?L1"
    using r r1 D(1) by (simp add: later_def nth_list_update word_le_nat_alt)
  moreover have "length (l_slots ?L1) = cap g" "unat (l_tail ?L1) \<le> length (l_slots ?L1)"
    using D by simp_all
  then have "later ?L1 (advance_spec ?L1)"
    using unat_tail_spec [of ?L1 g] by (simp add: later_def advance_spec_def word_le_nat_alt)
  ultimately have "later L (advance_spec ?L1)" by (rule later_trans)
  then show ?thesis using False by (simp add: append_spec_def Let_def)
qed

lemma later_repair:
  assumes "log_inv g L"
  shows "later L (repair g L)"
proof -
  let ?L1 = "L\<lparr>l_slots := sweep fix_slot (unat (scan_limit g L)) (l_slots L)\<rparr>"
  have "later L ?L1" by (rule later_sweep [OF fix_slot_up])
  moreover have "unat (l_tail ?L1) \<le> length (l_slots ?L1)" "length (l_slots ?L1) \<le> cap g"
    using log_invD [OF assms] by simp_all
  then have "later ?L1 (advance_spec ?L1)"
    using unat_tail_spec [of ?L1 g] by (simp add: later_def advance_spec_def word_le_nat_alt)
  ultimately show ?thesis unfolding repair_def by (rule later_trans)
qed

lemma later_same: "l_slots L' = l_slots L \<Longrightarrow> l_tail L' = l_tail L \<Longrightarrow> l_reserve L' = l_reserve L \<Longrightarrow> later L L'"
  by (simp add: later_def)

lemma later_read: "later L (snd (read_spec h i L))"
  using read_spec_sel [OF prod.collapse [symmetric], of h i L] by (simp add: later_same)

lemma later_read_range: "later L (snd (read_range_spec h is rs L))"
  by (simp add: later_same read_range_spec_sel)

lemma later_op: "log_inv g L \<Longrightarrow> later L (snd (op_spec g h op L))"
  by (cases op)
    (auto simp: later_append later_read later_read_range trim_spec_def later_sweep trim_slot_up
      runtime_recover_spec_def recover_spec_def later_repair Let_def)

lemma later_session: "log_inv g L \<Longrightarrow> later L (snd (session_spec g ops L))"
proof (induction g ops L rule: session_spec.induct)
  case (2 g h op ops L)
  obtain r L1 where r: "op_spec g h op L = (r, L1)" by fastforce
  obtain rs L2 where rs: "session_spec g ops L1 = (rs, L2)" by fastforce
  have "later L L1" "log_inv g L1"
    using later_op [OF 2(2), of h op] log_inv_op [OF 2(2), of h op] by (simp_all add: r)
  with 2(1) [OF r [symmetric] refl] show ?case by (auto simp: r rs intro: later_trans)
qed simp

section \<open>A gap stops the log\<close>

text \<open>
  When the slot at the tail is abandoned, no operation moves the tail: what is appended
  behind the gap is acknowledged and never becomes readable.
\<close>

definition stuck :: "pool_geometry \<Rightarrow> log \<Rightarrow> bool" where
  "stuck g L \<longleftrightarrow> log_inv g L \<and> unat (l_tail L) < cap g \<and> l_slots L ! unat (l_tail L) = SAbandoned"

lemma stuck_tail_spec: "stuck g L \<Longrightarrow> tail_spec L = l_tail L"
  by (simp add: stuck_def log_inv_def tail_spec_def Cons_nth_drop_Suc [symmetric])

lemma abandoned_top: "SAbandoned \<le> v \<longleftrightarrow> v = SAbandoned"
  by (cases v) (simp_all add: less_eq_slot_view_def)

lemma stuck_op:
  assumes "stuck g L"
  shows "stuck g (snd (op_spec g h op L))" "l_tail (snd (op_spec g h op L)) = l_tail L"
proof -
  let ?t = "unat (l_tail L)"
  have inv: "log_inv g L" and t: "?t < cap g" "l_slots L ! ?t = SAbandoned"
    using assms by (simp_all add: stuck_def)
  note D = log_invD [OF inv]
  have st: "l_slots (snd (op_spec g h op L)) ! ?t = SAbandoned"
    using later_op [OF inv, of h op] t D(1) unfolding later_def by (metis abandoned_top)
  have r: "?t < unat (l_reserve L)" using D(4) [OF t(1)] t(2) by simp
  have run0: "tail_spec L' = l_tail L'"
    if "l_tail L' = l_tail L" "length (l_slots L') = cap g" "l_slots L' ! ?t = SAbandoned" for L'
    using that t(1) by (simp add: tail_spec_def Cons_nth_drop_Suc [symmetric])
  show tl: "l_tail (snd (op_spec g h op L)) = l_tail L"
  proof (cases op)
    case (OpAppend x1 x2)
    have "l_tail (snd (append_spec g h x1 x2 L)) = l_tail L"
      using run0 [of "L\<lparr>l_slots := (l_slots L)[unat (l_reserve L) := v]\<rparr>" for v] t r D(1)
      by (auto simp: append_spec_def Let_def advance_spec_def tail_spec_def)
    then show ?thesis using OpAppend by simp
  next
    case (OpRead x)
    then show ?thesis using read_spec_sel [OF prod.collapse [symmetric], of h x L] by simp
  next
    case (OpReadRange x1 x2)
    then show ?thesis by (simp add: read_range_spec_sel)
  next
    case OpRecover
    have "tail_spec (L\<lparr>l_slots := sweep fix_slot n (l_slots L)\<rparr>) = l_tail L" for n
      using run0 [of "L\<lparr>l_slots := sweep fix_slot n (l_slots L)\<rparr>"] t D(1)
      by (simp add: nth_sweep fix_slot_def)
    with OpRecover show ?thesis
      by (simp add: runtime_recover_spec_def recover_spec_def repair_def advance_spec_def Let_def)
  qed (simp_all add: trim_spec_def)
  show "stuck g (snd (op_spec g h op L))"
    using log_inv_op [OF inv, of h op] st t(1) by (simp add: stuck_def tl)
qed

lemma stuck_session: "stuck g L \<Longrightarrow> l_tail (snd (session_spec g ops L)) = l_tail L"
proof (induction g ops L rule: session_spec.induct)
  case (2 g h op ops L)
  with stuck_op [OF 2(2), of h op] show ?case
    by (auto split: prod.split simp: Let_def)
qed simp

end
