(* ===== verification/LogContract.thy ===== *)
theory LogContract
  imports LogInv
begin

text \<open>
  The two contracts the log's clients rely on, as locales: a repair procedure that can be
  run any number of times, and an append-only store. Both are interpreted on the
  specification of the runtime, which the programs implement.
\<close>

section \<open>Repair procedures\<close>

locale repairable =
  fixes inv :: "'s \<Rightarrow> bool"
    and fix_up :: "'s \<Rightarrow> 's"
    and clean :: "'s \<Rightarrow> bool"
    and entry :: "'s \<Rightarrow> nat \<Rightarrow> 'v"
    and good :: "'v \<Rightarrow> bool"
  assumes fix_inv: "inv s \<Longrightarrow> inv (fix_up s)"
    and fix_clean: "inv s \<Longrightarrow> clean (fix_up s)"
    and clean_fix: "inv s \<Longrightarrow> clean s \<Longrightarrow> fix_up s = s"
    and fix_good: "inv s \<Longrightarrow> good (entry s i) \<Longrightarrow> entry (fix_up s) i = entry s i"
begin

lemma idem: "inv s \<Longrightarrow> fix_up (fix_up s) = fix_up s"
  by (simp add: fix_inv fix_clean clean_fix)

lemma iterate: "inv s \<Longrightarrow> (fix_up ^^ Suc n) s = fix_up s"
  by (induction n) (simp_all add: idem)

lemma clean_iff: "inv s \<Longrightarrow> clean s \<longleftrightarrow> fix_up s = s"
  by (metis clean_fix fix_clean)

lemma iterate_good: "inv s \<Longrightarrow> good (entry s i) \<Longrightarrow> entry ((fix_up ^^ n) s) i = entry s i"
  by (cases n) (simp_all only: iterate fix_good funpow_0)

end

definition shaped :: "pool_geometry \<Rightarrow> log \<Rightarrow> bool" where
  "shaped g L \<longleftrightarrow> length (l_slots L) = cap g"

definition clean_log :: "pool_geometry \<Rightarrow> log \<Rightarrow> bool" where
  "clean_log g L \<longleftrightarrow>
     (\<forall>i<unat (scan_limit g L). \<not> broken (l_slots L ! i)) \<and> tail_spec L = l_tail L"

lemma scan_limit_le: "unat (scan_limit g L) \<le> cap g"
  unfolding scan_limit_def by (metis min.cobounded2 word_le_nat_alt unat_ucast_u32_u64)

lemma scan_limit_cong: "l_reserve L' = l_reserve L \<Longrightarrow> scan_limit g L' = scan_limit g L"
  by (simp add: scan_limit_def)

lemma repair_sel:
  "l_slots (repair g L) = sweep fix_slot (unat (scan_limit g L)) (l_slots L)"
  "l_reserve (repair g L) = l_reserve L"
  by (simp_all add: repair_def advance_spec_def)

text \<open>Advancing twice is advancing once.\<close>

lemma tail_spec_advance:
  assumes "length (l_slots L) \<le> cap g"
  shows "tail_spec (advance_spec L) = l_tail (advance_spec L)"
proof (cases "unat (l_tail L) \<le> length (l_slots L)")
  case False
  then show ?thesis by (simp add: tail_spec_def advance_spec_def)
next
  case True
  note t = unat_tail_spec [OF True assms]
  have "takeWhile committed_state (drop (unat (tail_spec L)) (l_slots L)) = []"
  proof (cases "unat (tail_spec L) < length (l_slots L)")
    case True': True
    then show ?thesis
      by (rule takeWhile_drop_Nil) (use committed_run_stop [of L] True' in \<open>simp only: t(1) not_False_eq_True\<close>)
  qed simp
  then show ?thesis by (simp add: tail_spec_def [of "advance_spec L"]) (simp add: advance_spec_def)
qed

interpretation log_repair: repairable "shaped g" "repair g" "clean_log g" "\<lambda>L. (!) (l_slots L)"
    "\<lambda>v. \<not> broken v" for g
proof unfold_locales
  fix L assume L: "shaped g L"
  let ?n = "unat (scan_limit g L)"
  show "shaped g (repair g L)" using L by (simp add: shaped_def repair_sel)
  show "clean_log g (repair g L)"
  proof -
    have "\<not> broken (fix_slot v)" for v by (cases v) (simp_all add: fix_slot_def)
    then have "\<forall>i<?n. \<not> broken (l_slots (repair g L) ! i)"
      using L scan_limit_le [of g L] by (simp add: repair_sel nth_sweep shaped_def)
    moreover have "tail_spec (repair g L) = l_tail (repair g L)"
      unfolding repair_def using L by (intro tail_spec_advance [of _ g]) (simp add: shaped_def)
    ultimately show ?thesis
      by (simp add: clean_log_def scan_limit_cong [OF repair_sel(2)])
  qed
  show "repair g L = L" if "clean_log g L"
  proof -
    have "sweep fix_slot ?n (l_slots L) = l_slots L"
      using that L scan_limit_le [of g L]
      by (intro nth_equalityI) (auto simp: nth_sweep clean_log_def fix_slot_simps)
    with that show ?thesis
      by (simp add: repair_def advance_spec_def clean_log_def)
  qed
  show "l_slots (repair g L) ! i = l_slots L ! i" if "\<not> broken (l_slots L ! i)" for i
  proof (cases "i < length (l_slots L)")
    case True
    with that show ?thesis by (simp add: repair_sel nth_sweep fix_slot_simps)
  next
    case False
    have "?n \<le> length (l_slots L)" using L scan_limit_le [of g L] by (simp add: shaped_def)
    with False show ?thesis by (simp add: repair_sel sweep_def nth_append)
  qed
qed

section \<open>Append-only stores\<close>

locale append_only =
  fixes inv :: "'s \<Rightarrow> bool"
    and acceptable :: "'a \<Rightarrow> bool"
    and bound :: nat
    and add :: "'a \<Rightarrow> 's \<Rightarrow> 's"
    and count :: "'s \<Rightarrow> nat"
    and lookup :: "'s \<Rightarrow> nat \<Rightarrow> 'r option"
    and record_of :: "'a \<Rightarrow> nat \<Rightarrow> 'r"
  assumes add_inv: "inv s \<Longrightarrow> acceptable a \<Longrightarrow> count s < bound \<Longrightarrow> inv (add a s)"
    and add_count: "inv s \<Longrightarrow> acceptable a \<Longrightarrow> count s < bound \<Longrightarrow> count (add a s) = Suc (count s)"
    and add_new: "inv s \<Longrightarrow> acceptable a \<Longrightarrow> count s < bound \<Longrightarrow>
                  lookup (add a s) (count s) = Some (record_of a (count s))"
    and add_old: "inv s \<Longrightarrow> acceptable a \<Longrightarrow> count s < bound \<Longrightarrow> i < count s \<Longrightarrow>
                  lookup (add a s) i = lookup s i"
begin

abbreviation add_all :: "'a list \<Rightarrow> 's \<Rightarrow> 's" where
  "add_all as s \<equiv> fold add as s"

lemma add_all_inv:
  "inv s \<Longrightarrow> list_all acceptable as \<Longrightarrow> count s + length as \<le> bound \<Longrightarrow>
   inv (add_all as s) \<and> count (add_all as s) = count s + length as"
  by (induction "as" arbitrary: s) (simp_all add: add_inv add_count)

lemma add_all_old:
  "inv s \<Longrightarrow> list_all acceptable as \<Longrightarrow> count s + length as \<le> bound \<Longrightarrow> i < count s \<Longrightarrow>
   lookup (add_all as s) i = lookup s i"
  by (induction "as" arbitrary: s) (simp_all add: add_inv add_count add_old)

lemma add_all_new:
  "inv s \<Longrightarrow> list_all acceptable as \<Longrightarrow> count s + length as \<le> bound \<Longrightarrow> i < length as \<Longrightarrow>
   lookup (add_all as s) (count s + i) = Some (record_of (as ! i) (count s + i))"
proof (induction "as" arbitrary: s i)
  case (Cons a "as")
  let ?s = "add a s"
  have s: "inv ?s" "count ?s = Suc (count s)"
    using Cons.prems by (simp_all add: add_inv add_count)
  show ?case
  proof (cases i)
    case 0
    have "lookup (add_all as ?s) (count s) = lookup ?s (count s)"
      using Cons.prems s by (intro add_all_old) simp_all
    with 0 Cons.prems show ?thesis by (simp add: add_new)
  next
    case (Suc j)
    with Cons.IH [of ?s j] Cons.prems s show ?thesis by simp
  qed
qed simp

end

text \<open>
  A log nobody crashed in the middle of: everything reserved is committed. An entry to add
  is a host, a term and a payload.
\<close>

definition settled :: "pool_geometry \<Rightarrow> log \<Rightarrow> bool" where
  "settled g L \<longleftrightarrow> log_inv g L \<and> l_tail L = l_reserve L"

type_synonym entry = "u16 \<times> u64 \<times> u8 list"

fun log_add :: "pool_geometry \<Rightarrow> entry \<Rightarrow> log \<Rightarrow> log" where
  "log_add g (h, t, d) L = snd (append_spec g h t d L)"

fun entry_fits :: "pool_geometry \<Rightarrow> entry \<Rightarrow> bool" where
  "entry_fits g (h, t, d) \<longleftrightarrow> length d \<le> psz g"

definition log_lookup :: "log \<Rightarrow> nat \<Rightarrow> log_record option" where
  "log_lookup L i = (case l_slots L ! i of SCommitted r \<Rightarrow> Some r | _ \<Rightarrow> None)"

fun entry_record :: "entry \<Rightarrow> nat \<Rightarrow> log_record" where
  "entry_record (h, t, d) i =
     \<lparr>r_index = word_of_nat (i + 1), r_term = t, r_writer_id = ucast h, r_data = d\<rparr>"

lemma settled_append:
  assumes "settled g L" "length d \<le> psz g" "unat (l_tail L) < cap g"
  shows "append_spec g h t d L =
      (Inr (l_tail L + 1),
       bump h 2 (word_of_nat (length d)) (bump h 0 1
         (L\<lparr>l_slots := (l_slots L)[unat (l_tail L) := SCommitted (entry_record (h, t, d) (unat (l_tail L)))],
            l_reserve := l_tail L + 1, l_tail := l_tail L + 1\<rparr>)))"
    and "settled g (snd (append_spec g h t d L))"
    and "unat (l_tail L + 1) = Suc (unat (l_tail L))"
proof -
  let ?t = "unat (l_tail L)"
  let ?e = "SCommitted (entry_record (h, t, d) ?t)"
  have inv: "log_inv g L" and eq: "l_reserve L = l_tail L"
    using assms(1) by (simp_all add: settled_def)
  note D = log_invD [OF inv]
  show t1: "unat (l_tail L + 1) = Suc ?t"
    using assms(3) unat_u32_le [of "g_capacity g"] by (subst unat_add_lt64) simp_all
  have after: "takeWhile committed_state (drop (Suc ?t) (l_slots L)) = []"
  proof (cases "Suc ?t < cap g")
    case True
    have "l_slots L ! Suc ?t = SFree"
      using D(4) [OF True] eq by (cases "l_slots L ! Suc ?t") auto
    with True D(1) show ?thesis by (simp add: Cons_nth_drop_Suc [symmetric])
  qed (use D(1) in simp)
  have "drop ?t ((l_slots L)[?t := ?e]) = ?e # drop (Suc ?t) (l_slots L)"
    using assms(3) D(1) by (simp add: Cons_nth_drop_Suc [symmetric])
  with after have "tail_spec (L\<lparr>l_slots := (l_slots L)[?t := ?e], l_reserve := l_tail L + 1\<rparr>) = l_tail L + 1"
    by (simp add: tail_spec_def)
  moreover have "word_of_nat (?t + 1) = l_tail L + 1" by simp
  ultimately show app: "append_spec g h t d L =
      (Inr (l_tail L + 1),
       bump h 2 (word_of_nat (length d)) (bump h 0 1
         (L\<lparr>l_slots := (l_slots L)[?t := ?e], l_reserve := l_tail L + 1, l_tail := l_tail L + 1\<rparr>)))"
    using assms(2,3) D(1) eq by (simp add: append_spec_def advance_spec_def Let_def add.commute)
  with log_inv_append [OF inv, of h t d] show "settled g (snd (append_spec g h t d L))"
    by (simp add: settled_def)
qed

interpretation log_store: append_only "settled g" "entry_fits g" "cap g" "log_add g"
    "\<lambda>L. unat (l_tail L)" log_lookup entry_record for g
proof unfold_locales
  fix L and a :: entry
  assume L: "settled g L" and a: "entry_fits g a" and t: "unat (l_tail L) < cap g"
  obtain h tm d where a': "a = (h, tm, d)" by (cases a)
  have d: "length d \<le> psz g" using a by (simp add: a')
  have len: "length (l_slots L) = cap g" using L by (simp add: settled_def log_inv_def)
  note s = settled_append [OF L d t]
  show "settled g (log_add g a L)" using s(2) by (simp add: a')
  show "unat (l_tail (log_add g a L)) = Suc (unat (l_tail L))" by (simp add: a' s(1,3))
  show "log_lookup (log_add g a L) (unat (l_tail L)) = Some (entry_record a (unat (l_tail L)))"
    using len t by (simp add: a' s(1) log_lookup_def)
  show "log_lookup (log_add g a L) i = log_lookup L i" if "i < unat (l_tail L)" for i
    using len t that by (simp add: a' s(1) log_lookup_def)
qed

section \<open>Batches\<close>

lemma session_spec_append:
  "session_spec g (xs @ ys) L =
     (let (r1, L1) = session_spec g xs L; (r2, L2) = session_spec g ys L1 in (r1 @ r2, L2))"
  by (induction g xs L rule: session_spec.induct) (auto simp: Let_def split: prod.split)

fun append_op :: "entry \<Rightarrow> u16 \<times> log_op" where
  "append_op (h, t, d) = (h, OpAppend t d)"

definition read_op :: "u16 \<Rightarrow> nat \<Rightarrow> u16 \<times> log_op" where
  "read_op h i = (h, OpRead (word_of_nat (i + 1)))"

lemma session_appends:
  assumes "settled g L" "list_all (entry_fits g) as" "unat (l_tail L) + length as \<le> cap g"
  shows "session_spec g (map append_op as) L =
    (map (\<lambda>i. RAppend (Inr (word_of_nat (unat (l_tail L) + i + 1)))) [0..<length as],
     fold (log_add g) as L)"
  using assms
proof (induction "as" arbitrary: L)
  case (Cons a "as")
  obtain h t d where a: "a = (h, t, d)" by (cases a)
  let ?L1 = "log_add g a L"
  have fits: "length d \<le> psz g" "unat (l_tail L) < cap g" using Cons.prems by (simp_all add: a)
  note s = settled_append [OF Cons.prems(1) fits]
  have t1: "unat (l_tail ?L1) = Suc (unat (l_tail L))" by (simp add: a s(1,3))
  have "session_spec g (map append_op as) ?L1 =
    (map (\<lambda>i. RAppend (Inr (word_of_nat (unat (l_tail ?L1) + i + 1)))) [0..<length as],
     fold (log_add g) as ?L1)"
    using Cons.prems s(2) t1 by (intro Cons.IH) (simp_all add: a)
  then show ?case
    by (simp add: a s(1) map_upt_Suc t1 [unfolded a, simplified s(1)] s(3) del: upt_Suc)
qed simp

text \<open>Reading \<open>is\<close>, all committed: the records, and a log with the same slots.\<close>

lemma read_hit:
  assumes "log_inv g L" "i < unat (l_tail L)" "log_lookup L i = Some r"
  shows "read_spec h (word_of_nat (i + 1)) L = (Inr (Some r), bump h 3 1 L)"
proof -
  have "i + 1 < 2 ^ LENGTH(64)" using assms(2) unat_u64_le [of "l_tail L"] by simp
  then have i: "unat (word_of_nat (i + 1) :: u64) = i + 1"
    by (simp only: unsigned_of_nat take_bit_nat_eq_self of_nat_id)
  have "word_of_nat (i + 1) \<noteq> (0 :: u64)" using i by (metis unsigned_0 add_is_0 one_neq_zero)
  moreover have "\<not> l_tail L < word_of_nat (i + 1)"
    using assms(2) i by (simp add: word_less_nat_alt del: of_nat_add of_nat_Suc)
  moreover have "l_slots L ! i = SCommitted r"
    using assms(3) by (simp add: log_lookup_def split: slot_view.splits)
  ultimately show ?thesis
    using i by (simp add: read_spec_def del: of_nat_add of_nat_Suc)
qed

lemma session_reads:
  assumes "log_inv g L" "\<forall>i\<in>set is. i < unat (l_tail L) \<and> log_lookup L i = Some (f i)"
  shows "fst (session_spec g (map (read_op h) is) L) = map (\<lambda>i. RRead (Inr (Some (f i)))) is"
  using assms
proof (induction "is" arbitrary: L)
  case (Cons i "is")
  have r: "read_spec h (word_of_nat (i + 1)) L = (Inr (Some (f i)), bump h 3 1 L)"
    using Cons.prems by (intro read_hit [OF Cons.prems(1)]) simp_all
  have "fst (session_spec g (map (read_op h) is) (bump h 3 1 L)) = map (\<lambda>i. RRead (Inr (Some (f i)))) is"
    using Cons.prems by (intro Cons.IH) (simp_all add: log_lookup_def)
  then show ?case
    unfolding list.map read_op_def session_spec.simps op_spec.simps r by (simp add: case_prod_beta)
qed simp

lemma session_append_read:
  assumes "settled g L" "list_all (entry_fits g) as" "unat (l_tail L) + length as \<le> cap g"
  shows "fst (session_spec g (map append_op as @
            map (read_op h) [unat (l_tail L)..<unat (l_tail L) + length as]) L) =
    map (\<lambda>i. RAppend (Inr (word_of_nat (unat (l_tail L) + i + 1)))) [0..<length as] @
    map (\<lambda>i. RRead (Inr (Some (entry_record (as ! (i - unat (l_tail L))) i))))
      [unat (l_tail L)..<unat (l_tail L) + length as]"
proof -
  let ?t = "unat (l_tail L)" and ?L1 = "fold (log_add g) as L"
  have inv: "settled g ?L1" "unat (l_tail ?L1) = ?t + length as"
    using log_store.add_all_inv [OF assms] by simp_all
  have "log_lookup ?L1 i = Some (entry_record (as ! (i - ?t)) i)" if "?t \<le> i" "i < ?t + length as" for i
    using log_store.add_all_new [OF assms, of "i - ?t"] that by simp
  then have "fst (session_spec g (map (read_op h) [?t..<?t + length as]) ?L1) =
      map (\<lambda>i. RRead (Inr (Some (entry_record (as ! (i - ?t)) i)))) [?t..<?t + length as]"
    using inv by (intro session_reads) (simp_all add: settled_def)
  then show ?thesis
    by (simp add: session_spec_append session_appends [OF assms] case_prod_beta)
qed

end
