(* ===== verification/LogProps.thy ===== *)
theory LogProps
  imports Demo Lifecycle LogContract
begin

text \<open>The properties of the log runtime, each with a witness on a concrete pool.\<close>

lemmas demo_facts = demo_pool demo_log_inv demo_sel

section \<open>Refinement\<close>



text \<open>
  C1: \<open>append\<close> implements its specification on every branch: \<open>PayloadTooLarge\<close> changes
  nothing, \<open>PoolFull\<close> counts the failure and undoes the reservation, and success commits the
  record in the reserved slot, advances the tail over every committed record and counts the
  append and its bytes for the calling host.
\<close>
theorem append_refines:
  assumes "pool g m" "rt_geometry rt = g" "unat (rt_host_id rt) < hosts g"
  shows "sim H g m (append H rt term data)
    (append_spec g (rt_host_id rt) term data (abs_log H g (cache m)))"
  using assms by (rule sim_append)

theorem append_refines_witness:
  "sim demo_hasher demo_geometry (demo_region zeros) (append demo_hasher demo_runtime 7 [1, 2])
     (append_spec demo_geometry 0 7 [1, 2] (abs_log demo_hasher demo_geometry zeros))"
  using append_refines [of demo_geometry "demo_region zeros" demo_runtime demo_hasher 7 "[1, 2]"]
  by simp

text \<open>
  \<open>read\<close> implements its specification: an index of zero or past the tail is out of
  bounds, a slot that is not committed reads as nothing, a record whose checksum does not
  match is reported and counted, and otherwise the stored record is returned and the read
  counted.
\<close>
theorem read_refines:
  assumes "pool g m" "rt_geometry rt = g" "unat (rt_host_id rt) < hosts g"
    and "unat (get64 (cache m) 32) \<le> cap g"
  shows "sim H g m (read H rt index) (read_spec (rt_host_id rt) index (abs_log H g (cache m)))"
  using assms by (intro sim_read) simp_all

theorem read_refines_witness:
  "sim demo_hasher demo_geometry (demo_region zeros) (read demo_hasher demo_runtime 1)
     (Inl (IndexOutOfBounds 1 0), abs_log demo_hasher demo_geometry zeros)"
  using read_refines [of demo_geometry "demo_region zeros" demo_runtime demo_hasher 1]
  by (simp add: read_spec_def)

text \<open>
  C31: \<open>trim\<close> refuses an index past the tail; otherwise it abandons every committed record of
  the first \<open>up_to\<close> slots and returns how many there were.
\<close>
theorem trim_refines:
  assumes "pool (rt_geometry rt) m" "unat (get64 (cache m) 32) \<le> cap (rt_geometry rt)"
  shows "sim H (rt_geometry rt) m (runtime_trim rt up_to)
    (trim_spec up_to (abs_log H (rt_geometry rt) (cache m)))"
  unfolding runtime_trim_def using assms by (rule sim_trim)

theorem trim_refines_witness:
  "sim demo_hasher demo_geometry (demo_region zeros) (runtime_trim demo_runtime 1)
     (Inl (TrimBeyondCommitted 1 0), abs_log demo_hasher demo_geometry zeros)"
  using trim_refines [of demo_runtime "demo_region zeros" demo_hasher 1]
  by (simp add: trim_spec_def)



text \<open>
  \<open>read_range\<close> over an ordered range reads the records in index order, leaves out the
  slots that are not committed, and stops at the first error.
\<close>
theorem read_range_refines:
  assumes "pool g m" "rt_geometry rt = g" "unat (rt_host_id rt) < hosts g"
    and "unat (get64 (cache m) 32) \<le> cap g"
    and "start \<le> e" "48 * (unat e - unat start) \<le> 9223372036854775807"
  shows "sim H g m (read_range H rt start e)
    (read_range_spec (rt_host_id rt) (word_range start e) [] (abs_log H g (cache m)))"
  using assms by (intro sim_read_range) simp_all

theorem read_range_refines_witness:
  "sim demo_hasher demo_geometry (demo_region zeros) (read_range demo_hasher demo_runtime 1 3)
     (read_range_spec 0 (word_range 1 3) [] (abs_log demo_hasher demo_geometry zeros))"
  using read_range_refines [of demo_geometry "demo_region zeros" demo_runtime 1 3 demo_hasher] by simp

text \<open>
  a reversed range (by less than \<open>2 ^ 62\<close>) does not give an empty result: the capacity
  of the result vector wraps around, and \<open>read_range\<close> panics before it reads anything.
\<close>
theorem read_range_reversed_panics:
  assumes "e < start" "unat start - unat e \<le> 2 ^ 62"
  shows "run (read_range H rt start e) m = Inl (Panic ''capacity overflow'')"
  using assms by (rule run_read_range_reversed)

theorem read_range_reversed_panics_witness:
  "run (read_range demo_hasher demo_runtime 3 1) (demo_region zeros) = Inl (Panic ''capacity overflow'')"
  using read_range_reversed_panics [of 1 3] by simp

text \<open>
  \<open>stats\<close> changes nothing and returns, for each of the seven counters, the sum of the
  counter blocks of all hosts.
\<close>
theorem stats_sums_blocks:
  assumes "pool (rt_geometry rt) m"
  shows "run (stats rt) m = Inr (stats_spec (rt_geometry rt) (abs_log H (rt_geometry rt) (cache m)), m)"
  using assms refl by (rule run_stats)

theorem stats_sums_blocks_witness:
  "run (stats demo_runtime) (demo_region zeros) =
     Inr (stats_spec demo_geometry (abs_log demo_hasher demo_geometry zeros), demo_region zeros)"
  using stats_sums_blocks [of demo_runtime "demo_region zeros" demo_hasher] by simp

section \<open>Round trips and ordering\<close>

text \<open>
  C21: on a log without gaps, a batch of appends that fits is given consecutive indices, and
  reading these indices back returns exactly the terms, writers and payloads that were
  appended.
\<close>
theorem append_read_back:
  assumes "pool g m" "abs_log H g (cache m) = L" "settled g L" "list_all (entry_fits g) as"
    and "unat (l_tail L) + length as \<le> cap g" "\<forall>(h, t, d)\<in>set as. unat h < hosts g"
    and "unat reader < hosts g"
  shows "\<exists>m'. run (session H g (map append_op as @
            map (read_op reader) [unat (l_tail L)..<unat (l_tail L) + length as])) m =
    Inr (map (\<lambda>i. RAppend (Inr (word_of_nat (unat (l_tail L) + i + 1)))) [0..<length as] @
         map (\<lambda>i. RRead (Inr (Some (entry_record (as ! (i - unat (l_tail L))) i))))
           [unat (l_tail L)..<unat (l_tail L) + length as], m')"
proof -
  let ?ops = "map append_op as @ map (read_op reader) [unat (l_tail L)..<unat (l_tail L) + length as]"
  have "list_all (\<lambda>(h, op). unat h < hosts g \<and> op_ok op) (map append_op as)"
    using assms(6) by (auto simp: list_all_iff)
  then have "session_ok g ?ops"
    using assms(7) by (auto simp: session_ok_def read_op_def list_all_iff)
  then have "sim H g m (session H g ?ops) (session_spec g ?ops L)"
    using assms(1-3) by (intro sim_session) (simp_all add: settled_def)
  then show ?thesis
    unfolding session_append_read [OF assms(3-5), of reader, symmetric] by (auto simp: sim_def)
qed

theorem append_read_back_witness:
  "\<exists>m'. run (session demo_hasher demo_geometry [(0, OpAppend 7 [1, 2]), (1, OpRead 1)]) (demo_region zeros) =
     Inr ([RAppend (Inr 1), RRead (Inr (Some \<lparr>r_index = 1, r_term = 7, r_writer_id = 0, r_data = [1, 2]\<rparr>))], m')"
  using append_read_back [of demo_geometry "demo_region zeros" demo_hasher _ "[(0, 7, [1, 2])]" 1, OF _ refl]
  by (simp add: settled_def read_op_def)



text \<open>
  C23: a gap stops the log. When the slot at the committed tail is abandoned, no sequence of
  operations, recovery included, ever moves the tail again, although appends behind the gap
  still succeed.
\<close>
theorem gap_stops_tail:
  assumes "pool g m" "stuck g (abs_log H g (cache m))" "session_ok g ops"
    and "run (session H g ops) m = Inr (outs, m')"
  shows "get64 (cache m') 32 = get64 (cache m) 32"
proof -
  have inv: "log_inv g (abs_log H g (cache m))" using assms(2) by (simp add: stuck_def)
  have "abs_log H g (cache m') = snd (session_spec g ops (abs_log H g (cache m)))"
    using sim_session [OF assms(1) refl inv assms(3)] assms(4) by (auto simp: sim_def)
  with stuck_session [OF assms(2), of ops] show ?thesis by (metis abs_log_sel(3))
qed

lemma gap_stuck: "stuck demo_geometry (abs_log demo_hasher demo_geometry gap_bytes)"
proof -
  have v: "slot_view demo_hasher demo_geometry gap_bytes i = (if i = 0 then SAbandoned else SFree)" for i
    by (cases "i = 0") (auto simp: slot_view_def rec_base_def Let_def state_consts)
  show ?thesis by (auto simp: stuck_def log_inv_def v)
qed

theorem gap_stops_tail_witness:
  "\<exists>m'. run (session demo_hasher demo_geometry [(0, OpAppend 7 [1])]) (demo_region gap_bytes) =
      Inr ([RAppend (Inr 2)], m') \<and> get64 (cache m') 32 = 0"
proof -
  have ok: "session_ok demo_geometry [(0, OpAppend 7 [1])]" by (simp add: session_ok_def)
  have "fst (session_spec demo_geometry [(0, OpAppend 7 [1])] (abs_log demo_hasher demo_geometry gap_bytes)) =
      [RAppend (Inr 2)]"
    by (simp add: append_spec_def Let_def split: prod.split)
  moreover have "log_inv demo_geometry (abs_log demo_hasher demo_geometry gap_bytes)"
    using gap_stuck by (simp add: stuck_def)
  ultimately obtain m' where
    r: "run (session demo_hasher demo_geometry [(0, OpAppend 7 [1])]) (demo_region gap_bytes) = Inr ([RAppend (Inr 2)], m')"
    using sim_session [OF demo_pool(1) refl _ ok, of demo_hasher gap_bytes] by (auto simp: sim_def)
  from gap_stops_tail [OF demo_pool(1) _ ok r] gap_stuck r show ?thesis by auto
qed

section \<open>Recovery\<close>

text \<open>
  recovery is idempotent: after a first run, any number of further runs returns the same
  tail, finds nothing to abandon and leaves the log as the first run left it.
\<close>
theorem recover_idempotent:
  assumes "pool g m" "run (recover H g) m = Inr (r1, m1)" "run (recover H g) m1 = Inr (r2, m2)"
  shows "rr_abandoned_count r2 = 0 \<and> rr_committed_tail r2 = rr_committed_tail r1 \<and>
    abs_log H g (cache m2) = abs_log H g (cache m1)"
proof -
  let ?L = "abs_log H g (cache m)"
  have s: "shaped g ?L" by (simp add: shaped_def)
  have 1: "r1 = fst (recover_spec g ?L)" "abs_log H g (cache m1) = repair g ?L" "pool g m1"
    using sim_recover [OF assms(1) refl, of H] assms(2) by (auto simp: sim_def recover_spec_def)
  have 2: "r2 = fst (recover_spec g (repair g ?L))" "abs_log H g (cache m2) = repair g (repair g ?L)"
    using sim_recover [OF 1(3,2)] assms(3) by (auto simp: sim_def recover_spec_def)
  have "\<forall>i<unat (scan_limit g (repair g ?L)). \<not> broken (l_slots (repair g ?L) ! i)"
    using log_repair.fix_clean [OF s] by (simp add: clean_log_def)
  then have "filter broken (take (unat (scan_limit g (repair g ?L))) (l_slots (repair g ?L))) = []"
    by (auto simp: filter_empty_conv in_set_conv_nth)
  then have "broken_count g (repair g ?L) = 0" by (simp add: broken_count_def)
  with 1 2 log_repair.idem [OF s] show ?thesis
    by (simp add: recover_spec_def)
qed

theorem recover_idempotent_witness:
  "\<exists>r1 m1 r2 m2. run (recover demo_hasher demo_geometry) (demo_region gap_bytes) = Inr (r1, m1) \<and>
     run (recover demo_hasher demo_geometry) m1 = Inr (r2, m2) \<and> rr_abandoned_count r2 = 0"
proof -
  obtain r1 m1 where 1: "run (recover demo_hasher demo_geometry) (demo_region gap_bytes) = Inr (r1, m1)"
    "pool demo_geometry m1"
    using sim_recover [OF demo_pool(1) refl, of demo_hasher gap_bytes] by (auto simp: sim_def)
  obtain r2 m2 where "run (recover demo_hasher demo_geometry) m1 = Inr (r2, m2)"
    using sim_recover [OF 1(2) refl, of demo_hasher] by (auto simp: sim_def)
  with recover_idempotent [OF demo_pool(1) 1(1) this] 1(1) show ?thesis by blast
qed

text \<open>
  C22: recovery loses no valid record and keeps no broken one: after it, a slot holds a
  committed record exactly if it held the same record before, and no slot below the
  reservation counter is broken.
\<close>
theorem recover_keeps_valid:
  assumes "pool g m" "run (recover H g) m = Inr (r, m')" "s < cap g"
  shows "(slot_view H g (cache m') s = SCommitted e \<longleftrightarrow> slot_view H g (cache m) s = SCommitted e) \<and>
    (s < unat (get64 (cache m) 40) \<longrightarrow> \<not> broken (slot_view H g (cache m') s))"
proof -
  let ?L = "abs_log H g (cache m)"
  have abs: "abs_log H g (cache m') = repair g ?L"
    using sim_recover [OF assms(1) refl, of H] assms(2) by (auto simp: sim_def recover_spec_def)
  have "slot_view H g (cache m') s = sweep fix_slot (unat (scan_limit g ?L)) (l_slots ?L) ! s"
    using pool_slot_nth [OF abs assms(3)] by (simp add: repair_sel)
  then have v: "slot_view H g (cache m') s =
      (if s < unat (scan_limit g ?L) then fix_slot (slot_view H g (cache m) s) else slot_view H g (cache m) s)"
    using assms(3) by (simp add: nth_sweep)
  have "unat (scan_limit g ?L) = min (unat (get64 (cache m) 40)) (cap g)"
    by (simp add: scan_limit_def min_def word_le_nat_alt)
  with v assms(3) show ?thesis
    by (cases "slot_view H g (cache m) s") (auto simp: fix_slot_def)
qed

theorem recover_keeps_valid_witness:
  "\<exists>r m'. run (recover demo_hasher demo_geometry) (demo_region gap_bytes) = Inr (r, m') \<and>
     \<not> broken (slot_view demo_hasher demo_geometry (cache m') 0)"
proof -
  obtain r m' where r: "run (recover demo_hasher demo_geometry) (demo_region gap_bytes) = Inr (r, m')"
    using sim_recover [OF demo_pool(1) refl, of demo_hasher gap_bytes] by (auto simp: sim_def)
  from recover_keeps_valid [OF demo_pool(1) this, of 0] r show ?thesis by auto
qed

section \<open>Opening\<close>

text \<open>
  creating a pool writes the header (magic, capacity, record size, hosts, epoch), resets
  both counters and touches no record and no counter block: what the slots held before is
  still there, so on memory that was not zeroed old committed records survive the creation.
\<close>
theorem create_writes_header:
  assumes "pool g m" "pc_create config"
  shows "\<exists>m'. run (open_region config g) m = Inr (Inr \<lparr>rt_geometry = g, rt_host_id = pc_host_id config\<rparr>, m') \<and>
    pool g m' \<and>
    abs_log H g (cache m') = (abs_log H g (cache m))\<lparr>l_tail := 0, l_reserve := 0\<rparr> \<and>
    get64 (cache m') 0 = MAGIC \<and> get64 (cache m') 8 = ucast (pc_capacity config) \<and>
    get64 (cache m') 16 = ucast (g_record_size g) \<and> get64 (cache m') 24 = ucast (pc_max_hosts config)"
  using run_create [OF assms] assms(1) abs_log_fresh [OF poolD(1) [OF assms(1)]]
  by (auto simp: fresh_header_fields)

theorem create_writes_header_witness:
  "\<exists>rt m'. run (open_region (demo_config True) demo_geometry) (demo_region zeros) = Inr (Inr rt, m') \<and>
     get64 (cache m') 0 = MAGIC"
  using create_writes_header [of demo_geometry "demo_region zeros" "demo_config True" demo_hasher]
  by (auto simp: demo_config_def)

text \<open>
  opening without creating changes nothing and succeeds exactly if the first word of the
  region is the magic number; otherwise the error reports the word found. The dimensions
  stored in the header are not looked at.
\<close>
theorem open_checks_magic:
  assumes "pool g m" "\<not> pc_create config"
  shows "run (open_region config g) m =
    Inr (if get64 (cache m) 0 = MAGIC then Inr \<lparr>rt_geometry = g, rt_host_id = pc_host_id config\<rparr>
         else Inl (InvalidMagic MAGIC (get64 (cache m) 0)), m)"
  using assms by (rule run_open_existing)

theorem open_checks_magic_witness:
  "run (open_region (demo_config False) demo_geometry) (demo_region zeros) =
     Inr (Inl (InvalidMagic MAGIC 0), demo_region zeros)"
  using open_checks_magic [of demo_geometry "demo_region zeros" "demo_config False"]
  by (simp add: demo_config_def MAGIC_def)

text \<open>
  a pool created on zeroed memory satisfies the log's invariant, so the session
  properties hold from it on.
\<close>
theorem fresh_pool_inv:
  assumes "pool g m" "pc_create config" "\<And>s. s < cap g \<Longrightarrow> cache m (rec_base g s) = 0"
    and "run (open_region config g) m = Inr (r, m')"
  shows "log_inv g (abs_log H g (cache m')) \<and> settled g (abs_log H g (cache m'))"
proof -
  have "cache m' = fresh_header config g (cache m)"
    using run_create [OF assms(1,2)] assms(4) by auto
  moreover have "log_inv g (abs_log H g (fresh_header config g (cache m)))"
    by (rule fresh_log_inv [OF poolD(1) [OF assms(1)]]) (rule assms(3))
  ultimately show ?thesis by (simp add: settled_def fresh_header_fields)
qed

theorem fresh_pool_inv_witness:
  "\<exists>r m'. run (open_region (demo_config True) demo_geometry) (demo_region zeros) = Inr (r, m') \<and>
     settled demo_geometry (abs_log demo_hasher demo_geometry (cache m'))"
proof -
  have c: "pc_create (demo_config True)" by (simp add: demo_config_def)
  note r = run_create [OF demo_pool(1) [of zeros] c]
  from fresh_pool_inv [OF demo_pool(1) c _ r] r show ?thesis by auto
qed

end
