(* ===== verification/CrashProps.thy ===== *)
theory CrashProps
  imports Demo
begin

text \<open>The properties about crashes and persistence.\<close>

section \<open>Flushing\<close>



section \<open>Where an operation can have written\<close>

text \<open>
  at every interruption point of recovery, whatever was evicted, only record state bytes
  and the committed tail can differ from the start: payloads, checksums, the reservation
  counter and all metrics are what they were, in the cache and (old or cached) on the media.
\<close>
theorem recovery_touches_states_only:
  assumes "crash_reach (recover H g) m p m'" "mapped m" "x \<notin> state_bytes g" "x \<notin> tail_bytes"
  shows "cache m' x = cache m x \<and> (media m' x = media m x \<or> media m' x = cache m x)"
proof -
  have "writes_within (state_bytes g \<union> tail_bytes) (recover H g)"
    by (rule recover_footprint) auto
  from crash_reach_frame [OF assms(1) this assms(2)] assms(3,4) show ?thesis
    by (auto simp: frame_def)
qed

theorem recovery_touches_states_only_witness:
  "cache (demo_region gap_bytes) 40 = gap_bytes 40 \<and>
   (media (demo_region gap_bytes) 40 = gap_bytes 40 \<or> media (demo_region gap_bytes) 40 = gap_bytes 40)"
proof -
  have "mapped (demo_region gap_bytes)" "40 \<notin> state_bytes demo_geometry" "40 \<notin> tail_bytes"
    by (auto simp: state_bytes_def rec_base_def mapped_def)
  from recovery_touches_states_only [where x = 40 and g = demo_geometry and H = demo_hasher, OF cr_refl this]
  show ?thesis by simp
qed

text \<open>
  a read can write nothing but the calling host's own counter block: at every point the
  header, every record and every other host's counters are untouched.
\<close>
theorem read_touches_own_metrics_only:
  assumes "crash_reach (read H rt index) m p m'" "mapped m"
    and "x \<notin> metrics_bytes (rt_geometry rt) (rt_host_id rt)"
  shows "cache m' x = cache m x \<and> (media m' x = media m x \<or> media m' x = cache m x)"
  using crash_reach_frame [OF assms(1) read_footprint [OF order_refl] assms(2)] assms(3)
  by (auto simp: frame_def)

theorem read_touches_own_metrics_only_witness:
  "\<exists>m'. crash_reach (read demo_hasher demo_runtime 0) (demo_region zeros)
      (Ret (Inl (IndexOutOfBounds 0 0))) m' \<and> cache m' 64 = 0"
proof -
  have "run (read demo_hasher demo_runtime 0) (demo_region zeros) =
      Inr (Inl (IndexOutOfBounds 0 0), demo_region zeros)"
    by (simp add: read_def committed_tail_def Let_def run_LoadU64 demo_region_def)
  from run_crash_reach [OF this] read_touches_own_metrics_only [OF run_crash_reach [OF this], of 64]
  show ?thesis by (auto simp: metrics_bytes_def met_base_def)
qed

section \<open>Crashes during append\<close>

text \<open>
  C2: an append is atomic under power loss on x86-64. At every interruption point, whatever
  was evicted, the slot being written is on the media either not committed or the complete
  new record, and every other slot whose bytes were persistent is on the media what it was.
\<close>
theorem append_crash_atomic:
  assumes "pool g m" "mm_arch m = X86_64" "rt_geometry rt = g" "length data \<le> psz g"
    and "r = get64 (cache m) 40" "unat r < cap g"
    and "cache m (rec_base g (unat r)) \<noteq> STATE_COMMITTED" "media m (rec_base g (unat r)) \<noteq> STATE_COMMITTED"
    and "crash_reach (append H rt term data) m p m'"
  shows "(committed_state (slot_view H g (media m') (unat r)) \<longrightarrow>
      slot_view H g (media m') (unat r) = SCommitted (new_record (rt_host_id rt) r term data)) \<and>
    (\<forall>s<cap g. s \<noteq> unat r \<longrightarrow> (\<forall>x\<in>rec_region g s. media m x = cache m x) \<longrightarrow>
      slot_view H g (media m') s = slot_view H g (cache m) s)"
proof -
  have safe: "crash_safe H g (other_bytes rt) m (unat r) (new_record (rt_host_id rt) r term data) m'"
    using crash_specD(1) [OF crash_append [OF assms(1-8)] refl assms(9)] .
  with crash_safe_others [OF poolD(1) [OF assms(1)] safe assms(3) _ assms(6)] show ?thesis
    by (auto simp: crash_safe_def)
qed

theorem append_crash_atomic_witness:
  "\<exists>p m'. crash_reach (append demo_hasher demo_runtime 7 [1]) (demo_region zeros) p m' \<and>
     slot_view demo_hasher demo_geometry (media m') 1 = SFree"
proof -
  have "\<forall>s<cap demo_geometry. s \<noteq> unat (0 :: u64) \<longrightarrow>
      (\<forall>x\<in>rec_region demo_geometry s. media (demo_region zeros) x = cache (demo_region zeros) x) \<longrightarrow>
      slot_view demo_hasher demo_geometry (media (demo_region zeros)) s =
      slot_view demo_hasher demo_geometry (cache (demo_region zeros)) s"
    by (rule conjunct2 [OF append_crash_atomic [OF _ _ _ _ _ _ _ _ crash_reach.cr_refl [of "append demo_hasher demo_runtime 7 [1]"]]]) (simp_all add: STATE_COMMITTED_def)
  then have "slot_view demo_hasher demo_geometry (media (demo_region zeros)) 1 = SFree"
    by (simp add: slot_view_zero)
  then show ?thesis using cr_refl by blast
qed

text \<open>
  an acknowledged append is durable on x86-64: when \<open>append\<close> has returned, it has
  returned the index after the reserved slot, and the media holds the complete record, so it
  survives a power loss at that moment.
\<close>
theorem append_durable:
  assumes "pool g m" "mm_arch m = X86_64" "rt_geometry rt = g" "length data \<le> psz g"
    and "r = get64 (cache m) 40" "unat r < cap g"
    and "cache m (rec_base g (unat r)) \<noteq> STATE_COMMITTED" "media m (rec_base g (unat r)) \<noteq> STATE_COMMITTED"
    and "crash_reach (append H rt term data) m (Ret res) m'"
  shows "res = Inr (r + 1) \<and>
    slot_view H g (cache (crash m')) (unat r) = SCommitted (new_record (rt_host_id rt) r term data)"
  using crash_specD(2) [OF crash_append [OF assms(1-8)] refl assms(9)] by (simp add: durable_def)

theorem append_durable_witness:
  "\<exists>m'. crash_reach (append demo_hasher demo_runtime 7 [1]) (demo_region zeros) (Ret (Inr 1)) m' \<and>
     slot_view demo_hasher demo_geometry (cache (crash m')) 0 = SCommitted (new_record 0 0 7 [1])"
proof -
  obtain res m' where run: "run (append demo_hasher demo_runtime 7 [1]) (demo_region zeros) = Inr (res, m')"
    using sim_append [of demo_geometry "demo_region zeros" demo_runtime demo_hasher 7 "[1]"]
    by (auto simp: sim_def)
  have "res = Inr (0 + 1) \<and> slot_view demo_hasher demo_geometry (cache (crash m')) (unat (0 :: u64)) =
      SCommitted (new_record (rt_host_id demo_runtime) 0 7 [1])"
    by (rule append_durable [OF _ _ _ _ _ _ _ _ run_crash_reach [OF run]]) (simp_all add: STATE_COMMITTED_def)
  with run_crash_reach [OF run] show ?thesis by auto
qed

text \<open>
  C14: recovery after a power loss during an append runs without a fault, and the log it
  leaves holds every committed record that was persistent before, while the interrupted
  record is present completely or not at all.
\<close>
theorem append_crash_recover:
  assumes "pool g m" "mm_arch m = X86_64" "rt_geometry rt = g" "length data \<le> psz g"
    and "r = get64 (cache m) 40" "unat r < cap g" "media m = cache m"
    and "cache m (rec_base g (unat r)) \<noteq> STATE_COMMITTED"
    and "crash_reach (append H rt term data) m p m'"
  shows "\<exists>rep m2. run (recover H g) (crash m') = Inr (rep, m2) \<and>
    (\<forall>s<cap g. s \<noteq> unat r \<longrightarrow> (\<forall>e. slot_view H g (cache m2) s = SCommitted e \<longleftrightarrow>
        slot_view H g (cache m) s = SCommitted e)) \<and>
    (\<forall>e. slot_view H g (cache m2) (unat r) = SCommitted e \<longrightarrow> e = new_record (rt_host_id rt) r term data)"
proof -
  have st: "media m (rec_base g (unat r)) \<noteq> STATE_COMMITTED" using assms(7,8) by simp
  have safe: "crash_safe H g (other_bytes rt) m (unat r) (new_record (rt_host_id rt) r term data) m'"
    using crash_specD(1) [OF crash_append [OF assms(1-6,8) st] refl assms(9)] .
  have others: "slot_view H g (media m') s = slot_view H g (cache m) s" if "s < cap g" "s \<noteq> unat r" for s
    using crash_safe_others [OF poolD(1) [OF assms(1)] safe assms(3) that(1) assms(6) that(2)] assms(7) by simp
  have new: "e = new_record (rt_host_id rt) r term data"
    if "slot_view H g (media m') (unat r) = SCommitted e" for e
    using safe that by (simp add: crash_safe_def)
  have pm': "pool g m'" using crash_reach_pool [OF assms(9,1)] .
  obtain rep m2 where m2: "run (recover H g) (crash m') = Inr (rep, m2)"
    "\<forall>t<cap g. \<forall>e. slot_view H g (cache m2) t = SCommitted e \<longleftrightarrow> slot_view H g (media m') t = SCommitted e"
    using recovered_slot [OF pm' assms(6), of H] by blast
  have "slot_view H g (cache m2) s = SCommitted e \<longleftrightarrow> slot_view H g (cache m) s = SCommitted e"
    if "s < cap g" "s \<noteq> unat r" for s e
    using m2(2) others [OF that] that(1) by simp
  moreover have "e = new_record (rt_host_id rt) r term data"
    if "slot_view H g (cache m2) (unat r) = SCommitted e" for e
    using m2(2) new that assms(6) by blast
  ultimately show ?thesis using m2(1) by blast
qed

theorem append_crash_recover_witness:
  "\<exists>rep m2. run (recover demo_hasher demo_geometry) (crash (demo_region zeros)) = Inr (rep, m2) \<and>
    (\<forall>e. slot_view demo_hasher demo_geometry (cache m2) 0 = SCommitted e \<longrightarrow> e = new_record 0 0 7 [1])"
proof -
  have "\<exists>rep m2. run (recover demo_hasher demo_geometry) (crash (demo_region zeros)) = Inr (rep, m2) \<and>
    (\<forall>s<cap demo_geometry. s \<noteq> unat (0 :: u64) \<longrightarrow>
      (\<forall>e. slot_view demo_hasher demo_geometry (cache m2) s = SCommitted e \<longleftrightarrow>
        slot_view demo_hasher demo_geometry (cache (demo_region zeros)) s = SCommitted e)) \<and>
    (\<forall>e. slot_view demo_hasher demo_geometry (cache m2) (unat (0 :: u64)) = SCommitted e \<longrightarrow>
      e = new_record (rt_host_id demo_runtime) 0 7 [1])"
    by (rule append_crash_recover [OF _ _ _ _ _ _ _ _ crash_reach.cr_refl [of "append demo_hasher demo_runtime 7 [1]"]]) (simp_all add: STATE_COMMITTED_def)
  then show ?thesis by auto
qed

text \<open>
  C24: acknowledged records can be lost. The reservation counter is never flushed, so from any
  persistent pool with room there is a run in which an append is acknowledged and durable,
  the power fails, recovery finds the record, and the next append takes the same slot,
  returns the same index and overwrites it.
\<close>
theorem acknowledged_record_overwritten:
  assumes "pool g m" "line_aligned m" "mm_arch m = X86_64" "media m = cache m"
    and "rt_geometry rt = g" "unat (rt_host_id rt) < hosts g"
    and "r = get64 (cache m) 40" "unat r < cap g" "cache m (rec_base g (unat r)) \<noteq> STATE_COMMITTED"
    and "length d1 \<le> psz g" "length d2 \<le> psz g"
  shows "\<exists>m1 rep m2 m3.
     run (append H rt t1 d1) m = Inr (Inr (r + 1), m1) \<and>
     run (runtime_recover H rt) (crash m1) = Inr (rep, m2) \<and>
     slot_view H g (cache m2) (unat r) = SCommitted (new_record (rt_host_id rt) r t1 d1) \<and>
     run (append H rt t2 d2) m2 = Inr (Inr (r + 1), m3) \<and>
     slot_view H g (cache m3) (unat r) = SCommitted (new_record (rt_host_id rt) r t2 d2)"
  using assms by (rule overwritten_after_crash)

theorem acknowledged_record_overwritten_witness:
  "\<exists>m1 rep m2 m3.
     run (append demo_hasher demo_runtime 7 [1]) (demo_region zeros) = Inr (Inr 1, m1) \<and>
     run (runtime_recover demo_hasher demo_runtime) (crash m1) = Inr (rep, m2) \<and>
     run (append demo_hasher demo_runtime 8 [2]) m2 = Inr (Inr 1, m3) \<and>
     slot_view demo_hasher demo_geometry (cache m3) 0 = SCommitted (new_record 0 0 8 [2])"
  using acknowledged_record_overwritten [of demo_geometry "demo_region zeros" demo_runtime 0 "[1]" "[2]" demo_hasher 7 8]
  by (auto simp: STATE_COMMITTED_def)

end
