(* ===== verification/CoreProps.thy ===== *)
theory CoreProps
  imports Demo
begin

text \<open>The properties of the layout, the errors and the byte encodings.\<close>






text \<open>
  the digest stored with a record accepts exactly its own term, index and payload digest:
  \<open>verify\<close> of what \<open>compute\<close> gave succeeds, a stored value with a bit set in the upper half
  is always rejected, and two stored values never both verify.
\<close>
theorem checksum_verify:
  "verify H term index payload (compute H term index payload) \<and>
   (verify H term index payload c \<and> verify H term index payload c' \<longrightarrow> c = c') \<and>
   (2 ^ 32 \<le> unat c \<longrightarrow> \<not> verify H term index payload c)"
  using compute_upper_bits [of H "term" index payload] by (auto simp: verify_def)

theorem checksum_verify_witness:
  "verify demo_hasher 7 1 [1, 2] (compute demo_hasher 7 1 [1, 2]) \<and>
   \<not> verify demo_hasher 7 1 [1, 2] (2 ^ 40)"
  using checksum_verify [of demo_hasher 7 1 "[1, 2]" "2 ^ 40"] by simp

text \<open>
  the numbers of an error can be read back from its message: different capacities or
  slots give different \<open>PoolFull\<close> messages once the other number is fixed, and likewise for
  \<open>ChecksumMismatch\<close>; the decimal printer has a parser that inverts it.
\<close>
theorem error_message_numbers:
  "parse_dec (show_word (w :: 'a::len word)) = unat w \<and>
   (fence_error_display (ChecksumMismatch i) = fence_error_display (ChecksumMismatch j) \<longleftrightarrow> i = j) \<and>
   (fence_error_display (PoolFull c s) = fence_error_display (PoolFull c t) \<longleftrightarrow> s = t) \<and>
   (fence_error_display (PoolFull c s) = fence_error_display (PoolFull d s) \<longleftrightarrow> c = d)"
  by (simp add: show_word_def show_dec_inj word_unat_eq_iff)

end
