(* ===== verification/Utf8.thy ===== *)
theory Utf8
  imports Prelude
begin

text \<open>
  Rust strings as their bytes. \<open>utf8_step\<close> is one round of the standard library's UTF-8
  scan: whether the first character is well formed, and how many bytes it (or the rejected
  prefix) takes. \<open>from_utf8\<close> accepts what has only well-formed characters,
  \<open>from_utf8_lossy\<close> puts U+FFFD in the place of each rejected prefix.
\<close>

definition continuation :: "u8 \<Rightarrow> bool" where
  "continuation b \<longleftrightarrow> 0x80 \<le> b \<and> b \<le> 0xBF"

text \<open>Past the end the scan sees a zero byte.\<close>

definition byte_at :: "u8 list \<Rightarrow> nat \<Rightarrow> u8" where
  "byte_at bs i = (if i < length bs then bs ! i else 0)"

definition second_of_3 :: "u8 \<Rightarrow> u8 \<Rightarrow> bool" where
  "second_of_3 a b \<longleftrightarrow>
     (a = 0xE0 \<and> 0xA0 \<le> b \<and> b \<le> 0xBF) \<or> (0xE1 \<le> a \<and> a \<le> 0xEC \<and> continuation b) \<or>
     (a = 0xED \<and> 0x80 \<le> b \<and> b \<le> 0x9F) \<or> (0xEE \<le> a \<and> a \<le> 0xEF \<and> continuation b)"

definition second_of_4 :: "u8 \<Rightarrow> u8 \<Rightarrow> bool" where
  "second_of_4 a b \<longleftrightarrow>
     (a = 0xF0 \<and> 0x90 \<le> b \<and> b \<le> 0xBF) \<or> (0xF1 \<le> a \<and> a \<le> 0xF3 \<and> continuation b) \<or>
     (a = 0xF4 \<and> 0x80 \<le> b \<and> b \<le> 0x8F)"

definition utf8_char_width :: "u8 \<Rightarrow> nat" where
  "utf8_char_width a =
     (if a < 0x80 then 1
      else if 0xC2 \<le> a \<and> a \<le> 0xDF then 2
      else if 0xE0 \<le> a \<and> a \<le> 0xEF then 3
      else if 0xF0 \<le> a \<and> a \<le> 0xF4 then 4
      else 0)"

definition utf8_char :: "u8 \<Rightarrow> u8 \<Rightarrow> u8 \<Rightarrow> u8 \<Rightarrow> bool \<times> nat" where
  "utf8_char a b c d =
     (let w = utf8_char_width a in
      if w = 1 then (True, 1)
      else if w = 2 then (if continuation b then (True, 2) else (False, 1))
      else if w = 3 then
        (if \<not> second_of_3 a b then (False, 1)
         else if \<not> continuation c then (False, 2) else (True, 3))
      else if w = 4 then
        (if \<not> second_of_4 a b then (False, 1)
         else if \<not> continuation c then (False, 2)
         else if \<not> continuation d then (False, 3) else (True, 4))
      else (False, 1))"

definition utf8_step :: "u8 list \<Rightarrow> bool \<times> nat" where
  "utf8_step bs = utf8_char (byte_at bs 0) (byte_at bs 1) (byte_at bs 2) (byte_at bs 3)"

lemma utf8_step_pos: "0 < snd (utf8_step bs)"
  by (simp add: utf8_step_def utf8_char_def Let_def)

function utf8_valid :: "u8 list \<Rightarrow> bool" where
  "utf8_valid bs =
     (if bs = [] then True
      else fst (utf8_step bs) \<and> utf8_valid (drop (snd (utf8_step bs)) bs))"
  by pat_completeness auto
termination
  by (relation "measure length") (use utf8_step_pos in \<open>auto simp: diff_less\<close>)

function utf8_lossy :: "u8 list \<Rightarrow> u8 list" where
  "utf8_lossy bs =
     (if bs = [] then []
      else (if fst (utf8_step bs) then take (snd (utf8_step bs)) bs else [0xEF, 0xBF, 0xBD]) @
           utf8_lossy (drop (snd (utf8_step bs)) bs))"
  by pat_completeness auto
termination
  by (relation "measure length") (use utf8_step_pos in \<open>auto simp: diff_less\<close>)

declare utf8_valid.simps [simp del] utf8_lossy.simps [simp del]

lemma utf8_Nil [simp]: "utf8_valid []" "utf8_lossy [] = []"
  by (subst utf8_valid.simps utf8_lossy.simps, simp)+

lemma utf8_lossy_valid: "utf8_valid bs \<Longrightarrow> utf8_lossy bs = bs"
proof (induction bs rule: utf8_valid.induct)
  case (1 bs)
  show ?case
  proof (cases "bs = []")
    case False
    with "1.prems" have "fst (utf8_step bs)" "utf8_valid (drop (snd (utf8_step bs)) bs)"
      by (subst (asm) utf8_valid.simps, simp)+
    with "1.IH" [OF False] False show ?thesis by (subst utf8_lossy.simps) simp
  qed simp
qed

text \<open>A character's step looks at its own bytes only.\<close>

lemma not_continuation_0 [simp]: "\<not> continuation 0" "\<not> second_of_3 a 0" "\<not> second_of_4 a 0"
  by (simp_all add: continuation_def second_of_3_def second_of_4_def)

lemma utf8_char_nonzero:
  assumes "fst (utf8_char a b c d)"
  shows "1 < snd (utf8_char a b c d) \<Longrightarrow> b \<noteq> 0" "2 < snd (utf8_char a b c d) \<Longrightarrow> c \<noteq> 0"
    "3 < snd (utf8_char a b c d) \<Longrightarrow> d \<noteq> 0" "snd (utf8_char a b c d) \<le> 4"
  using assms by (auto simp: utf8_char_def Let_def split: if_splits)

lemma byte_at_bound: "byte_at bs i \<noteq> 0 \<Longrightarrow> i < length bs"
  by (simp add: byte_at_def split: if_splits)

lemma utf8_step_bound:
  assumes "bs \<noteq> []" "fst (utf8_step bs)"
  shows "snd (utf8_step bs) \<le> length bs"
proof -
  let ?n = "snd (utf8_step bs)"
  note nz = utf8_char_nonzero [OF assms(2) [unfolded utf8_step_def], folded utf8_step_def]
  have "0 < length bs" using assms(1) by simp
  moreover have "i < length bs" if "0 < i" "i < ?n" for i
  proof -
    from that nz(4) consider "i = 1" | "i = 2" | "i = 3" by linarith
    then show ?thesis using that nz(1-3) byte_at_bound by cases auto
  qed
  ultimately have "?n - 1 < length bs" by (cases "?n \<le> 1") auto
  then show ?thesis by linarith
qed

lemma utf8_char_cong:
  "fst (utf8_char a b c d) \<Longrightarrow> (1 < snd (utf8_char a b c d) \<Longrightarrow> b' = b) \<Longrightarrow>
   (2 < snd (utf8_char a b c d) \<Longrightarrow> c' = c) \<Longrightarrow> (3 < snd (utf8_char a b c d) \<Longrightarrow> d' = d) \<Longrightarrow>
   utf8_char a b' c' d' = utf8_char a b c d"
  by (simp add: utf8_char_def Let_def split: if_splits)

lemma utf8_step_append:
  assumes "bs \<noteq> []" "fst (utf8_step bs)"
  shows "utf8_step (take (snd (utf8_step bs)) bs @ ys) = utf8_step bs"
proof -
  have b: "byte_at (take (snd (utf8_step bs)) bs @ ys) i = byte_at bs i" if "i < snd (utf8_step bs)" for i
    using that utf8_step_bound [OF assms] by (simp add: byte_at_def nth_append)
  show ?thesis
    unfolding utf8_step_def [of "take _ _ @ _"] utf8_step_def [of bs, symmetric] b [OF utf8_step_pos]
    unfolding utf8_step_def [of bs]
    using assms(2) b unfolding utf8_step_def [of bs] by (intro utf8_char_cong) auto
qed

lemma utf8_step_replacement: "utf8_step ([0xEF, 0xBF, 0xBD] @ ys) = (True, 3)"
  by (simp add: utf8_step_def utf8_char_def Let_def utf8_char_width_def byte_at_def second_of_3_def
      continuation_def)

lemma utf8_valid_lossy: "utf8_valid (utf8_lossy bs)"
proof (induction bs rule: utf8_lossy.induct)
  case (1 bs)
  show ?case
  proof (cases "bs = []")
    case False
    let ?rest = "utf8_lossy (drop (snd (utf8_step bs)) bs)"
    show ?thesis
    proof (cases "fst (utf8_step bs)")
      case True
      have step: "utf8_step (take (snd (utf8_step bs)) bs @ ?rest) = utf8_step bs"
        by (rule utf8_step_append [OF False True])
      have "length (take (snd (utf8_step bs)) bs) = snd (utf8_step bs)"
        using utf8_step_bound [OF False True] by simp
      then have "utf8_valid (take (snd (utf8_step bs)) bs @ ?rest)"
        using "1.IH" [OF False] True step utf8_step_pos [of bs] False
        by (subst utf8_valid.simps) simp
      with False True show ?thesis by (subst utf8_lossy.simps) simp
    next
      case False': False
      have "utf8_valid ([0xEF, 0xBF, 0xBD] @ ?rest)"
        using "1.IH" [OF False] by (subst utf8_valid.simps) (simp only: utf8_step_replacement, simp)
      with False False' show ?thesis by (subst utf8_lossy.simps) simp
    qed
  qed simp
qed

text \<open>ASCII text is well formed.\<close>

lemma utf8_valid_ascii: "list_all (\<lambda>b. b < 0x80) bs \<Longrightarrow> utf8_valid bs"
proof (induction bs)
  case (Cons b bs)
  have "utf8_step (b # bs) = (True, 1)"
    using Cons.prems by (simp add: utf8_step_def utf8_char_def Let_def utf8_char_width_def byte_at_def)
  with Cons show ?case by (subst utf8_valid.simps) simp
qed simp

definition str :: "string \<Rightarrow> u8 list" where
  "str s = map of_char s"

end
