(* ===== verification/Catalog.thy ===== *)
theory Catalog
  imports Simulation Utf8
begin

text \<open>
  \<open>crates/fence-alloc/src/catalog.rs\<close>: the region catalog, a header and 256 entries of one
  cacheline each. Names are the bytes of a Rust string.
\<close>

definition ALLOC_MAGIC :: u64 where "ALLOC_MAGIC = 0x46454E43455F414C"
definition CATALOG_HEADER_SIZE :: usize where "CATALOG_HEADER_SIZE = 64"
definition CATALOG_ENTRY_SIZE :: usize where "CATALOG_ENTRY_SIZE = 64"
definition MAX_NAME_LEN :: nat where "MAX_NAME_LEN = 24"
definition MAX_REGIONS :: usize where "MAX_REGIONS = 256"

definition CAT_HDR_MAGIC :: usize where "CAT_HDR_MAGIC = 0"
definition CAT_HDR_REGION_COUNT :: usize where "CAT_HDR_REGION_COUNT = 8"
definition CAT_HDR_TOTAL_SIZE :: usize where "CAT_HDR_TOTAL_SIZE = 16"
definition CAT_HDR_DATA_START :: usize where "CAT_HDR_DATA_START = 24"

definition ENT_STATE :: usize where "ENT_STATE = 0"
definition ENT_NAME_LEN :: usize where "ENT_NAME_LEN = 2"
definition ENT_NAME :: usize where "ENT_NAME = 4"
definition ENT_OFFSET :: usize where "ENT_OFFSET = 32"
definition ENT_SIZE :: usize where "ENT_SIZE = 40"
definition ENT_EPOCH :: usize where "ENT_EPOCH = 48"

lemmas catalog_consts [simp] =
  CATALOG_HEADER_SIZE_def CATALOG_ENTRY_SIZE_def MAX_NAME_LEN_def MAX_REGIONS_def
  CAT_HDR_MAGIC_def CAT_HDR_REGION_COUNT_def CAT_HDR_TOTAL_SIZE_def CAT_HDR_DATA_START_def
  ENT_STATE_def ENT_NAME_LEN_def ENT_NAME_def ENT_OFFSET_def ENT_SIZE_def ENT_EPOCH_def

datatype region_state = Free | Allocating | Active | Freeing

fun region_state_as_u8 :: "region_state \<Rightarrow> u8" where
  "region_state_as_u8 Free = 0"
| "region_state_as_u8 Allocating = 1"
| "region_state_as_u8 Active = 2"
| "region_state_as_u8 Freeing = 3"

definition region_state_from_u8 :: "u8 \<Rightarrow> region_state option" where
  "region_state_from_u8 val =
     (if val = 0 then Some Free
      else if val = 1 then Some Allocating
      else if val = 2 then Some Active
      else if val = 3 then Some Freeing
      else None)"

text \<open>\<open>from_u8(b).unwrap_or(Free)\<close>.\<close>

definition decode_state :: "u8 \<Rightarrow> region_state" where
  "decode_state b = (case region_state_from_u8 b of Some s \<Rightarrow> s | None \<Rightarrow> Free)"

lemma region_state_roundtrip [simp]:
  "region_state_from_u8 (region_state_as_u8 s) = Some s" "decode_state (region_state_as_u8 s) = s"
  by (cases s; simp add: region_state_from_u8_def decode_state_def)+

record catalog_header =
  ch_magic :: u64
  ch_region_count :: u64
  ch_total_pool_size :: u64
  ch_data_start_offset :: u64

record catalog_entry =
  ce_state :: region_state
  ce_name :: "u8 list"
  ce_offset :: u64
  ce_size :: u64
  ce_epoch :: u64

definition entry_offset :: "usize \<Rightarrow> usize \<Rightarrow> usize" where
  "entry_offset base index = base + CATALOG_HEADER_SIZE + index * CATALOG_ENTRY_SIZE"

definition read_entry :: "usize \<Rightarrow> usize \<Rightarrow> catalog_entry prog" where
  "read_entry base index =
     (let offset = entry_offset base index in
      LoadU8 (offset + ENT_STATE) Acquire (\<lambda>state_byte.
      let state = decode_state state_byte in
      Read (offset + ENT_NAME_LEN) 2 (\<lambda>buf.
      let name_len = unat (from_le buf :: u16);
          rest = (\<lambda>name.
            LoadU64 (offset + ENT_OFFSET) Relaxed (\<lambda>region_offset.
            LoadU64 (offset + ENT_SIZE) Relaxed (\<lambda>size.
            LoadU64 (offset + ENT_EPOCH) Relaxed (\<lambda>created_epoch.
            Ret \<lparr>ce_state = state, ce_name = name, ce_offset = region_offset, ce_size = size,
                 ce_epoch = created_epoch\<rparr>)))) in
      if name_len > 0 \<and> name_len \<le> MAX_NAME_LEN then
        Read (offset + ENT_NAME) name_len (\<lambda>name. rest (utf8_lossy name))
      else rest [])))"

definition write_entry :: "usize \<Rightarrow> usize \<Rightarrow> catalog_entry \<Rightarrow> unit prog" where
  "write_entry base index entry =
     (let offset = entry_offset base index;
          name_bytes = ce_name entry;
          name_len = min (length name_bytes) MAX_NAME_LEN in
      Write (offset + ENT_NAME_LEN) (le_bytes 2 (word_of_nat name_len :: u16)) (
      (if name_len > 0 then Write (offset + ENT_NAME) (take name_len name_bytes) else id) (
      StoreU64 (offset + ENT_OFFSET) (ce_offset entry) Relaxed (
      StoreU64 (offset + ENT_SIZE) (ce_size entry) Relaxed (
      StoreU64 (offset + ENT_EPOCH) (ce_epoch entry) Relaxed (
      Flush offset CATALOG_ENTRY_SIZE (
      StoreU8 (offset + ENT_STATE) (region_state_as_u8 (ce_state entry)) Release (
      Flush offset 64 (Ret ())))))))))"

section \<open>The catalog in a region\<close>

abbreviation ent_base :: "usize \<Rightarrow> nat \<Rightarrow> nat" where
  "ent_base base i \<equiv> unat base + 64 + 64 * i"

definition entry_name :: "bytes \<Rightarrow> nat \<Rightarrow> u8 list" where
  "entry_name c b =
     (let n = unat (from_le (peek c (b + 2) 2) :: u16) in
      if 0 < n \<and> n \<le> 24 then utf8_lossy (peek c (b + 4) n) else [])"

definition entry_view :: "usize \<Rightarrow> bytes \<Rightarrow> nat \<Rightarrow> catalog_entry" where
  "entry_view base c i =
     (let b = ent_base base i in
      \<lparr>ce_state = decode_state (c b), ce_name = entry_name c b, ce_offset = get64 c (b + 32),
       ce_size = get64 c (b + 40), ce_epoch = get64 c (b + 48)\<rparr>)"

record catalog =
  c_magic :: u64
  c_count :: u64
  c_total :: u64
  c_data_start :: u64
  c_entries :: "catalog_entry list"

definition abs_catalog :: "usize \<Rightarrow> bytes \<Rightarrow> catalog" where
  "abs_catalog base c =
     \<lparr>c_magic = get64 c (unat base), c_count = get64 c (unat base + 8),
      c_total = get64 c (unat base + 16), c_data_start = get64 c (unat base + 24),
      c_entries = map (entry_view base c) [0..<256]\<rparr>"

lemma abs_catalog_sel [simp]:
  "c_magic (abs_catalog base c) = get64 c (unat base)"
  "c_count (abs_catalog base c) = get64 c (unat base + 8)"
  "c_total (abs_catalog base c) = get64 c (unat base + 16)"
  "c_data_start (abs_catalog base c) = get64 c (unat base + 24)"
  "c_entries (abs_catalog base c) = map (entry_view base c) [0..<256]"
  by (simp_all add: abs_catalog_def)

text \<open>A region with room for a catalog at \<open>base\<close>.\<close>

definition cat_region :: "usize \<Rightarrow> mmap \<Rightarrow> bool" where
  "cat_region base m \<longleftrightarrow> mapped m \<and> unat base mod 8 = 0 \<and> unat base + 16448 \<le> unat (mm_len m)"

lemma cat_region_simps [simp]:
  "cat_region base (m\<lparr>cache := c\<rparr>) = cat_region base m"
  "cat_region base (flushed m a n) = cat_region base m"
  by (simp_all add: cat_region_def mapped_def)

lemma cat_regionD:
  assumes "cat_region base m"
  shows "unat base mod 8 = 0" "unat base + 16448 \<le> unat (mm_len m)"
    "unat base + 16448 < 18446744073709551616"
  using assms unat_u64_lt [of "mm_len m"] by (auto simp: cat_region_def simp del: unat_u64_lt)

lemma unat_entry_offset:
  assumes "cat_region base m" "unat i < 256" "unat k \<le> 64"
  shows "unat (entry_offset base i + k) = ent_base base (unat i) + unat k"
  using cat_regionD(3) [OF assms(1)] assms(2,3)
  by (simp add: entry_offset_def unat_add_lt64 unat_mult_lt64)

lemma unat_entry_offset_0:
  assumes "cat_region base m" "unat i < 256"
  shows "unat (entry_offset base i) = ent_base base (unat i)"
  using unat_entry_offset [OF assms, of 0] by simp

lemma unat_header_offset:
  assumes "cat_region base m" "unat k \<le> 64"
  shows "unat (base + k) = unat base + unat k"
  using cat_regionD(3) [OF assms(1)] assms(2) by (simp add: unat_add_lt64)

lemma base_mod:
  assumes "cat_region base m" "k mod 8 = 0"
  shows "(unat base + k) mod 8 = 0" "(ent_base base i + k) mod 8 = 0"
  using cat_regionD(1) [OF assms(1)] assms(2) by presburger+

lemma run_cat_header:
  assumes "cat_region base m" "unat k + 8 \<le> 64" "unat k mod 8 = 0" "ord \<notin> {Release, AcqRel}"
  shows "run (LoadU64 (base + k) ord f) m = run (f (get64 (cache m) (unat base + unat k))) m"
  using assms cat_regionD(2) [OF assms(1)] base_mod(1) [OF assms(1,3)]
  by (subst run_LoadU64) (simp_all add: unat_header_offset [OF assms(1)])

lemma run_read_entry:
  assumes "cat_region base m" "unat i < 256"
  shows "run (read_entry base i) m = Inr (entry_view base (cache m) (unat i), m)"
proof -
  note addr = unat_entry_offset [OF assms] unat_entry_offset_0 [OF assms]
  have "ent_base base (unat i) + 64 \<le> unat (mm_len m)"
    using cat_regionD(2) [OF assms(1)] assms(2) by simp
  moreover have "(ent_base base (unat i) + 32) mod 8 = 0" "(ent_base base (unat i) + 40) mod 8 = 0"
    "(ent_base base (unat i) + 48) mod 8 = 0"
    by (rule base_mod(2) [OF assms(1)]; simp)+
  ultimately show ?thesis
    by (simp add: read_entry_def Let_def run_LoadU8 run_Read run_LoadU64 addr entry_view_def
        entry_name_def split: if_split)
qed

section \<open>Writing an entry\<close>

definition ent_region :: "usize \<Rightarrow> nat \<Rightarrow> nat set" where
  "ent_region base i = {ent_base base i..<ent_base base i + 64}"

lemma ent_region_disjoint: "i \<noteq> j \<Longrightarrow> ent_region base i \<inter> ent_region base j = {}"
  by (cases i j rule: linorder_cases) (auto simp: ent_region_def)

lemma entry_name_cong:
  assumes "\<And>x. b \<le> x \<Longrightarrow> x < b + 64 \<Longrightarrow> c' x = c x"
  shows "entry_name c' b = entry_name c b"
proof -
  have pk: "peek c' (b + k) n = peek c (b + k) n" if "k + n \<le> 64" for k n
    using that assms by (intro peek_cong) simp
  have "peek c' (b + 2) 2 = peek c (b + 2) 2" by (rule pk) simp
  then show ?thesis
    unfolding entry_name_def Let_def by (simp only:) (auto simp: pk)
qed

lemma take_min_length: "take (min (length xs) n) xs = take n xs"
  by (simp add: min_def)

lemma entry_view_cong:
  assumes "\<And>x. x \<in> ent_region base i \<Longrightarrow> c' x = c x"
  shows "entry_view base c' i = entry_view base c i"
proof -
  let ?b = "ent_base base i"
  have g: "get64 c' (?b + k) = get64 c (?b + k)" if "k + 8 \<le> 64" for k
    using that assms by (intro get64_cong) (simp add: ent_region_def)
  have "get64 c' (?b + 32) = get64 c (?b + 32)" "get64 c' (?b + 40) = get64 c (?b + 40)"
    "get64 c' (?b + 48) = get64 c (?b + 48)" by (rule g, simp)+
  moreover have "entry_name c' ?b = entry_name c ?b"
    by (rule entry_name_cong) (use assms in \<open>simp add: ent_region_def\<close>)
  moreover have "c' ?b = c ?b"
    using assms by (simp add: ent_region_def)
  ultimately show ?thesis
    unfolding entry_view_def Let_def by (simp only:)
qed

lemma abs_catalog_entry:
  assumes "i < 256" "agree_off (ent_region base i) c c'"
  shows "abs_catalog base c' =
    (abs_catalog base c)\<lparr>c_entries := (c_entries (abs_catalog base c))[i := entry_view base c' i]\<rparr>"
proof -
  have "entry_view base c' j = entry_view base c j" if "j \<noteq> i" for j
    using assms(2) ent_region_disjoint [OF that] by (intro entry_view_cong) (auto simp: agree_off_def)
  then have "map (entry_view base c') [0..<256] = (map (entry_view base c) [0..<256])[i := entry_view base c' i]"
    using assms(1) by (intro nth_equalityI) (auto simp: nth_list_update)
  moreover have hd: "get64 c' (unat base + k) = get64 c (unat base + k)" if "k \<le> 56" for k
    using that by (intro get64_agree [OF assms(2)]) (auto simp: ent_region_def)
  ultimately show ?thesis
    using hd [of 0] by (simp add: abs_catalog_def)
qed

text \<open>What can be read back of an entry that was written.\<close>

definition stored_name :: "u8 list \<Rightarrow> u8 list" where
  "stored_name name = utf8_lossy (take 24 name)"

lemma stored_name_valid: "utf8_valid name \<Longrightarrow> length name \<le> 24 \<Longrightarrow> stored_name name = name"
  by (simp add: stored_name_def utf8_lossy_valid)

definition entry_written :: "nat \<Rightarrow> catalog_entry \<Rightarrow> bytes \<Rightarrow> bytes" where
  "entry_written b e c =
     (let n = min (length (ce_name e)) 24;
          c = poke c (b + 2) (le_bytes 2 (word_of_nat n :: u16));
          c = poke c (b + 4) (take n (ce_name e));
          c = put64 c (b + 32) (ce_offset e);
          c = put64 c (b + 40) (ce_size e)
      in put64 c (b + 48) (ce_epoch e))"

lemma entry_written_agree: "agree_off (ent_region base i) c (entry_written (ent_base base i) e c)"
  unfolding entry_written_def Let_def
  by (intro agree_off_put64 agree_off_poke agree_off_refl) (auto simp: ent_region_def)

lemma entry_written_state: "entry_written b e c b = c b"
  by (simp add: entry_written_def Let_def field_simps_mem)

lemma entry_view_written:
  "entry_view base ((entry_written (ent_base base i) e c)(ent_base base i := region_state_as_u8 s)) i =
     e\<lparr>ce_state := s, ce_name := stored_name (ce_name e)\<rparr>"
proof -
  let ?b = "ent_base base i" and ?n = "min (length (ce_name e)) 24"
  let ?c = "(entry_written ?b e c)(?b := region_state_as_u8 s)"
  have n: "unat (word_of_nat ?n :: u16) = ?n"
    by (simp add: unsigned_of_nat take_bit_nat_eq_self)
  have "peek ?c (?b + 2) 2 = le_bytes 2 (word_of_nat ?n :: u16)"
    "peek ?c (?b + 4) ?n = take ?n (ce_name e)"
    "get64 ?c (?b + 32) = ce_offset e" "get64 ?c (?b + 40) = ce_size e" "get64 ?c (?b + 48) = ce_epoch e"
    by (simp_all add: entry_written_def Let_def field_simps_mem)
  moreover from this(1,2) have "entry_name ?c ?b = stored_name (ce_name e)"
    unfolding entry_name_def stored_name_def Let_def by (auto simp: n take_min_length)
  ultimately show ?thesis
    by (simp add: entry_view_def Let_def)
qed

lemma run_write_entry:
  assumes "cat_region base m" "unat i < 256"
  defines "b \<equiv> ent_base base (unat i)" and "off \<equiv> entry_offset base i"
  shows "run (prog_bind (write_entry base i e) f) m =
    run (f ()) (flushed ((flushed (m\<lparr>cache := entry_written b e (cache m)\<rparr>) off 64)
      \<lparr>cache := (entry_written b e (cache m))(b := region_state_as_u8 (ce_state e))\<rparr>) off 64)"
proof -
  note addr = unat_entry_offset [OF assms(1,2)] unat_entry_offset_0 [OF assms(1,2)]
  have "ent_base base (unat i) + 64 \<le> unat (mm_len m)"
    using cat_regionD(2) [OF assms(1)] assms(2) by simp
  moreover have "(ent_base base (unat i) + 32) mod 8 = 0" "(ent_base base (unat i) + 40) mod 8 = 0"
    "(ent_base base (unat i) + 48) mod 8 = 0"
    by (rule base_mod(2) [OF assms(1)]; simp)+
  ultimately show ?thesis
    by (cases "ce_name e = []")
      (simp_all add: write_entry_def Let_def run_StoreU8 run_Write run_StoreU64 run_Flush addr
        entry_written_def b_def off_def)
qed

end
