(* ===== verification/Allocator.thy ===== *)
theory Allocator
  imports Catalog Errors
begin

text \<open>
  \<open>crates/fence-alloc/src/{region,allocator}.rs\<close>: region handles and the operations of
  \<open>RegionAllocator\<close>. The backend the struct owns is the region the program runs on.
\<close>

section \<open>Region handles\<close>

record region_handle =
  rh_slot :: usize
  rh_name :: "u8 list"
  rh_offset :: u64
  rh_size :: u64

definition region_contains :: "region_handle \<Rightarrow> u64 \<Rightarrow> u64 \<Rightarrow> bool" where
  "region_contains h byte_offset len \<longleftrightarrow>
     byte_offset \<ge> rh_offset h \<and> byte_offset + len \<le> rh_offset h + rh_size h"

definition absolute_offset :: "region_handle \<Rightarrow> u64 \<Rightarrow> u64" where
  "absolute_offset h relative = rh_offset h + relative"

section \<open>Errors\<close>

datatype alloc_error =
    CatalogFull
  | NameExists "u8 list"
  | OutOfSpace u64 u64
  | NotFound "u8 list"
  | InvalidState string
  | Backend fence_error

definition alloc_error_from :: "fence_error \<Rightarrow> alloc_error" where
  "alloc_error_from e = Backend e"

fun alloc_error_display :: "alloc_error \<Rightarrow> u8 list" where
  "alloc_error_display CatalogFull = str (''catalog full: max '' @ show_word MAX_REGIONS @ '' regions'')"
| "alloc_error_display (NameExists name) = str ''region '' @ [0x27] @ name @ [0x27] @ str '' already exists''"
| "alloc_error_display (OutOfSpace requested available) =
     str (''out of space: requested '' @ show_word requested @ '', available '' @ show_word available)"
| "alloc_error_display (NotFound name) = str ''region '' @ [0x27] @ name @ [0x27] @ str '' not found''"
| "alloc_error_display (InvalidState detail) = str (''invalid allocator state: '' @ detail)"
| "alloc_error_display (Backend e) = str (''backend error: '' @ fence_error_display e)"

section \<open>The allocator\<close>

record region_allocator =
  ra_base :: usize
  ra_pool_size :: usize

fun init_states :: "usize \<Rightarrow> usize list \<Rightarrow> 'a prog \<Rightarrow> 'a prog" where
  "init_states base [] k = k"
| "init_states base (i # is) k =
     (let offset = entry_offset base i
      in StoreU8 (offset + ENT_STATE) (region_state_as_u8 Free) Relaxed (init_states base is k))"

definition alloc_init :: "usize \<Rightarrow> usize \<Rightarrow> (alloc_error + region_allocator) prog" where
  "alloc_init base pool_size =
     (let catalog_size = CATALOG_HEADER_SIZE + MAX_REGIONS * CATALOG_ENTRY_SIZE in
      if pool_size < catalog_size then Ret (Inl (OutOfSpace catalog_size pool_size))
      else
        let data_start = base + catalog_size in
        StoreU64 (base + CAT_HDR_MAGIC) ALLOC_MAGIC Relaxed (
        StoreU64 (base + CAT_HDR_REGION_COUNT) 0 Relaxed (
        StoreU64 (base + CAT_HDR_TOTAL_SIZE) pool_size Relaxed (
        StoreU64 (base + CAT_HDR_DATA_START) data_start Relaxed (
        Flush base CATALOG_HEADER_SIZE (
        init_states base (word_range 0 MAX_REGIONS) (
        Flush (base + CATALOG_HEADER_SIZE) (MAX_REGIONS * CATALOG_ENTRY_SIZE) (
        Ret (Inr \<lparr>ra_base = base, ra_pool_size = pool_size\<rparr>)))))))))"

definition alloc_open :: "usize \<Rightarrow> usize \<Rightarrow> (alloc_error + region_allocator) prog" where
  "alloc_open base pool_size =
     LoadU64 (base + CAT_HDR_MAGIC) Relaxed (\<lambda>magic.
       if magic \<noteq> ALLOC_MAGIC then
         Ret (Inl (InvalidState (''bad magic: expected 0x'' @ show_hex16 ALLOC_MAGIC @
                                 '', got 0x'' @ show_hex16 magic)))
       else Ret (Inr \<lparr>ra_base = base, ra_pool_size = pool_size\<rparr>))"

definition handle_of :: "usize \<Rightarrow> catalog_entry \<Rightarrow> region_handle" where
  "handle_of i entry =
     \<lparr>rh_slot = i, rh_name = ce_name entry, rh_offset = ce_offset entry, rh_size = ce_size entry\<rparr>"

fun find_loop :: "usize \<Rightarrow> u8 list \<Rightarrow> usize list \<Rightarrow> (alloc_error + region_handle) prog" where
  "find_loop base name [] = Ret (Inl (NotFound name))"
| "find_loop base name (i # is) =
     prog_bind (read_entry base i) (\<lambda>entry.
       if ce_state entry = Active \<and> ce_name entry = name then Ret (Inr (handle_of i entry))
       else find_loop base name is)"

definition find_region :: "region_allocator \<Rightarrow> u8 list \<Rightarrow> (alloc_error + region_handle) prog" where
  "find_region ra name = find_loop (ra_base ra) name (word_range 0 MAX_REGIONS)"

fun list_loop :: "usize \<Rightarrow> usize list \<Rightarrow> region_handle list \<Rightarrow> region_handle list prog" where
  "list_loop base [] regions = Ret regions"
| "list_loop base (i # is) regions =
     prog_bind (read_entry base i) (\<lambda>entry.
       list_loop base is
         (if ce_state entry = Active then regions @ [handle_of i entry] else regions))"

definition list_regions :: "region_allocator \<Rightarrow> region_handle list prog" where
  "list_regions ra = list_loop (ra_base ra) (word_range 0 MAX_REGIONS) []"

fun free_slot_loop :: "usize \<Rightarrow> usize list \<Rightarrow> usize option prog" where
  "free_slot_loop base [] = Ret None"
| "free_slot_loop base (i # is) =
     prog_bind (read_entry base i) (\<lambda>entry.
       if ce_state entry = Free then Ret (Some i) else free_slot_loop base is)"

definition find_free_slot :: "region_allocator \<Rightarrow> usize option prog" where
  "find_free_slot ra = free_slot_loop (ra_base ra) (word_range 0 MAX_REGIONS)"

fun max_end_loop :: "usize \<Rightarrow> usize list \<Rightarrow> u64 \<Rightarrow> u64 prog" where
  "max_end_loop base [] max_end = Ret max_end"
| "max_end_loop base (i # is) max_end =
     prog_bind (read_entry base i) (\<lambda>entry.
       max_end_loop base is
         (if ce_state entry = Active \<or> ce_state entry = Allocating then
            let e = ce_offset entry + ce_size entry in if e > max_end then e else max_end
          else max_end))"

definition next_free_offset :: "region_allocator \<Rightarrow> u64 \<Rightarrow> u64 prog" where
  "next_free_offset ra data_start =
     prog_bind (max_end_loop (ra_base ra) (word_range 0 MAX_REGIONS) data_start) (\<lambda>max_end.
     Ret ((max_end + 63) AND NOT 63))"

text \<open>The part of \<open>create_region\<close> after the space check.\<close>

definition commit_region ::
    "region_allocator \<Rightarrow> usize \<Rightarrow> u8 list \<Rightarrow> u64 \<Rightarrow> u64 \<Rightarrow> (alloc_error + region_handle) prog" where
  "commit_region ra slot name region_offset sz =
     (let entry = \<lparr>ce_state = Allocating, ce_name = name, ce_offset = region_offset,
                   ce_size = sz, ce_epoch = 0\<rparr> in
      prog_bind (write_entry (ra_base ra) slot entry) (\<lambda>_.
      let ent_offset = entry_offset (ra_base ra) slot in
      StoreU8 (ent_offset + ENT_STATE) (region_state_as_u8 Active) Release (
      Flush ent_offset 64 (
      LoadU64 (ra_base ra + CAT_HDR_REGION_COUNT) Relaxed (\<lambda>count.
      StoreU64 (ra_base ra + CAT_HDR_REGION_COUNT) (count + 1) Relaxed (
      Flush (ra_base ra) CATALOG_HEADER_SIZE (
      Ret (Inr \<lparr>rh_slot = slot, rh_name = name, rh_offset = region_offset, rh_size = sz\<rparr>))))))))"

definition create_region ::
    "region_allocator \<Rightarrow> u8 list \<Rightarrow> u64 \<Rightarrow> (alloc_error + region_handle) prog" where
  "create_region ra name sz =
     (if length name > MAX_NAME_LEN then
        Ret (Inl (InvalidState (''name too long: max '' @ show_dec MAX_NAME_LEN @ '' bytes'')))
      else
        prog_bind (find_region ra name) (\<lambda>found.
        case found of
          Inr _ \<Rightarrow> Ret (Inl (NameExists name))
        | Inl _ \<Rightarrow>
            prog_bind (find_free_slot ra) (\<lambda>slot_opt.
            case slot_opt of
              None \<Rightarrow> Ret (Inl CatalogFull)
            | Some slot \<Rightarrow>
                LoadU64 (ra_base ra + CAT_HDR_DATA_START) Relaxed (\<lambda>data_start.
                prog_bind (next_free_offset ra data_start) (\<lambda>region_offset.
                let pool_end = ra_base ra + ra_pool_size ra in
                if region_offset + sz > pool_end then
                  Ret (Inl (OutOfSpace sz
                    (if region_offset \<le> pool_end then pool_end - region_offset else 0)))
                else commit_region ra slot name region_offset sz)))))"

definition free_region :: "region_allocator \<Rightarrow> u8 list \<Rightarrow> (alloc_error + unit) prog" where
  "free_region ra name =
     prog_bind (find_region ra name) (\<lambda>found.
     case found of
       Inl e \<Rightarrow> Ret (Inl e)
     | Inr handle \<Rightarrow>
         let ent_offset = entry_offset (ra_base ra) (rh_slot handle) in
         StoreU8 (ent_offset + ENT_STATE) (region_state_as_u8 Freeing) Release (
         Flush ent_offset 64 (
         StoreU8 (ent_offset + ENT_STATE) (region_state_as_u8 Free) Release (
         Flush ent_offset 64 (
         LoadU64 (ra_base ra + CAT_HDR_REGION_COUNT) Relaxed (\<lambda>count.
         if count > 0 then
           StoreU64 (ra_base ra + CAT_HDR_REGION_COUNT) (count - 1) Relaxed (
           Flush (ra_base ra) CATALOG_HEADER_SIZE (Ret (Inr ())))
         else Ret (Inr ())))))))"

fun alloc_recover_loop :: "usize \<Rightarrow> usize list \<Rightarrow> usize \<Rightarrow> usize prog" where
  "alloc_recover_loop base [] fixed = Ret fixed"
| "alloc_recover_loop base (i # is) fixed =
     prog_bind (read_entry base i) (\<lambda>entry.
       if ce_state entry = Allocating \<or> ce_state entry = Freeing then
         let ent_offset = entry_offset base i in
         StoreU8 (ent_offset + ENT_STATE) (region_state_as_u8 Free) Release (
         Flush ent_offset 64 (
         alloc_recover_loop base is (fixed + 1)))
       else alloc_recover_loop base is fixed)"

definition alloc_recover :: "region_allocator \<Rightarrow> usize prog" where
  "alloc_recover ra = alloc_recover_loop (ra_base ra) (word_range 0 MAX_REGIONS) 0"

end
