(* ===== verification/AllocSpec.thy ===== *)
theory AllocSpec
  imports Allocator LogContract
begin

text \<open>
  The abstract specification of the allocator on \<open>catalog\<close>, and the simulations: each
  operation of \<open>RegionAllocator\<close> implements its specification on every region with room
  for the catalog.
\<close>

section \<open>Specification\<close>

abbreviation slots :: "usize list" where "slots \<equiv> word_range 0 MAX_REGIONS"

definition entry_at :: "catalog \<Rightarrow> usize \<Rightarrow> catalog_entry" where
  "entry_at K i = c_entries K ! unat i"

definition named :: "u8 list \<Rightarrow> catalog_entry \<Rightarrow> bool" where
  "named name e \<longleftrightarrow> ce_state e = Active \<and> ce_name e = name"

definition live :: "catalog_entry \<Rightarrow> bool" where
  "live e \<longleftrightarrow> ce_state e = Active \<or> ce_state e = Allocating"

definition find_spec :: "u8 list \<Rightarrow> catalog \<Rightarrow> alloc_error + region_handle" where
  "find_spec name K =
     (case find (\<lambda>i. named name (entry_at K i)) slots of
        Some i \<Rightarrow> Inr (handle_of i (entry_at K i))
      | None \<Rightarrow> Inl (NotFound name))"

definition list_spec :: "catalog \<Rightarrow> region_handle list" where
  "list_spec K = map (\<lambda>i. handle_of i (entry_at K i))
     (filter (\<lambda>i. ce_state (entry_at K i) = Active) slots)"

definition free_slot_spec :: "catalog \<Rightarrow> usize option" where
  "free_slot_spec K = find (\<lambda>i. ce_state (entry_at K i) = Free) slots"

definition entry_end :: "catalog_entry \<Rightarrow> u64" where
  "entry_end e = ce_offset e + ce_size e"

definition max_end_spec :: "catalog \<Rightarrow> usize list \<Rightarrow> u64 \<Rightarrow> u64" where
  "max_end_spec K is start =
     fold (\<lambda>i mx. if live (entry_at K i) then max mx (entry_end (entry_at K i)) else mx) is start"

definition align64 :: "u64 \<Rightarrow> u64" where
  "align64 x = (x + 63) AND NOT 63"

definition next_offset_spec :: "catalog \<Rightarrow> u64" where
  "next_offset_spec K = align64 (max_end_spec K slots (c_data_start K))"

definition set_entry :: "usize \<Rightarrow> catalog_entry \<Rightarrow> catalog \<Rightarrow> catalog" where
  "set_entry i e K = K\<lparr>c_entries := (c_entries K)[unat i := e]\<rparr>"

definition set_state :: "usize \<Rightarrow> region_state \<Rightarrow> catalog \<Rightarrow> catalog" where
  "set_state i s K = set_entry i ((entry_at K i)\<lparr>ce_state := s\<rparr>) K"

definition create_spec ::
    "region_allocator \<Rightarrow> u8 list \<Rightarrow> u64 \<Rightarrow> catalog \<Rightarrow> (alloc_error + region_handle) \<times> catalog" where
  "create_spec ra name sz K =
     (if length name > 24 then
        (Inl (InvalidState (''name too long: max '' @ show_dec 24 @ '' bytes'')), K)
      else case find_spec name K of Inr _ \<Rightarrow> (Inl (NameExists name), K)
      | Inl _ \<Rightarrow>
        (case free_slot_spec K of None \<Rightarrow> (Inl CatalogFull, K)
         | Some slot \<Rightarrow>
           let off = next_offset_spec K; pool_end = ra_base ra + ra_pool_size ra in
           if off + sz > pool_end then
             (Inl (OutOfSpace sz (if off \<le> pool_end then pool_end - off else 0)), K)
           else
             (Inr \<lparr>rh_slot = slot, rh_name = name, rh_offset = off, rh_size = sz\<rparr>,
              (set_entry slot \<lparr>ce_state = Active, ce_name = stored_name name, ce_offset = off,
                               ce_size = sz, ce_epoch = 0\<rparr> K)\<lparr>c_count := c_count K + 1\<rparr>)))"

definition free_spec :: "u8 list \<Rightarrow> catalog \<Rightarrow> (alloc_error + unit) \<times> catalog" where
  "free_spec name K =
     (case find_spec name K of Inl e \<Rightarrow> (Inl e, K)
      | Inr h \<Rightarrow>
        (Inr (), (set_state (rh_slot h) Free K)
                   \<lparr>c_count := if c_count K > 0 then c_count K - 1 else c_count K\<rparr>))"

definition half_done :: "catalog_entry \<Rightarrow> bool" where
  "half_done e \<longleftrightarrow> ce_state e = Allocating \<or> ce_state e = Freeing"

definition reset_entry :: "catalog_entry \<Rightarrow> catalog_entry" where
  "reset_entry e = (if half_done e then e\<lparr>ce_state := Free\<rparr> else e)"

definition alloc_repair_spec :: "catalog \<Rightarrow> catalog" where
  "alloc_repair_spec K = K\<lparr>c_entries := map reset_entry (c_entries K)\<rparr>"

definition alloc_recover_spec :: "catalog \<Rightarrow> usize \<times> catalog" where
  "alloc_recover_spec K =
     (word_of_nat (length (filter half_done (c_entries K))), alloc_repair_spec K)"

definition init_spec :: "usize \<Rightarrow> usize \<Rightarrow> catalog \<Rightarrow> (alloc_error + region_allocator) \<times> catalog" where
  "init_spec base pool_size K =
     (if pool_size < 16448 then (Inl (OutOfSpace 16448 pool_size), K)
      else (Inr \<lparr>ra_base = base, ra_pool_size = pool_size\<rparr>,
            \<lparr>c_magic = ALLOC_MAGIC, c_count = 0, c_total = pool_size, c_data_start = base + 16448,
             c_entries = map (ce_state_update (\<lambda>_. Free)) (c_entries K)\<rparr>))"

section \<open>Loops over the catalog\<close>

abbreviation asim :: "usize \<Rightarrow> mmap \<Rightarrow> 'a prog \<Rightarrow> 'a \<times> catalog \<Rightarrow> bool" where
  "asim base \<equiv> refines (cat_region base) (abs_catalog base)"

lemmas asim_Ret = refines_Ret [where ok = "cat_region base" and view = "abs_catalog base"] for base
lemmas asim_bind = refines_bind [where ok = "cat_region base" and view = "abs_catalog base"] for base

lemma slots_bound: "i \<in> set slots \<Longrightarrow> unat i < 256"
proof -
  assume "i \<in> set slots"
  then have "unat i \<in> set (map unat slots)" by simp
  then show "unat i < 256" unfolding map_unat_word_range by simp
qed

lemma distinct_slots: "distinct (map unat slots)"
  unfolding map_unat_word_range by simp

lemma entry_at_view:
  "unat i < 256 \<Longrightarrow> entry_at (abs_catalog base c) i = entry_view base c (unat i)"
  by (simp add: entry_at_def)

lemma run_find_loop:
  assumes "cat_region base m" "\<And>i. i \<in> set is \<Longrightarrow> unat i < 256"
  defines "K \<equiv> abs_catalog base (cache m)"
  shows "run (find_loop base name is) m =
    Inr (case find (\<lambda>i. named name (entry_at K i)) is of
           Some i \<Rightarrow> Inr (handle_of i (entry_at K i)) | None \<Rightarrow> Inl (NotFound name), m)"
  using assms(2) unfolding K_def
  by (induction "is")
    (simp_all add: run_bindI [OF run_read_entry [OF assms(1)]] entry_at_view named_def)

lemma run_list_loop:
  assumes "cat_region base m" "\<And>i. i \<in> set is \<Longrightarrow> unat i < 256"
  defines "K \<equiv> abs_catalog base (cache m)"
  shows "run (list_loop base is hs) m =
    Inr (hs @ map (\<lambda>i. handle_of i (entry_at K i)) (filter (\<lambda>i. ce_state (entry_at K i) = Active) is), m)"
  using assms(2) unfolding K_def
  by (induction "is" arbitrary: hs)
    (simp_all add: run_bindI [OF run_read_entry [OF assms(1)]] entry_at_view)

lemma run_free_slot_loop:
  assumes "cat_region base m" "\<And>i. i \<in> set is \<Longrightarrow> unat i < 256"
  defines "K \<equiv> abs_catalog base (cache m)"
  shows "run (free_slot_loop base is) m = Inr (find (\<lambda>i. ce_state (entry_at K i) = Free) is, m)"
  using assms(2) unfolding K_def
  by (induction "is")
    (simp_all add: run_bindI [OF run_read_entry [OF assms(1)]] entry_at_view)

lemma run_max_end_loop:
  assumes "cat_region base m" "\<And>i. i \<in> set is \<Longrightarrow> unat i < 256"
  defines "K \<equiv> abs_catalog base (cache m)"
  shows "run (max_end_loop base is mx) m = Inr (max_end_spec K is mx, m)"
  using assms(2) unfolding K_def
proof (induction "is" arbitrary: mx)
  case (Cons i "is")
  have mx: "(if e > mx then e else mx) = max mx e" for e :: u64 by (auto simp: max_def)
  show ?case
    using Cons.prems
    by (simp add: run_bindI [OF run_read_entry [OF assms(1)]] entry_at_view Cons.IH mx
        max_end_spec_def live_def entry_end_def Let_def)
qed (simp add: max_end_spec_def)

section \<open>The reading operations\<close>

lemma run_find_region:
  assumes "cat_region (ra_base ra) m"
  shows "run (find_region ra name) m = Inr (find_spec name (abs_catalog (ra_base ra) (cache m)), m)"
  unfolding find_region_def find_spec_def
  by (rule run_find_loop [OF assms slots_bound])

lemma run_list_regions:
  assumes "cat_region (ra_base ra) m"
  shows "run (list_regions ra) m = Inr (list_spec (abs_catalog (ra_base ra) (cache m)), m)"
  unfolding list_regions_def list_spec_def
  by (subst run_list_loop [OF assms slots_bound]) simp_all

lemma run_find_free_slot:
  assumes "cat_region (ra_base ra) m"
  shows "run (find_free_slot ra) m = Inr (free_slot_spec (abs_catalog (ra_base ra) (cache m)), m)"
  unfolding find_free_slot_def free_slot_spec_def
  by (rule run_free_slot_loop [OF assms slots_bound])

lemma run_next_free_offset:
  assumes "cat_region (ra_base ra) m"
  shows "run (next_free_offset ra (get64 (cache m) (unat (ra_base ra) + 24))) m =
    Inr (next_offset_spec (abs_catalog (ra_base ra) (cache m)), m)"
  unfolding next_free_offset_def
  by (simp add: run_bindI [OF run_max_end_loop [OF assms slots_bound]] next_offset_spec_def align64_def)

lemma run_alloc_open:
  assumes "cat_region base m"
  shows "run (alloc_open base pool_size) m =
    Inr (if get64 (cache m) (unat base) = ALLOC_MAGIC
         then Inr \<lparr>ra_base = base, ra_pool_size = pool_size\<rparr>
         else Inl (InvalidState (''bad magic: expected 0x'' @ show_hex16 ALLOC_MAGIC @
                                 '', got 0x'' @ show_hex16 (get64 (cache m) (unat base)))), m)"
  unfolding alloc_open_def
  by (subst run_cat_header [OF assms]) simp_all

section \<open>State changes\<close>

lemma entry_state_agree: "agree_off (ent_region base i) c (c(ent_base base i := v))"
  by (intro agree_off_upd agree_off_refl) (simp add: ent_region_def)

lemma entry_name_state: "entry_name (c(b := v)) b = entry_name c b"
  by (simp add: entry_name_def Let_def peek_upd_disjoint)

lemma entry_view_state:
  "entry_view base (c(ent_base base i := region_state_as_u8 s)) i = (entry_view base c i)\<lparr>ce_state := s\<rparr>"
proof -
  let ?b = "ent_base base i"
  have "get64 (c(?b := v)) (?b + k) = get64 c (?b + k)" if "0 < k" for k v
    using that by (simp add: get64_upd_disjoint)
  then have "get64 (c(?b := v)) (?b + 32) = get64 c (?b + 32)" "get64 (c(?b := v)) (?b + 40) = get64 c (?b + 40)"
    "get64 (c(?b := v)) (?b + 48) = get64 c (?b + 48)" for v
    by (simp_all add: get64_upd_disjoint)
  then show ?thesis
    unfolding entry_view_def Let_def
    by (simp only: entry_name_state fun_upd_same region_state_roundtrip catalog_entry.simps)
qed

lemma abs_set_state:
  assumes "unat i < 256"
  shows "abs_catalog base (c(ent_base base (unat i) := region_state_as_u8 s)) =
    set_state i s (abs_catalog base c)"
  using abs_catalog_entry [OF assms entry_state_agree] assms
  by (simp add: set_state_def set_entry_def entry_at_view entry_view_state)

lemma asim_set_state:
  assumes "cat_region base m" "unat i < 256" "abs_catalog base (cache m) = K"
    and "\<And>m'. cat_region base m' \<Longrightarrow> abs_catalog base (cache m') = set_state i s K \<Longrightarrow> asim base m' k r"
    and "ord \<notin> {Acquire, AcqRel}"
  shows "asim base m (StoreU8 (entry_offset base i) (region_state_as_u8 s) ord
           (Flush (entry_offset base i) 64 k)) r"
proof -
  let ?b = "ent_base base (unat i)"
  let ?m = "flushed (m\<lparr>cache := (cache m)(?b := region_state_as_u8 s)\<rparr>) (entry_offset base i) 64"
  have "?b + 64 \<le> unat (mm_len m)"
    using cat_regionD(2) [OF assms(1)] assms(2) by simp
  then have run0: "run (StoreU8 (entry_offset base i) (region_state_as_u8 s) ord
           (Flush (entry_offset base i) 64 k)) m = run k ?m"
    using assms(5)
    by (simp add: run_StoreU8 run_Flush unat_entry_offset_0 [OF assms(1,2)])
  have "asim base ?m k r"
    by (rule assms(4)) (use assms(1-3) in \<open>simp_all add: abs_set_state\<close>)
  then show ?thesis by (intro refines_run [OF run0]) simp_all
qed

text \<open>Storing the region count.\<close>

lemma abs_set_count:
  "abs_catalog base (put64 c (unat base + 8) v) = (abs_catalog base c)\<lparr>c_count := v\<rparr>"
proof -
  have "entry_view base (put64 c (unat base + 8) v) i = entry_view base c i" for i
    by (rule entry_view_cong) (simp add: ent_region_def put64_out)
  then show ?thesis
    by (simp add: abs_catalog_def get64_put64_disjoint)
qed

lemma asim_set_count:
  assumes "cat_region base m" "abs_catalog base (cache m) = K"
    and "\<And>m'. cat_region base m' \<Longrightarrow> abs_catalog base (cache m') = K\<lparr>c_count := v\<rparr> \<Longrightarrow> asim base m' k r"
  shows "asim base m (StoreU64 (base + 8) v Relaxed (Flush base 64 k)) r"
proof -
  let ?m = "flushed (m\<lparr>cache := put64 (cache m) (unat base + 8) v\<rparr>) base 64"
  have run0: "run (StoreU64 (base + 8) v Relaxed (Flush base 64 k)) m = run k ?m"
    using cat_regionD(2) [OF assms(1)] base_mod(1) [OF assms(1), of 8] unat_header_offset [OF assms(1), of 8]
    by (simp add: run_StoreU64 run_Flush)
  have "asim base ?m k r"
    by (rule assms(3)) (use assms(1,2) in \<open>simp_all add: abs_set_count\<close>)
  then show ?thesis by (intro refines_run [OF run0]) simp_all
qed

lemma asim_header:
  assumes "cat_region base m" "unat k + 8 \<le> 64" "unat k mod 8 = 0"
    and "asim base m (f (get64 (cache m) (unat base + unat k))) r"
  shows "asim base m (LoadU64 (base + k) Relaxed f) r"
  by (rule refines_run [OF run_cat_header [OF assms(1-3)]]) (simp_all add: assms(4))

section \<open>create_region\<close>

lemma asim_write_entry:
  assumes "cat_region base m" "unat i < 256" "abs_catalog base (cache m) = K"
    and "\<And>m'. cat_region base m' \<Longrightarrow>
      abs_catalog base (cache m') = set_entry i (e\<lparr>ce_name := stored_name (ce_name e)\<rparr>) K \<Longrightarrow>
      asim base m' (f ()) r"
  shows "asim base m (prog_bind (write_entry base i e) f) r"
proof -
  let ?b = "ent_base base (unat i)" and ?off = "entry_offset base i"
  let ?c = "(entry_written ?b e (cache m))(?b := region_state_as_u8 (ce_state e))"
  let ?m = "flushed ((flushed (m\<lparr>cache := entry_written ?b e (cache m)\<rparr>) ?off 64)\<lparr>cache := ?c\<rparr>) ?off 64"
  have "agree_off (ent_region base (unat i)) (cache m) ?c"
    by (intro agree_off_upd entry_written_agree) (simp add: ent_region_def)
  from abs_catalog_entry [OF assms(2) this]
  have "abs_catalog base ?c = set_entry i (e\<lparr>ce_name := stored_name (ce_name e)\<rparr>) K"
    by (simp add: assms(3) set_entry_def entry_view_written)
  then have "asim base ?m (f ()) r"
    using assms(1) by (intro assms(4)) simp_all
  then show ?thesis
    by (intro refines_run [OF run_write_entry [OF assms(1,2)]]) simp_all
qed

lemma set_state_entry:
  "unat i < length (c_entries K) \<Longrightarrow> set_state i s (set_entry i e K) = set_entry i (e\<lparr>ce_state := s\<rparr>) K"
  by (simp add: set_state_def set_entry_def entry_at_def)

lemma find_some_in: "find P xs = Some x \<Longrightarrow> x \<in> set xs \<and> P x"
  by (auto simp: find_Some_iff)

lemma free_slot_bound: "free_slot_spec K = Some i \<Longrightarrow> unat i < 256 \<and> ce_state (entry_at K i) = Free"
  unfolding free_slot_spec_def by (drule find_some_in) (simp add: slots_bound)

lemma find_spec_handle:
  assumes "find_spec name K = Inr h"
  shows "unat (rh_slot h) < 256 \<and> named name (entry_at K (rh_slot h)) \<and>
    h = handle_of (rh_slot h) (entry_at K (rh_slot h))"
proof -
  from assms obtain i where i: "find (\<lambda>i. named name (entry_at K i)) slots = Some i"
    "h = handle_of i (entry_at K i)"
    by (auto simp: find_spec_def split: option.splits)
  from i(2) have "rh_slot h = i" by (simp add: handle_of_def)
  with i(2) find_some_in [OF i(1)] slots_bound show ?thesis by simp
qed

lemma asim_commit_region:
  assumes "cat_region (ra_base ra) m" "unat slot < 256" "abs_catalog (ra_base ra) (cache m) = K"
  shows "asim (ra_base ra) m (commit_region ra slot name off sz)
    (Inr \<lparr>rh_slot = slot, rh_name = name, rh_offset = off, rh_size = sz\<rparr>,
     (set_entry slot \<lparr>ce_state = Active, ce_name = stored_name name, ce_offset = off,
                      ce_size = sz, ce_epoch = 0\<rparr> K)\<lparr>c_count := c_count K + 1\<rparr>)"
proof -
  let ?B = "ra_base ra"
  let ?e = "\<lparr>ce_state = Allocating, ce_name = stored_name name, ce_offset = off, ce_size = sz, ce_epoch = 0\<rparr>"
  have len: "length (c_entries K) = 256" using assms(3) by auto
  let ?K = "set_entry slot \<lparr>ce_state = Active, ce_name = stored_name name, ce_offset = off,
                      ce_size = sz, ce_epoch = 0\<rparr> K"
  have K: "set_state slot Active (set_entry slot ?e K) = ?K"
    using assms(2) len by (simp add: set_state_entry)
  have cnt: "c_count ?K = c_count K" by (simp add: set_entry_def)
  have tail: "asim ?B m1
      (LoadU64 (?B + 8) Relaxed (\<lambda>count.
       StoreU64 (?B + 8) (count + 1) Relaxed (Flush ?B 64
       (Ret (Inr \<lparr>rh_slot = slot, rh_name = name, rh_offset = off, rh_size = sz\<rparr>)))))
      (Inr \<lparr>rh_slot = slot, rh_name = name, rh_offset = off, rh_size = sz\<rparr>, ?K\<lparr>c_count := c_count K + 1\<rparr>)"
    if m1: "cat_region ?B m1" "abs_catalog ?B (cache m1) = ?K" for m1
  proof -
    have c: "get64 (cache m1) (unat ?B + 8) = c_count K"
      using m1(2) cnt by (metis abs_catalog_sel(2))
    show ?thesis
      by (rule asim_header [OF m1(1)], simp, simp, rule asim_set_count [OF m1], rule asim_Ret)
        (simp_all add: c)
  qed
  show ?thesis
    unfolding commit_region_def Let_def catalog_consts add_0_right
    by (rule asim_write_entry [OF assms], rule asim_set_state [OF _ assms(2)], assumption, assumption,
        rule tail)
      (simp_all add: K [symmetric])
qed

theorem asim_create_region:
  assumes "cat_region (ra_base ra) m" "abs_catalog (ra_base ra) (cache m) = K"
  shows "asim (ra_base ra) m (create_region ra name sz) (create_spec ra name sz K)"
proof (cases "length name > 24")
  case True
  with assms show ?thesis by (auto simp: create_region_def create_spec_def)
next
  case False
  let ?B = "ra_base ra"
  have K: "abs_catalog ?B (cache m) = K" "get64 (cache m) (unat ?B + 24) = c_data_start K"
    using assms(2) by auto
  show ?thesis
  proof (cases "find_spec name K")
    case (Inr h)
    with False K show ?thesis
      by (auto simp: create_region_def create_spec_def run_bindI [OF run_find_region [OF assms(1)]]
          refines_def assms(1))
  next
    case (Inl e)
    show ?thesis
    proof (cases "free_slot_spec K")
      case None
      with False Inl K show ?thesis
        by (auto simp: create_region_def create_spec_def run_bindI [OF run_find_region [OF assms(1)]]
            run_bindI [OF run_find_free_slot [OF assms(1)]] refines_def assms(1))
    next
      case (Some slot)
      note slot = free_slot_bound [OF Some]
      have run0: "run (create_region ra name sz) m =
          run (if next_offset_spec K + sz > ra_base ra + ra_pool_size ra then
                 Ret (Inl (OutOfSpace sz
                    (if next_offset_spec K \<le> ra_base ra + ra_pool_size ra
                     then ra_base ra + ra_pool_size ra - next_offset_spec K else 0)))
               else commit_region ra slot name (next_offset_spec K) sz) m"
        using False Inl Some K
        by (simp add: create_region_def run_cat_header [OF assms(1)] run_bindI [OF run_find_region [OF assms(1)]]
            run_bindI [OF run_find_free_slot [OF assms(1)]]
            run_bindI [OF run_next_free_offset [OF assms(1)], unfolded K(2)] Let_def)
      show ?thesis
        by (rule refines_run [OF run0 same_map_refl])
          (use False Inl Some assms asim_commit_region [OF assms(1) conjunct1 [OF slot] assms(2)]
            in \<open>auto simp: create_spec_def Let_def\<close>)
    qed
  qed
qed

section \<open>free_region, recover and init\<close>

theorem asim_free_region:
  assumes "cat_region (ra_base ra) m" "abs_catalog (ra_base ra) (cache m) = K"
  shows "asim (ra_base ra) m (free_region ra name) (free_spec name K)"
proof (cases "find_spec name K")
  case (Inl e)
  with assms show ?thesis
    by (auto simp: free_region_def free_spec_def run_bindI [OF run_find_region [OF assms(1)]] refines_def)
next
  case (Inr h)
  let ?B = "ra_base ra"
  note h = find_spec_handle [OF Inr, THEN conjunct1]
  have len: "length (c_entries K) = 256" using assms(2) by auto
  let ?K = "set_state (rh_slot h) Free K"
  have K: "set_state (rh_slot h) Free (set_state (rh_slot h) Freeing K) = ?K"
    using h len by (simp add: set_state_def set_entry_def entry_at_def)
  have cnt: "c_count ?K = c_count K" by (simp add: set_state_def set_entry_def)
  have tail: "asim ?B m1
      (LoadU64 (?B + 8) Relaxed (\<lambda>count.
         if count > 0 then StoreU64 (?B + 8) (count - 1) Relaxed (Flush ?B 64 (Ret (Inr ())))
         else Ret (Inr ())))
      (Inr (), ?K\<lparr>c_count := if c_count K > 0 then c_count K - 1 else c_count K\<rparr>)"
    if m1: "cat_region ?B m1" "abs_catalog ?B (cache m1) = ?K" for m1
  proof -
    have c: "get64 (cache m1) (unat ?B + 8) = c_count K"
      using m1(2) cnt by (metis abs_catalog_sel(2))
    have same: "?K\<lparr>c_count := c_count K\<rparr> = ?K" using cnt by simp
    have "asim ?B m1 (StoreU64 (?B + 8) (c_count K - 1) Relaxed (Flush ?B 64 (Ret (Inr ()))))
        (Inr (), ?K\<lparr>c_count := c_count K - 1\<rparr>)"
      by (rule asim_set_count [OF m1], rule asim_Ret)
    moreover have "asim ?B m1 (Ret (Inr ())) (Inr (), ?K)" using m1 by (intro asim_Ret)
    ultimately have "asim ?B m1
        (if c_count K > 0 then StoreU64 (?B + 8) (c_count K - 1) Relaxed (Flush ?B 64 (Ret (Inr ())))
         else Ret (Inr ()))
        (Inr (), ?K\<lparr>c_count := if c_count K > 0 then c_count K - 1 else c_count K\<rparr>)"
      using same by (cases "c_count K > 0") simp_all
    then show ?thesis
      by (intro asim_header [OF m1(1)]; cases "c_count K > 0"; simp add: c)
  qed
  have run0: "run (free_region ra name) m =
      run (StoreU8 (entry_offset ?B (rh_slot h)) (region_state_as_u8 Freeing) Release (
           Flush (entry_offset ?B (rh_slot h)) 64 (
           StoreU8 (entry_offset ?B (rh_slot h)) (region_state_as_u8 Free) Release (
           Flush (entry_offset ?B (rh_slot h)) 64 (
           LoadU64 (?B + 8) Relaxed (\<lambda>count.
             if count > 0 then StoreU64 (?B + 8) (count - 1) Relaxed (Flush ?B 64 (Ret (Inr ())))
             else Ret (Inr ()))))))) m"
    using Inr unfolding free_region_def catalog_consts add_0_right
    by (simp add: run_bindI [OF run_find_region [OF assms(1)]] assms(2) Let_def
        del: region_state_as_u8.simps)
  have "asim ?B m (StoreU8 (entry_offset ?B (rh_slot h)) (region_state_as_u8 Freeing) Release (
           Flush (entry_offset ?B (rh_slot h)) 64 (
           StoreU8 (entry_offset ?B (rh_slot h)) (region_state_as_u8 Free) Release (
           Flush (entry_offset ?B (rh_slot h)) 64 (
           LoadU64 (?B + 8) Relaxed (\<lambda>count.
             if count > 0 then StoreU64 (?B + 8) (count - 1) Relaxed (Flush ?B 64 (Ret (Inr ())))
             else Ret (Inr ())))))))
      (Inr (), ?K\<lparr>c_count := if c_count K > 0 then c_count K - 1 else c_count K\<rparr>)"
    by (rule asim_set_state [OF assms(1) h assms(2)], rule asim_set_state [OF _ h], assumption, assumption,
        rule tail) (simp_all add: K)
  then show ?thesis
    by (intro refines_run [OF run0 same_map_refl]) (simp add: free_spec_def Inr)
qed

lemma asim_recover_loop:
  assumes "cat_region base m" "abs_catalog base (cache m) = K" "distinct (map unat is)"
    and "\<And>i. i \<in> set is \<Longrightarrow> unat i < 256"
  shows "asim base m (alloc_recover_loop base is fixed)
    (fixed + word_of_nat (length (filter (\<lambda>i. half_done (c_entries K ! i)) (map unat is))),
     K\<lparr>c_entries := update_at reset_entry (map unat is) (c_entries K)\<rparr>)"
  using assms
proof (induction "is" arbitrary: m K fixed)
  case Nil
  then show ?case by (auto intro: asim_Ret)
next
  case (Cons i "is")
  have i: "unat i < 256" using Cons.prems(4) by simp
  have ev: "entry_view base (cache m) (unat i) = entry_at K i"
    using Cons.prems(2) i entry_at_view by metis
  let ?e = "c_entries K ! unat i"
  have len: "length (c_entries K) = 256" using Cons.prems(2) by auto
  have run0: "run (alloc_recover_loop base (i # is) fixed) m =
      run (if half_done ?e then
             StoreU8 (entry_offset base i) (region_state_as_u8 Free) Release (
             Flush (entry_offset base i) 64 (alloc_recover_loop base is (fixed + 1)))
           else alloc_recover_loop base is fixed) m"
    by (simp add: run_bindI [OF run_read_entry [OF Cons.prems(1) i]] ev half_done_def entry_at_def Let_def
        del: region_state_as_u8.simps)
  show ?case
  proof (cases "half_done ?e")
    case False
    then have "(c_entries K)[unat i := reset_entry ?e] = c_entries K"
      by (simp add: reset_entry_def)
    with False Cons.IH [OF Cons.prems(1,2)] Cons.prems(3,4) show ?thesis
      by (intro refines_run [OF run0 same_map_refl]) simp
  next
    case True
    let ?K1 = "set_state i Free K"
    have K1: "?K1 = K\<lparr>c_entries := (c_entries K)[unat i := reset_entry ?e]\<rparr>"
      using True by (simp add: set_state_def set_entry_def entry_at_def reset_entry_def)
    have same: "filter (\<lambda>t. half_done (c_entries ?K1 ! t)) (map unat is) =
        filter (\<lambda>t. half_done (c_entries K ! t)) (map unat is)"
      using Cons.prems(3) by (simp add: K1 filter_nth_update)
    have "asim base m (StoreU8 (entry_offset base i) (region_state_as_u8 Free) Release (
             Flush (entry_offset base i) 64 (alloc_recover_loop base is (fixed + 1))))
        (fixed + 1 + word_of_nat (length (filter (\<lambda>t. half_done (c_entries ?K1 ! t)) (map unat is))),
         ?K1\<lparr>c_entries := update_at reset_entry (map unat is) (c_entries ?K1)\<rparr>)"
      by (rule asim_set_state [OF Cons.prems(1) i Cons.prems(2)], rule Cons.IH)
        (use Cons.prems(3,4) in simp_all)
    with True same show ?thesis
      by (intro refines_run [OF run0 same_map_refl]) (simp add: K1 add.assoc)
  qed
qed

theorem asim_alloc_recover:
  assumes "cat_region (ra_base ra) m" "abs_catalog (ra_base ra) (cache m) = K"
  shows "asim (ra_base ra) m (alloc_recover ra) (alloc_recover_spec K)"
proof -
  have len: "length (c_entries K) = 256" using assms(2) by auto
  have map: "map unat slots = [0..<256]" by (simp add: map_unat_word_range)
  have "update_at reset_entry [0..<256] (c_entries K) = map reset_entry (c_entries K)"
    using len by (simp add: update_at_upt sweep_def)
  moreover have "length (filter (\<lambda>i. half_done (c_entries K ! i)) [0..<256]) =
      length (filter half_done (c_entries K))"
    using len length_filter_upt [of 256 "c_entries K" half_done] by simp
  ultimately show ?thesis
    using asim_recover_loop [OF assms distinct_slots slots_bound, of 0]
    unfolding alloc_recover_def alloc_recover_spec_def alloc_repair_spec_def map by simp
qed

end
