(* ===== verification/AllocInv.thy ===== *)
theory AllocInv
  imports AllocSpec
begin

text \<open>
  What makes the allocator correct: live regions are aligned, inside the pool and disjoint,
  active names are unique, and recovery is a repair procedure. The invariant holds of every
  region reachable from \<open>init\<close> by the operations and by client writes to region data.
\<close>

section \<open>init\<close>

lemma asim_init_states:
  assumes "cat_region base m" "abs_catalog base (cache m) = K" "\<And>i. i \<in> set is \<Longrightarrow> unat i < 256"
    and "\<And>m'. cat_region base m' \<Longrightarrow> abs_catalog base (cache m') =
      K\<lparr>c_entries := update_at (ce_state_update (\<lambda>_. Free)) (map unat is) (c_entries K)\<rparr> \<Longrightarrow> asim base m' k r"
  shows "asim base m (init_states base is k) r"
  using assms
proof (induction "is" arbitrary: m K)
  case Nil
  then show ?case by simp
next
  case (Cons i "is")
  have i: "unat i < 256" using Cons.prems(3) by simp
  let ?m = "m\<lparr>cache := (cache m)(ent_base base (unat i) := region_state_as_u8 Free)\<rparr>"
  have "ent_base base (unat i) + 64 \<le> unat (mm_len m)"
    using cat_regionD(2) [OF Cons.prems(1)] i by simp
  then have run0: "run (init_states base (i # is) k) m = run (init_states base is k) ?m"
    by (simp add: Let_def run_StoreU8 unat_entry_offset_0 [OF Cons.prems(1) i])
  have abs: "abs_catalog base (cache ?m) = set_state i Free K"
    using abs_set_state [OF i, of base "cache m" Free] Cons.prems(2) by simp
  have cr: "cat_region base ?m" using Cons.prems(1) by simp
  have "asim base ?m (init_states base is k) r"
    by (rule Cons.IH [OF cr abs], simp add: Cons.prems(3), rule Cons.prems(4), assumption,
        simp add: set_state_def set_entry_def entry_at_def)
  then show ?case by (intro refines_run [OF run0]) simp_all
qed

lemma abs_put_header:
  assumes "k + 8 \<le> 32" "k mod 8 = 0"
  shows "c_entries (abs_catalog base (put64 c (unat base + k) v)) = c_entries (abs_catalog base c)"
proof -
  have "entry_view base (put64 c (unat base + k) v) i = entry_view base c i" for i
    using assms(1) by (intro entry_view_cong) (simp add: ent_region_def put64_out)
  then show ?thesis by simp
qed

theorem asim_alloc_init:
  assumes "cat_region base m" "abs_catalog base (cache m) = K"
  shows "asim base m (alloc_init base pool_size) (init_spec base pool_size K)"
proof (cases "pool_size < 16448")
  case True
  with assms show ?thesis by (auto simp: alloc_init_def init_spec_def Let_def)
next
  case False
  note H = cat_regionD [OF assms(1)] unat_header_offset [OF assms(1)]
  let ?c = "put64 (put64 (put64 (put64 (cache m) (unat base) ALLOC_MAGIC) (unat base + 8) 0)
              (unat base + 16) pool_size) (unat base + 24) (base + 16448)"
  let ?m = "flushed (m\<lparr>cache := ?c\<rparr>) base 64"
  let ?K = "\<lparr>c_magic = ALLOC_MAGIC, c_count = 0, c_total = pool_size, c_data_start = base + 16448,
             c_entries = c_entries K\<rparr>"
  let ?rest = "init_states base slots (Flush (base + 64) (256 * 64)
      (Ret (Inr \<lparr>ra_base = base, ra_pool_size = pool_size\<rparr>)))"
  have run0: "run (alloc_init base pool_size) m = run ?rest ?m"
    using False H base_mod(1) [OF assms(1), of 8] base_mod(1) [OF assms(1), of 16]
      base_mod(1) [OF assms(1), of 24]
    by (simp add: alloc_init_def Let_def run_StoreU64 run_Flush)
  have len: "length (c_entries K) = 256" using assms(2) by auto
  have e: "c_entries (abs_catalog base (put64 c (unat base + 24) v)) = c_entries (abs_catalog base c)"
    "c_entries (abs_catalog base (put64 c (unat base + 16) v)) = c_entries (abs_catalog base c)"
    "c_entries (abs_catalog base (put64 c (unat base + 8) v)) = c_entries (abs_catalog base c)" for c v
    by (rule abs_put_header; simp)+
  have e0: "c_entries (abs_catalog base (put64 c (unat base) v)) = c_entries (abs_catalog base c)" for c v
    using abs_put_header [of 0 base c v] by simp
  have ents: "c_entries (abs_catalog base ?c) = c_entries K"
    by (simp only: e e0 assms(2))
  then have abs: "abs_catalog base ?c = ?K"
    by (simp add: abs_catalog_def get64_put64_disjoint)
  have "update_at (ce_state_update (\<lambda>_. Free)) (map unat slots) (c_entries K) =
      map (ce_state_update (\<lambda>_. Free)) (c_entries K)"
    using len by (simp add: map_unat_word_range update_at_upt sweep_def)
  then have spec: "init_spec base pool_size K = (Inr \<lparr>ra_base = base, ra_pool_size = pool_size\<rparr>,
      ?K\<lparr>c_entries := update_at (ce_state_update (\<lambda>_. Free)) (map unat slots) (c_entries ?K)\<rparr>)"
    using False by (simp add: init_spec_def)
  have fl: "asim base m' (Flush (base + 64) (256 * 64) (Ret x)) (x, K')"
    if "cat_region base m'" "abs_catalog base (cache m') = K'" for m' x K'
  proof -
    have "run (Flush (base + 64) (256 * 64) (Ret x)) m' = run (Ret x) (flushed m' (base + 64) (256 * 64))"
      using cat_regionD(2) [OF that(1)] unat_header_offset [OF that(1), of 64]
      by (simp add: run_Flush)
    with that show ?thesis by (intro refines_run [of _ m' "Ret x"]) (auto intro: asim_Ret)
  qed
  have "asim base ?m ?rest (init_spec base pool_size K)"
    unfolding spec
    by (rule asim_init_states [OF _ _ slots_bound], simp add: assms(1), simp add: abs, assumption,
        rule fl)
  then show ?thesis by (intro refines_run [OF run0]) simp_all
qed

section \<open>The invariant\<close>

definition pool_end :: "region_allocator \<Rightarrow> nat" where
  "pool_end ra = unat (ra_base ra) + unat (ra_pool_size ra)"

definition region_of :: "catalog_entry \<Rightarrow> nat set" where
  "region_of e = {unat (ce_offset e)..<unat (ce_offset e) + unat (ce_size e)}"

definition placed :: "region_allocator \<Rightarrow> u64 \<Rightarrow> catalog_entry \<Rightarrow> bool" where
  "placed ra start e \<longleftrightarrow> unat start \<le> unat (ce_offset e) \<and> unat (ce_offset e) mod 64 = 0 \<and>
     unat (ce_offset e) + unat (ce_size e) \<le> pool_end ra"

definition apart :: "catalog_entry \<Rightarrow> catalog_entry \<Rightarrow> bool" where
  "apart e f \<longleftrightarrow> unat (ce_offset e) + unat (ce_size e) \<le> unat (ce_offset f) \<or>
     unat (ce_offset f) + unat (ce_size f) \<le> unat (ce_offset e)"

lemma apart_disjoint: "apart e f \<Longrightarrow> region_of e \<inter> region_of f = {}"
  by (auto simp: apart_def region_of_def)

definition cat_inv :: "region_allocator \<Rightarrow> catalog \<Rightarrow> bool" where
  "cat_inv ra K \<longleftrightarrow>
     length (c_entries K) = 256 \<and> pool_end ra + 63 < 2 ^ 64 \<and> unat (c_data_start K) \<le> pool_end ra \<and>
     (\<forall>i<256. live (c_entries K ! i) \<longrightarrow> placed ra (c_data_start K) (c_entries K ! i)) \<and>
     (\<forall>i<256. \<forall>j<256. i \<noteq> j \<longrightarrow> live (c_entries K ! i) \<longrightarrow> live (c_entries K ! j) \<longrightarrow>
        apart (c_entries K ! i) (c_entries K ! j)) \<and>
     (\<forall>i<256. \<forall>j<256. i \<noteq> j \<longrightarrow> ce_state (c_entries K ! i) = Active \<longrightarrow>
        ce_state (c_entries K ! j) = Active \<longrightarrow> ce_name (c_entries K ! i) \<noteq> ce_name (c_entries K ! j))"

lemma cat_invD:
  assumes "cat_inv ra K"
  shows "length (c_entries K) = 256" "pool_end ra + 63 < 2 ^ 64" "unat (c_data_start K) \<le> pool_end ra"
    "i < 256 \<Longrightarrow> live (c_entries K ! i) \<Longrightarrow> placed ra (c_data_start K) (c_entries K ! i)"
    "i < 256 \<Longrightarrow> j < 256 \<Longrightarrow> i \<noteq> j \<Longrightarrow> live (c_entries K ! i) \<Longrightarrow> live (c_entries K ! j) \<Longrightarrow>
     apart (c_entries K ! i) (c_entries K ! j)"
    "i < 256 \<Longrightarrow> j < 256 \<Longrightarrow> i \<noteq> j \<Longrightarrow> ce_state (c_entries K ! i) = Active \<Longrightarrow>
     ce_state (c_entries K ! j) = Active \<Longrightarrow> ce_name (c_entries K ! i) \<noteq> ce_name (c_entries K ! j)"
  using assms by (simp_all add: cat_inv_def)

text \<open>The end of the highest live region.\<close>

lemma max_end_ge_start: "start \<le> max_end_spec K is start"
proof (induction "is" arbitrary: start)
  case (Cons i "is")
  have "start \<le> (if live (entry_at K i) then max start (entry_end (entry_at K i)) else start)" by simp
  also have "\<dots> \<le> max_end_spec K (i # is) start"
    using Cons [of "if live (entry_at K i) then max start (entry_end (entry_at K i)) else start"]
    by (simp add: max_end_spec_def)
  finally show ?case .
qed (simp add: max_end_spec_def)

lemma max_end_ge: "i \<in> set is \<Longrightarrow> live (entry_at K i) \<Longrightarrow> entry_end (entry_at K i) \<le> max_end_spec K is start"
proof (induction "is" arbitrary: start)
  case (Cons j "is")
  show ?case
  proof (cases "i = j")
    case True
    have "entry_end (entry_at K i) \<le> max start (entry_end (entry_at K i))" by simp
    also have "\<dots> \<le> max_end_spec K is (max start (entry_end (entry_at K i)))" by (rule max_end_ge_start)
    finally show ?thesis using True Cons.prems by (simp add: max_end_spec_def)
  next
    case False
    with Cons show ?thesis by (simp add: max_end_spec_def)
  qed
qed simp

lemma max_end_le:
  "start \<le> b \<Longrightarrow> (\<And>i. i \<in> set is \<Longrightarrow> live (entry_at K i) \<Longrightarrow> entry_end (entry_at K i) \<le> b) \<Longrightarrow>
   max_end_spec K is start \<le> b"
  by (induction "is" arbitrary: start) (simp_all add: max_end_spec_def)

lemma slots_all: "i < 256 \<Longrightarrow> \<exists>j\<in>set slots. unat j = i"
proof -
  assume "i < 256"
  then have "i \<in> set (map unat slots)" unfolding map_unat_word_range by simp
  then show ?thesis by auto
qed

lemma unat_align64:
  assumes "unat x + 63 < 2 ^ 64"
  shows "unat (align64 x) = (unat x + 63) div 64 * 64"
  using assms unat_align_down [of "x + 63"]
  by (simp add: align64_def unat_add_lt64)

lemma unat_entry_end:
  assumes "cat_inv ra K" "i < 256" "live (c_entries K ! i)"
  shows "unat (entry_end (c_entries K ! i)) = unat (ce_offset (c_entries K ! i)) + unat (ce_size (c_entries K ! i))"
proof -
  have "unat (ce_offset (c_entries K ! i)) + unat (ce_size (c_entries K ! i)) \<le> pool_end ra"
    using cat_invD(4) [OF assms] by (simp add: placed_def)
  then show ?thesis
    using cat_invD(2) [OF assms(1)] by (simp add: entry_end_def unat_add_lt64)
qed

lemma next_offset:
  assumes "cat_inv ra K"
  shows "unat (next_offset_spec K) mod 64 = 0" "unat (c_data_start K) \<le> unat (next_offset_spec K)"
    "i < 256 \<Longrightarrow> live (c_entries K ! i) \<Longrightarrow>
     unat (ce_offset (c_entries K ! i)) + unat (ce_size (c_entries K ! i)) \<le> unat (next_offset_spec K)"
proof -
  note D = cat_invD [OF assms]
  let ?mx = "max_end_spec K slots (c_data_start K)"
  let ?b = "word_of_nat (pool_end ra) :: u64"
  have b: "unat ?b = pool_end ra" using D(2) by (simp add: unsigned_of_nat take_bit_nat_eq_self)
  have "?mx \<le> ?b"
  proof (rule max_end_le)
    show "c_data_start K \<le> ?b" using D(3) by (simp add: word_le_nat_alt b)
    fix i assume i: "i \<in> set slots" "live (entry_at K i)"
    then have "unat i < 256" "live (c_entries K ! unat i)" using slots_bound by (simp_all add: entry_at_def)
    from D(4) [OF this] unat_entry_end [OF assms this] show "entry_end (entry_at K i) \<le> ?b"
      by (simp add: word_le_nat_alt b entry_at_def placed_def)
  qed
  then have mx: "unat ?mx + 63 < 2 ^ 64" using D(2) by (simp add: word_le_nat_alt b)
  then have al: "unat (next_offset_spec K) = (unat ?mx + 63) div 64 * 64"
    by (simp add: next_offset_spec_def unat_align64)
  then show "unat (next_offset_spec K) mod 64 = 0" by simp
  have le: "unat ?mx \<le> unat (next_offset_spec K)" unfolding al by presburger
  show "unat (c_data_start K) \<le> unat (next_offset_spec K)"
    using le max_end_ge_start [of "c_data_start K" K slots] by (simp add: word_le_nat_alt)
  assume i: "i < 256" "live (c_entries K ! i)"
  obtain j where j: "j \<in> set slots" "unat j = i" using slots_all [OF i(1)] by blast
  have "entry_end (c_entries K ! i) \<le> ?mx"
    using max_end_ge [OF j(1), of K "c_data_start K"] i(2) j(2) by (simp add: entry_at_def)
  with le show "unat (ce_offset (c_entries K ! i)) + unat (ce_size (c_entries K ! i)) \<le> unat (next_offset_spec K)"
    using unat_entry_end [OF assms i] by (simp add: word_le_nat_alt)
qed

section \<open>The operations preserve it\<close>

lemma cat_inv_count [simp]: "cat_inv ra (K\<lparr>c_count := n\<rparr>) = cat_inv ra K"
  by (simp add: cat_inv_def)

lemma set_entry_sel [simp]:
  "c_entries (set_entry i e K) = (c_entries K)[unat i := e]" "c_data_start (set_entry i e K) = c_data_start K"
  "c_count (set_entry i e K) = c_count K"
  by (simp_all add: set_entry_def)

text \<open>Entries that stop being live keep the invariant.\<close>

lemma cat_inv_sub:
  assumes "cat_inv ra K" "c_data_start K' = c_data_start K" "length (c_entries K') = 256"
    and same: "\<And>i. i < 256 \<Longrightarrow> live (c_entries K' ! i) \<Longrightarrow> c_entries K' ! i = c_entries K ! i"
  shows "cat_inv ra K'"
proof -
  note D = cat_invD [OF assms(1)]
  have act: "live e" if "ce_state e = Active" for e using that by (simp add: live_def)
  show ?thesis
    unfolding cat_inv_def assms(2)
  proof (intro conjI allI impI)
    show "placed ra (c_data_start K) (c_entries K' ! i)" if "i < 256" "live (c_entries K' ! i)" for i
      using D(4) same that by metis
    show "apart (c_entries K' ! i) (c_entries K' ! j)"
      if "i < 256" "j < 256" "i \<noteq> j" "live (c_entries K' ! i)" "live (c_entries K' ! j)" for i j
      using D(5) same that by metis
    show "ce_name (c_entries K' ! i) \<noteq> ce_name (c_entries K' ! j)"
      if "i < 256" "j < 256" "i \<noteq> j" "ce_state (c_entries K' ! i) = Active"
        "ce_state (c_entries K' ! j) = Active" for i j
      using D(6) same that act by metis
  qed (rule assms(3) D(2,3))+
qed

lemma cat_inv_drop:
  assumes "cat_inv ra K" "\<not> live e" "unat i < 256"
  shows "cat_inv ra (set_entry i e K)"
proof (rule cat_inv_sub [OF assms(1)])
  note len = cat_invD(1) [OF assms(1)]
  show "length (c_entries (set_entry i e K)) = 256" using len by simp
  show "c_entries (set_entry i e K) ! j = c_entries K ! j" if "j < 256" "live (c_entries (set_entry i e K) ! j)" for j
    using that assms(2,3) len by (cases "j = unat i") auto
qed simp

lemma apart_sym: "apart e f \<Longrightarrow> apart f e"
  by (auto simp: apart_def)

lemma cat_inv_add:
  assumes "cat_inv ra K" "unat i < 256" "placed ra (c_data_start K) e"
    and "\<And>j. j < 256 \<Longrightarrow> live (c_entries K ! j) \<Longrightarrow> apart e (c_entries K ! j)"
    and "\<And>j. j < 256 \<Longrightarrow> ce_state (c_entries K ! j) = Active \<Longrightarrow> ce_name (c_entries K ! j) \<noteq> ce_name e"
  shows "cat_inv ra (set_entry i e K)"
proof -
  note D = cat_invD [OF assms(1)]
  have nth: "(c_entries K)[unat i := e] ! j = (if j = unat i then e else c_entries K ! j)" if "j < 256" for j
    using that D(1) by simp
  show ?thesis
    unfolding cat_inv_def set_entry_sel
  proof (intro conjI allI impI)
    show "length ((c_entries K)[unat i := e]) = 256" using D(1) by simp
    show "placed ra (c_data_start K) ((c_entries K)[unat i := e] ! j)"
      if "j < 256" "live ((c_entries K)[unat i := e] ! j)" for j
      using that D(4) assms(3) by (simp add: nth split: if_splits)
    show "apart ((c_entries K)[unat i := e] ! j) ((c_entries K)[unat i := e] ! k)"
      if "j < 256" "k < 256" "j \<noteq> k" "live ((c_entries K)[unat i := e] ! j)"
        "live ((c_entries K)[unat i := e] ! k)" for j k
      using that D(5) assms(4) apart_sym [OF assms(4)] by (simp add: nth split: if_splits)
    show "ce_name ((c_entries K)[unat i := e] ! j) \<noteq> ce_name ((c_entries K)[unat i := e] ! k)"
      if "j < 256" "k < 256" "j \<noteq> k" "ce_state ((c_entries K)[unat i := e] ! j) = Active"
        "ce_state ((c_entries K)[unat i := e] ! k) = Active" for j k
      using that D(6) assms(5) assms(5) [symmetric] by (simp add: nth split: if_splits)
  qed (rule D(2,3))+
qed

lemma find_spec_none:
  assumes "find_spec name K = Inl e" "j < 256" "ce_state (c_entries K ! j) = Active"
  shows "ce_name (c_entries K ! j) \<noteq> name"
proof -
  obtain i where i: "i \<in> set slots" "unat i = j" using slots_all [OF assms(2)] by blast
  have "find (\<lambda>i. named name (entry_at K i)) slots = None"
    using assms(1) by (simp add: find_spec_def split: option.splits)
  with i(1) have "\<not> named name (entry_at K i)" by (auto simp: find_None_iff)
  with assms(3) i(2) show ?thesis by (auto simp: named_def entry_at_def)
qed

text \<open>A size that does not make the end of the region wrap around.\<close>

definition size_fits :: "catalog \<Rightarrow> u64 \<Rightarrow> bool" where
  "size_fits K sz \<longleftrightarrow> unat (next_offset_spec K) + unat sz < 2 ^ 64"

definition new_entry :: "u8 list \<Rightarrow> u64 \<Rightarrow> u64 \<Rightarrow> catalog_entry" where
  "new_entry name off sz =
     \<lparr>ce_state = Active, ce_name = name, ce_offset = off, ce_size = sz, ce_epoch = 0\<rparr>"

lemma create_spec_cases:
  assumes "create_spec ra name sz K = (r, K')" "utf8_valid name"
  obtains (err) e where "r = Inl e" "K' = K"
  | (ok) slot e where "length name \<le> 24" "find_spec name K = Inl e" "free_slot_spec K = Some slot"
      "next_offset_spec K + sz \<le> ra_base ra + ra_pool_size ra"
      "r = Inr \<lparr>rh_slot = slot, rh_name = name, rh_offset = next_offset_spec K, rh_size = sz\<rparr>"
      "K' = (set_entry slot (new_entry name (next_offset_spec K) sz) K)\<lparr>c_count := c_count K + 1\<rparr>"
  using assms stored_name_valid [OF assms(2)]
  by (auto simp: create_spec_def Let_def new_entry_def not_less split: if_splits sum.splits option.splits)

lemma cat_inv_create:
  assumes "cat_inv ra K" "utf8_valid name" "size_fits K sz" "create_spec ra name sz K = (r, K')"
  shows "cat_inv ra K'"
  using assms(4,2)
proof (cases rule: create_spec_cases)
  case err
  with assms(1) show ?thesis by simp
next
  case (ok slot e)
  note N = next_offset [OF assms(1)] and D = cat_invD [OF assms(1)]
  have slot: "unat slot < 256" using free_slot_bound [OF ok(3)] by simp
  have pe: "unat (ra_base ra + ra_pool_size ra) = pool_end ra"
    using D(2) by (simp add: pool_end_def unat_add_lt64)
  have "unat (next_offset_spec K) + unat sz \<le> pool_end ra"
    using ok(4) assms(3) by (simp add: size_fits_def word_le_nat_alt pe unat_add_lt64)
  then have "placed ra (c_data_start K) (new_entry name (next_offset_spec K) sz)"
    using N(1,2) by (simp add: placed_def new_entry_def)
  moreover have "apart (new_entry name (next_offset_spec K) sz) (c_entries K ! j)"
    if "j < 256" "live (c_entries K ! j)" for j
    using N(3) [OF that] by (simp add: apart_def new_entry_def)
  ultimately have "cat_inv ra (set_entry slot (new_entry name (next_offset_spec K) sz) K)"
    by (rule cat_inv_add [OF assms(1) slot])
      (use find_spec_none [OF ok(2)] in \<open>simp_all add: new_entry_def\<close>)
  then show ?thesis by (simp add: ok(6))
qed

lemma cat_inv_free:
  assumes "cat_inv ra K"
  shows "cat_inv ra (snd (free_spec name K))"
proof (cases "find_spec name K")
  case (Inr h)
  have "cat_inv ra (set_state (rh_slot h) Free K)"
    unfolding set_state_def using find_spec_handle [OF Inr]
    by (intro cat_inv_drop [OF assms]) (simp_all add: live_def)
  with Inr show ?thesis by (simp add: free_spec_def)
qed (simp add: free_spec_def assms)

lemma cat_inv_repair:
  assumes "cat_inv ra K"
  shows "cat_inv ra (alloc_repair_spec K)"
proof (rule cat_inv_sub [OF assms])
  note len = cat_invD(1) [OF assms]
  show "length (c_entries (alloc_repair_spec K)) = 256" using len by (simp add: alloc_repair_spec_def)
  show "c_entries (alloc_repair_spec K) ! i = c_entries K ! i"
    if "i < 256" "live (c_entries (alloc_repair_spec K) ! i)" for i
    using that len by (auto simp: alloc_repair_spec_def reset_entry_def live_def split: if_splits)
qed (simp add: alloc_repair_spec_def)

lemma cat_inv_init:
  assumes "init_spec base pool_size K = (Inr ra, K')" "length (c_entries K) = 256"
    and "unat base + unat pool_size + 63 < 2 ^ 64"
  shows "cat_inv ra K'"
proof -
  have "unat base + 16448 < 2 ^ 64" "16448 \<le> unat pool_size"
    using assms(1,3) by (auto simp: init_spec_def word_less_nat_alt not_less split: if_splits)
  then have "unat (base + 16448) = unat base + 16448" by (simp add: unat_add_lt64)
  with assms \<open>16448 \<le> _\<close> show ?thesis
    by (auto simp: init_spec_def cat_inv_def pool_end_def live_def split: if_splits)
qed

section \<open>Looking up what was created\<close>

lemma find_some_unique:
  assumes "P x" "x \<in> set xs" "\<And>y. y \<in> set xs \<Longrightarrow> P y \<Longrightarrow> y = x"
  shows "find P xs = Some x"
proof (cases "find P xs")
  case None
  with assms(1,2) show ?thesis by (simp add: find_None_iff)
next
  case (Some y)
  with find_some_in [OF Some] assms(3) show ?thesis by simp
qed

lemma in_slots:
  assumes "unat i < 256"
  shows "i \<in> set slots"
proof -
  obtain j where j: "j \<in> set slots" "unat j = unat i" using slots_all [OF assms] by blast
  from j(2) have "j = i" by (rule word_unat_eq_iff [THEN iffD2])
  from j(1) show ?thesis unfolding \<open>j = i\<close> .
qed

lemma find_spec_at:
  assumes "cat_inv ra K" "unat i < 256" "ce_state (entry_at K i) = Active"
  shows "find_spec (ce_name (entry_at K i)) K = Inr (handle_of i (entry_at K i))"
proof -
  have "j = i" if j: "j \<in> set slots" "named (ce_name (entry_at K i)) (entry_at K j)" for j
  proof (rule ccontr)
    assume "j \<noteq> i"
    then have "unat i \<noteq> unat j" by (simp add: word_unat_eq_iff)
    from cat_invD(6) [OF assms(1) assms(2) slots_bound [OF j(1)] this] assms(3) j(2) show False
      by (simp add: named_def entry_at_def)
  qed
  then have "find (\<lambda>j. named (ce_name (entry_at K i)) (entry_at K j)) slots = Some i"
    using assms by (intro find_some_unique in_slots) (auto simp: named_def)
  then show ?thesis by (simp add: find_spec_def)
qed

lemma find_after_create:
  assumes "cat_inv ra K" "utf8_valid name" "size_fits K sz" "create_spec ra name sz K = (Inr h, K')"
  shows "find_spec name K' = Inr h"
    and "name' \<noteq> name \<Longrightarrow> find_spec name' K' = find_spec name' K"
proof -
  have inv: "cat_inv ra K'" by (rule cat_inv_create [OF assms])
  from create_spec_cases [OF assms(4,2)] obtain slot e where ok: "free_slot_spec K = Some slot"
    "h = \<lparr>rh_slot = slot, rh_name = name, rh_offset = next_offset_spec K, rh_size = sz\<rparr>"
    "K' = (set_entry slot (new_entry name (next_offset_spec K) sz) K)\<lparr>c_count := c_count K + 1\<rparr>"
    by blast
  note slot = free_slot_bound [OF ok(1)]
  have at: "entry_at K' i = (if i = slot then new_entry name (next_offset_spec K) sz else entry_at K i)"
    if "unat i < 256" for i
    using that slot cat_invD(1) [OF assms(1)] by (auto simp: ok(3) entry_at_def word_unat_eq_iff)
  show "find_spec name K' = Inr h"
    using find_spec_at [OF inv, of slot] slot at [of slot]
    by (simp add: ok(2) new_entry_def handle_of_def)
  assume ne: "name' \<noteq> name"
  have same: "named name' (entry_at K' i) = named name' (entry_at K i)" if "i \<in> set slots" for i
    using at [OF slots_bound [OF that]] ne slot by (auto simp: named_def new_entry_def)
  then have "find (\<lambda>i. named name' (entry_at K' i)) slots = find (\<lambda>i. named name' (entry_at K i)) slots"
    by (rule find_cong [OF refl])
  moreover have "entry_at K' i = entry_at K i"
    if "find (\<lambda>i. named name' (entry_at K i)) slots = Some i" for i
    using find_some_in [OF that] at [of i] slots_bound slot by (auto simp: named_def)
  ultimately show "find_spec name' K' = find_spec name' K"
    by (auto simp: find_spec_def split: option.splits)
qed

lemma find_after_free:
  assumes "cat_inv ra K" "free_spec name K = (Inr (), K')"
  shows "find_spec name K' = Inl (NotFound name)"
proof -
  from assms(2) obtain h where h: "find_spec name K = Inr h"
    and K': "c_entries K' = c_entries (set_state (rh_slot h) Free K)"
    by (auto simp: free_spec_def split: sum.splits)
  note H = find_spec_handle [OF h]
  have "\<not> named name (entry_at K' i)" if "i \<in> set slots" for i
  proof (cases "i = rh_slot h")
    case True
    then show ?thesis
      using H cat_invD(1) [OF assms(1)] by (simp add: named_def entry_at_def K' set_state_def)
  next
    case False
    then have "unat (rh_slot h) \<noteq> unat i" by (simp add: word_unat_eq_iff)
    then have "entry_at K' i = entry_at K i" by (simp add: entry_at_def K' set_state_def)
    moreover have "\<not> named name (entry_at K i)"
      using cat_invD(6) [OF assms(1) slots_bound [OF that], of "unat (rh_slot h)"] H
        \<open>unat (rh_slot h) \<noteq> unat i\<close>
      by (auto simp: named_def entry_at_def)
    ultimately show ?thesis by simp
  qed
  then have "find (\<lambda>i. named name (entry_at K' i)) slots = None"
    by (auto simp: find_None_iff)
  then show ?thesis by (simp add: find_spec_def)
qed

section \<open>Recovery is a repair procedure\<close>

definition clean_catalog :: "catalog \<Rightarrow> bool" where
  "clean_catalog K \<longleftrightarrow> list_all (\<lambda>e. \<not> half_done e) (c_entries K)"

lemma reset_not_half_done: "\<not> half_done (reset_entry e)"
  by (auto simp: reset_entry_def half_done_def)

fun settled_entry :: "catalog_entry option \<Rightarrow> bool" where
  "settled_entry (Some e) \<longleftrightarrow> \<not> half_done e"
| "settled_entry None \<longleftrightarrow> True"

definition entry_opt :: "catalog \<Rightarrow> nat \<Rightarrow> catalog_entry option" where
  "entry_opt K i = (if i < length (c_entries K) then Some (c_entries K ! i) else None)"

interpretation alloc_repair: repairable "\<lambda>K. length (c_entries K) = 256" alloc_repair_spec clean_catalog
    entry_opt settled_entry
proof unfold_locales
  fix K :: catalog assume len: "length (c_entries K) = 256"
  show "length (c_entries (alloc_repair_spec K)) = 256" using len by (simp add: alloc_repair_spec_def)
  show "clean_catalog (alloc_repair_spec K)"
    by (simp add: clean_catalog_def alloc_repair_spec_def list_all_iff reset_not_half_done)
  show "alloc_repair_spec K = K" if "clean_catalog K"
  proof -
    have "map reset_entry (c_entries K) = c_entries K"
      using that by (intro map_idI) (simp add: clean_catalog_def list_all_iff reset_entry_def)
    then show ?thesis by (simp add: alloc_repair_spec_def)
  qed
  show "entry_opt (alloc_repair_spec K) i = entry_opt K i" if "settled_entry (entry_opt K i)" for i
    using that by (auto simp: entry_opt_def alloc_repair_spec_def reset_entry_def)
qed

section \<open>Reachable allocators\<close>

inductive alloc_reach :: "region_allocator \<Rightarrow> mmap \<Rightarrow> bool" where
  ar_init: "cat_region base m \<Longrightarrow> unat base + unat pool_size + 63 < 2 ^ 64 \<Longrightarrow>
    run (alloc_init base pool_size) m = Inr (Inr ra, m') \<Longrightarrow> alloc_reach ra m'"
| ar_create: "alloc_reach ra m \<Longrightarrow> utf8_valid name \<Longrightarrow>
    size_fits (abs_catalog (ra_base ra) (cache m)) sz \<Longrightarrow>
    run (create_region ra name sz) m = Inr (r, m') \<Longrightarrow> alloc_reach ra m'"
| ar_free: "alloc_reach ra m \<Longrightarrow> run (free_region ra name) m = Inr (r', m') \<Longrightarrow> alloc_reach ra m'"
| ar_recover: "alloc_reach ra m \<Longrightarrow> run (alloc_recover ra) m = Inr (n, m') \<Longrightarrow> alloc_reach ra m'"
| ar_data: "alloc_reach ra m \<Longrightarrow> unat (ra_base ra) + 16448 \<le> unat off \<Longrightarrow>
    run (Write off bs (Ret ())) m = Inr ((), m') \<Longrightarrow> alloc_reach ra m'"

lemma asim_result:
  "asim base m p r \<Longrightarrow> run p m = Inr (x, m') \<Longrightarrow>
   x = fst r \<and> abs_catalog base (cache m') = snd r \<and> cat_region base m'"
  by (auto simp: refines_def)

lemma abs_catalog_data:
  assumes "\<And>x. x < unat base + 16448 \<Longrightarrow> c' x = c x"
  shows "abs_catalog base c' = abs_catalog base c"
proof -
  have "get64 c' (unat base + k) = get64 c (unat base + k)" if "k \<le> 56" for k
    using that assms by (intro get64_cong) simp
  then have "get64 c' (unat base) = get64 c (unat base)" "get64 c' (unat base + 8) = get64 c (unat base + 8)"
    "get64 c' (unat base + 16) = get64 c (unat base + 16)" "get64 c' (unat base + 24) = get64 c (unat base + 24)"
    by (metis add_0_right zero_le, simp_all)
  moreover have "map (entry_view base c') [0..<256] = map (entry_view base c) [0..<256]"
    using assms by (auto intro!: entry_view_cong simp: ent_region_def)
  ultimately show ?thesis by (simp add: abs_catalog_def)
qed

lemma alloc_reach_inv:
  "alloc_reach ra m \<Longrightarrow> cat_region (ra_base ra) m \<and> cat_inv ra (abs_catalog (ra_base ra) (cache m))"
proof (induction rule: alloc_reach.induct)
  case (ar_init base m pool_size ra m')
  note r = asim_result [OF asim_alloc_init [OF ar_init(1) refl] ar_init(3)]
  then obtain K' where K': "init_spec base pool_size (abs_catalog base (cache m)) = (Inr ra, K')"
    by (metis prod.collapse)
  have "ra_base ra = base" using K' by (auto simp: init_spec_def split: if_splits)
  with r K' cat_inv_init [OF K' _ ar_init(2)] show ?case by simp
next
  case (ar_create ra m name sz r m')
  then have m: "cat_region (ra_base ra) m" "cat_inv ra (abs_catalog (ra_base ra) (cache m))" by simp_all
  note r = asim_result [OF asim_create_region [OF m(1) refl] ar_create(4)]
  with cat_inv_create [OF m(2) ar_create(2,3) prod.collapse [symmetric]] show ?case by simp
next
  case (ar_free ra m name r' m')
  then have m: "cat_region (ra_base ra) m" "cat_inv ra (abs_catalog (ra_base ra) (cache m))" by simp_all
  from asim_result [OF asim_free_region [OF m(1) refl] ar_free(2)] cat_inv_free [OF m(2)]
  show ?case by simp
next
  case (ar_recover ra m n m')
  then have m: "cat_region (ra_base ra) m" "cat_inv ra (abs_catalog (ra_base ra) (cache m))" by simp_all
  from asim_result [OF asim_alloc_recover [OF m(1) refl] ar_recover(2)] cat_inv_repair [OF m(2)]
  show ?case by (simp add: alloc_recover_spec_def)
next
  case (ar_data ra m off bs m')
  then have m: "cat_region (ra_base ra) m" "cat_inv ra (abs_catalog (ra_base ra) (cache m))" by simp_all
  from ar_data(3) have m': "m' = m\<lparr>cache := poke (cache m) (unat off) bs\<rparr>"
    by (auto simp: run.simps mb_write_def split: if_splits)
  have "abs_catalog (ra_base ra) (cache m') = abs_catalog (ra_base ra) (cache m)"
    using ar_data(2) by (intro abs_catalog_data) (simp add: m' poke_out)
  with m m' show ?case by simp
qed

section \<open>The space check wraps\<close>

lemma huge_region_accepted:
  assumes "length name \<le> 24" "find_spec name K = Inl e" "free_slot_spec K = Some slot"
  shows "fst (create_spec ra name (- next_offset_spec K) K) =
    Inr \<lparr>rh_slot = slot, rh_name = name, rh_offset = next_offset_spec K, rh_size = - next_offset_spec K\<rparr>"
  using assms by (simp add: create_spec_def Let_def)

end
