(* ===== verification/Durable.thy ===== *)
theory Durable
  imports LogContract Crash
begin

text \<open>
  What survives a power loss after several operations. Three ingredients: a run with
  evictions computes the same cached contents as \<open>run\<close>; the committed tail never goes down,
  in the cache or on the media; and an append leaves the bytes of every other slot alone.
\<close>

section \<open>Evictions do not change what a program computes\<close>

lemma step_cache:
  assumes "step p m1 = Some (Inr (p', n1))" "cache m2 = cache m1" "same_map m1 m2"
  shows "\<exists>n2. step p m2 = Some (Inr (p', n2)) \<and> cache n2 = cache n1 \<and> same_map n1 n2"
proof (cases p)
  case (Flush a n k)
  with assms have f: "p' = k" "n1 = flushed m1 a n" "mb_flush m2 a n = Inr (flushed m2 a n)"
    by (auto simp: mb_defs flushed_def same_map_def split: if_splits)
  with Flush assms(2,3) show ?thesis by (simp add: same_map_def)
qed (use assms in \<open>auto simp: mb_defs same_map_def Let_def split: if_splits option.splits sum.splits\<close>)

lemma steps_snoc:
  "steps p m p1 m1 \<Longrightarrow> step p1 m1 = Some (Inr (p2, m2)) \<Longrightarrow> steps p m p2 m2"
  by (induction rule: steps.induct) (auto intro: steps.intros)

lemma steps_run: "steps p m q m' \<Longrightarrow> q = Ret x \<Longrightarrow> run p m = Inr (x, m')"
  by (induction rule: steps.induct) (simp_all add: run_step)

lemma crash_reach_steps:
  "crash_reach p m p' m' \<Longrightarrow> \<exists>n. steps p m p' n \<and> cache n = cache m' \<and> same_map m' n"
proof (induction rule: crash_reach.induct)
  case (cr_refl p m)
  then show ?case using st_refl same_map_refl by blast
next
  case (cr_step p m p' m' p'' m'')
  from cr_step.IH obtain n where n: "steps p m p' n" "cache n = cache m'" "same_map m' n" by blast
  from step_cache [OF cr_step.hyps(2) n(2,3)] steps_snoc [OF n(1)] show ?case by blast
next
  case (cr_evict p m p' m' l)
  then show ?case by (auto simp: write_back_def same_map_def)
qed

lemma crash_reach_run:
  assumes "crash_reach p m (Ret x) m'"
  obtains n where "run p m = Inr (x, n)" "cache n = cache m'"
proof -
  from crash_reach_steps [OF assms] obtain n where n: "steps p m (Ret x) n" "cache n = cache m'" by blast
  show thesis by (rule that [OF steps_run [OF n(1) refl] n(2)])
qed

section \<open>The committed tail never goes down\<close>

primrec tail_up :: "'a prog \<Rightarrow> bool" where
  "tail_up (Ret x) \<longleftrightarrow> True"
| "tail_up (Fail e) \<longleftrightarrow> True"
| "tail_up (Read a n k) \<longleftrightarrow> (\<forall>v. tail_up (k v))"
| "tail_up (Write a bs k) \<longleftrightarrow> 40 \<le> unat a \<and> tail_up k"
| "tail_up (LoadU64 a ord k) \<longleftrightarrow> (\<forall>v. tail_up (k v))"
| "tail_up (StoreU64 a v ord k) \<longleftrightarrow> 40 \<le> unat a \<and> tail_up k"
| "tail_up (FetchAddU64 a d ord k) \<longleftrightarrow> 40 \<le> unat a \<and> (\<forall>v. tail_up (k v))"
| "tail_up (CompareExchangeU64 a x d o1 o2 k) \<longleftrightarrow>
     (40 \<le> unat a \<or> unat a = 32 \<and> unat x \<le> unat d) \<and> (\<forall>v. tail_up (k v))"
| "tail_up (LoadU8 a ord k) \<longleftrightarrow> (\<forall>v. tail_up (k v))"
| "tail_up (StoreU8 a v ord k) \<longleftrightarrow> 40 \<le> unat a \<and> tail_up k"
| "tail_up (Flush a n k) \<longleftrightarrow> tail_up k"

definition tail_from :: "nat \<Rightarrow> mmap \<Rightarrow> bool" where
  "tail_from T m \<longleftrightarrow> line_aligned m \<and>
     T \<le> unat (get64 (cache m) 32) \<and> T \<le> unat (get64 (media m) 32)"

lemma line_aligned_write_back [simp]: "line_aligned (write_back l m) = line_aligned m"
  by (simp add: line_aligned_def write_back_def mapped_def)

lemma header_line:
  assumes "line_aligned m" "x < 64"
  shows "line_of m x = line_of m 0"
proof -
  have "64 dvd unat (mm_ptr m)" using assms(1) by (simp add: line_aligned_def mod_eq_0_iff_dvd)
  then obtain q where "unat (mm_ptr m) = 64 * q" by (elim dvdE)
  with assms(2) show ?thesis by (simp add: line_of_def)
qed

lemma tail_from_evict: "tail_from T m \<Longrightarrow> tail_from T (write_back l m)"
proof -
  assume t: "tail_from T m"
  then have al: "line_aligned m" and T: "T \<le> unat (get64 (cache m) 32)" "T \<le> unat (get64 (media m) 32)"
    by (simp_all add: tail_from_def)
  have "T \<le> unat (get64 (media (write_back l m)) 32)"
  proof (cases "line_of m 0 = l")
    case True
    have "get64 (media (write_back l m)) 32 = get64 (cache m) 32"
      by (rule get64_cong) (simp add: write_back_def header_line [OF al] True)
    with T(1) show ?thesis by (simp only:)
  next
    case False
    then have "line_of m x \<noteq> l" if "x < 64" for x
      using header_line [OF al that] by metis
    then have "get64 (media (write_back l m)) 32 = get64 (media m) 32"
      by (intro get64_cong) (simp add: write_back_def)
    with T(2) show ?thesis by (simp only:)
  qed
  moreover have "cache (write_back l m) = cache m" by (simp add: write_back_def)
  ultimately show ?thesis using al T(1) by (simp only: tail_from_def line_aligned_write_back)
qed

lemma clwb_loop_closed: "evict_closed P \<Longrightarrow> P m \<Longrightarrow> P (clwb_loop p e m)"
proof (induction p e m rule: clwb_loop.induct)
  case (1 p e m)
  have "P (clwb p m)" using "1.prems" by (auto simp: clwb_def evict_closed_def split: arch.split)
  with 1 show ?case by (subst clwb_loop.simps) simp
qed

lemma flush_closed: "evict_closed P \<Longrightarrow> P m \<Longrightarrow> P (flush_range a n m)"
  by (simp add: flush_range_def Let_def sfence_def clwb_loop_closed)

lemma tail_from_cache:
  assumes "tail_from T m" "unat (get64 (cache m) 32) \<le> unat (get64 c 32)"
  shows "tail_from T (m\<lparr>cache := c\<rparr>)"
  using assms by (simp add: tail_from_def line_aligned_def mapped_def)

lemma tail_from_step:
  assumes "step p m = Some (Inr (p', m'))" "tail_up p" "tail_from T m"
  shows "tail_up p' \<and> tail_from T m'"
proof (cases p)
  case (Flush a n k)
  have "evict_closed (tail_from T)" by (simp add: evict_closed_def tail_from_evict)
  from flush_closed [OF this assms(3)] Flush assms show ?thesis
    by (auto simp: mb_defs split: if_splits)
next
  case (Write a bs k)
  with assms show ?thesis
    by (auto simp: mb_defs get64_poke_disjoint split: if_splits intro!: tail_from_cache)
qed (use assms in \<open>auto simp: mb_defs Let_def get64_put64_disjoint get64_upd_disjoint
      split: if_splits option.splits sum.splits intro!: tail_from_cache\<close>)

lemma crash_reach_tail:
  "crash_reach p m p' m' \<Longrightarrow> tail_up p \<Longrightarrow> tail_from T m \<Longrightarrow> tail_up p' \<and> tail_from T m'"
proof (induction rule: crash_reach.induct)
  case (cr_step p m p' m' p'' m'')
  then show ?case using tail_from_step by blast
qed (simp_all add: tail_from_evict)

lemma tail_up_bind: "tail_up p \<Longrightarrow> (\<And>x. tail_up (f x)) \<Longrightarrow> tail_up (prog_bind p f)"
  by (induction p) auto

text \<open>A scan ends at or after its start, so the compare-and-swap only moves the tail up.\<close>

lemma tail_up_scan:
  "(\<And>n. unat t \<le> unat n \<Longrightarrow> tail_up (f n)) \<Longrightarrow> tail_up (prog_bind (scan_committed g t) f)"
proof (induction g t rule: scan_committed.induct)
  case (1 g t)
  show ?case
  proof (cases "t < ucast (g_capacity g)")
    case False
    with "1.prems" show ?thesis by (subst scan_committed.simps) simp
  next
    case True
    then have "unat t < cap g" by (simp add: word_less_nat_alt)
    then have "unat (t + 1) = Suc (unat t)"
      using unat_u32_le [of "g_capacity g"] by (subst unat_add_lt64) simp_all
    then have "tail_up (prog_bind (scan_committed g (t + 1)) f)"
      using "1.IH" [OF True refl refl] "1.prems" by simp
    with True "1.prems" show ?thesis by (subst scan_committed.simps) (simp add: Let_def)
  qed
qed

lemma tail_up_advance: "tail_up (advance_committed_tail g)"
proof -
  have "tail_up (advance_loop n g)" for n
    by (induction n) (auto intro!: tail_up_scan split: sum.split)
  then show ?thesis by (simp only: advance_committed_tail_def)
qed

lemma behind_40: "40 \<le> unat (record_offset g s)" "unat c < 4294967296 \<Longrightarrow> 40 \<le> unat (record_offset g s + c)"
  "unat c < 4294967296 \<Longrightarrow> 40 \<le> unat (metrics_offset g h + c)"
  using rec_base_ge [of g "unat s"] met_base_ge [of g "unat h"]
  by (simp_all add: unat_record_offset unat_record_offset_plus unat_metrics_offset_plus)

lemma behind_40_metrics: "40 \<le> unat (metrics_offset g h)"
  using met_base_ge [of g "unat h"] by (simp add: unat_metrics_offset)

lemma tail_up_increments:
  "tail_up (increment_appends g h)" "tail_up (increment_appends_failed g h)"
  "tail_up (increment_bytes_written g h n)" "tail_up (increment_reads g h)"
  "tail_up (increment_checksum_failures g h)" "tail_up (increment_recovery_runs g h)"
  "tail_up (increment_abandoned_found g h n)"
  unfolding increment_appends_def increment_appends_failed_def increment_bytes_written_def
    increment_reads_def increment_checksum_failures_def increment_recovery_runs_def
    increment_abandoned_found_def Let_def
  by (simp_all add: behind_40 behind_40_metrics)

lemmas tail_up_intros = tail_up_bind tail_up_advance tail_up_increments

lemma tail_up_read_payload: "(\<And>bs. tail_up (k bs)) \<Longrightarrow> tail_up (read_payload off n k)"
  by (simp add: read_payload_def)

lemma tail_up_append: "tail_up (append H rt term data)"
  by (auto simp: append_def append_record_def Let_def behind_40 intro!: tail_up_intros)

lemma tail_up_read: "tail_up (read H rt index)"
  by (auto simp: read_def committed_tail_def Let_def intro!: tail_up_intros tail_up_read_payload)

lemma tail_up_read_range: "tail_up (read_range H rt a b)"
proof -
  have "tail_up (read_loop H rt is rs)" for "is" rs
    by (induction "is" arbitrary: rs) (auto intro!: tail_up_bind tail_up_read split: sum.split option.split)
  then show ?thesis by (simp add: read_range_def)
qed

lemma tail_up_trim: "tail_up (trim g n)"
proof -
  have "tail_up (trim_scan g ss cnt)" for ss cnt
    by (induction ss arbitrary: cnt) (auto simp: Let_def behind_40)
  then show ?thesis by (auto simp: trim_def intro!: tail_up_bind)
qed

lemma tail_up_recover: "tail_up (recover H g)"
proof -
  have slot: "tail_up (recover_slot H g s cnt)" for s cnt
    by (auto simp: recover_slot_def Let_def behind_40 intro!: tail_up_read_payload)
  have "tail_up (recover_scan H g ss cnt)" for ss cnt
    by (induction ss arbitrary: cnt) (auto intro!: tail_up_bind slot)
  then show ?thesis by (auto simp: recover_def Let_def intro!: tail_up_intros)
qed

lemma tail_up_stats: "tail_up (stats rt)"
proof -
  have "tail_up (read_stats_loop g hs st)" for g hs st
    by (induction hs arbitrary: st) (simp_all add: Let_def)
  then show ?thesis by (simp add: stats_def read_stats_def)
qed

lemma tail_up_op: "tail_up (op_prog H rt op)"
  by (cases op)
    (auto simp: runtime_trim_def runtime_recover_def committed_tail_def reserve_tail_def
      intro!: tail_up_intros tail_up_append tail_up_read tail_up_read_range tail_up_trim
        tail_up_recover tail_up_stats)

lemma tail_up_session: "tail_up (session H g ops)"
  by (induction ops rule: session.induct) (auto intro!: tail_up_bind tail_up_op)

end
