(* ===== verification/Batch.thy ===== *)
theory Batch
  imports Durable
begin

text \<open>
  A sequence of appends on a log without gaps, and a power loss after it: every acknowledged
  record is on the media, and recovery makes all of them readable again.
\<close>

section \<open>Combining crash triples\<close>

lemma crash_spec_conj:
  "crash_spec P p Q1 C1 \<Longrightarrow> crash_spec P p Q2 C2 \<Longrightarrow>
   crash_spec P p (\<lambda>x m. Q1 x m \<and> Q2 x m) (\<lambda>m. C1 m \<and> C2 m)"
  by (simp add: crash_spec_def)

lemma crash_spec_pointwise: "(\<And>m. P m \<Longrightarrow> crash_spec ((=) m) p Q C) \<Longrightarrow> crash_spec P p Q C"
  unfolding crash_spec_def by metis

section \<open>The bytes an append leaves alone\<close>

definition append_bytes :: "pool_geometry \<Rightarrow> nat \<Rightarrow> u16 \<Rightarrow> nat set" where
  "append_bytes g s h = rec_region g s \<union> {32..<48} \<union> metrics_bytes g h"

lemma append_record_footprint:
  assumes "pool (rt_geometry rt) m" "unat slot < cap (rt_geometry rt)" "length data \<le> psz (rt_geometry rt)"
  shows "writes_within (append_bytes (rt_geometry rt) (unat slot) (rt_host_id rt)) (append_record H rt term data slot)"
proof -
  let ?g = "rt_geometry rt"
  have sl: "unat (ucast slot :: u32) = unat slot" by (rule slot_arith(1) [OF assms(1,2)])
  have rs: "rsz ?g = 64 + psz ?g" by (rule geom_okD(4) [OF poolD(1) [OF assms(1)]])
  have sub: "{rec_base ?g (unat slot) + k..<rec_base ?g (unat slot) + k + n} \<subseteq>
      append_bytes ?g (unat slot) (rt_host_id rt)" if "k + n \<le> 64 + psz ?g" for k n
    using that rs by (auto simp: append_bytes_def rec_region_def)
  have fp: "writes_within (append_bytes ?g (unat slot) (rt_host_id rt)) (advance_committed_tail ?g)"
    "writes_within (append_bytes ?g (unat slot) (rt_host_id rt)) (increment_appends ?g (rt_host_id rt))"
    "writes_within (append_bytes ?g (unat slot) (rt_host_id rt)) (increment_bytes_written ?g (rt_host_id rt) n)" for n
    by (auto intro!: advance_footprint increments_footprint simp: append_bytes_def)
  show ?thesis
    using sub [of 0 1] sub [of 8 8] sub [of 16 8] sub [of 24 8] sub [of 32 4] sub [of 40 8]
      sub [of 64 "length data"] assms(3)
    by (auto simp: append_record_def Let_def unat_record_offset_plus unat_record_offset sl
        intro!: writes_within_bind fp)
qed

lemma evicted_frame: "evicted m m' \<Longrightarrow> frame B m m'"
  by (induction rule: evicted.induct) (simp_all add: frame_refl frame_write_back)

lemma crash_append_frame:
  assumes "pool g m" "rt_geometry rt = g" "length data \<le> psz g"
    and r: "r = get64 (cache m) 40" "unat r < cap g"
  shows "crash_spec ((=) m) (append H rt term data)
    (\<lambda>_. frame (append_bytes g (unat r) (rt_host_id rt)) m)
    (frame (append_bytes g (unat r) (rt_host_id rt)) m)"
proof (rule crash_specI)
  let ?B = "append_bytes g (unat r) (rt_host_id rt)"
  fix m0 p' m' assume m0: "m = m0" "crash_reach (append H rt term data) m0 p' m'"
  define k where "k = (\<lambda>slot. if slot \<ge> ucast (g_capacity g) then
      FetchAddU64 HDR_RESERVE_TAIL 0xFFFFFFFFFFFFFFFF Relaxed (\<lambda>_.
      prog_bind (increment_appends_failed g (rt_host_id rt)) (\<lambda>_.
      Ret (Inl (PoolFull (g_capacity g) slot))))
    else append_record H rt term data slot)"
  have app: "append H rt term data = FetchAddU64 HDR_RESERVE_TAIL 1 AcqRel k"
    using assms(2,3) by (simp add: append_def Let_def k_def)
  have "\<not> ucast (g_capacity g) \<le> r" using r(2) by (simp add: not_le word_less_nat_alt)
  then have kr: "writes_within ?B (k r)"
    using append_record_footprint [of rt m r data H "term"] assms(1-3) r(2) by (simp add: k_def)
  have "frame ?B m m'"
    using crash_reach_head [OF m0(2)]
  proof (elim disjE conjE exE)
    assume "evicted m0 m'"
    then show ?thesis using m0(1) evicted_frame by blast
  next
    fix m1 p1 m2
    assume e: "evicted m0 m1" and st: "step (append H rt term data) m1 = Some (Inr (p1, m2))"
      and rest: "crash_reach p1 m2 p' m'"
    have f1: "frame ?B m m1" using e m0(1) evicted_frame by blast
    have c1: "cache m1 = cache m"
      using e m0(1) by (induction rule: evicted.induct) (simp_all add: write_back_def)
    have p1: "p1 = k r" "m2 = m1\<lparr>cache := put64 (cache m1) 40 (r + 1)\<rparr>"
      using st by (auto simp: app mb_defs Let_def c1 r(1) split: if_splits)
    have "put64 (cache m1) 40 (r + 1) x = cache m1 x" if "x \<notin> ?B" for x
      using that by (intro put64_out) (auto simp: append_bytes_def)
    then have f2: "frame ?B m1 m2"
      unfolding p1(2) by (intro frame_cache [OF frame_refl])
    have "mapped m2" using poolD(4) [OF assms(1)] f1 f2 by (simp add: frame_def mapped_def)
    from crash_reach_frame [OF rest [unfolded p1(1)] kr this] f1 f2 show ?thesis
      using frame_trans by blast
  qed
  then show "frame ?B m m' \<and> (\<forall>x. p' = Ret x \<longrightarrow> frame ?B m m')" by simp
qed

section \<open>Stable logs\<close>

definition synced :: "pool_geometry \<Rightarrow> mmap \<Rightarrow> nat \<Rightarrow> bool" where
  "synced g m s \<longleftrightarrow> (\<forall>x\<in>rec_region g s. media m x = cache m x)"

text \<open>
  \<open>stable\<close>: the cache holds the settled log \<open>L\<close>, the media holds every reserved slot, no free
  slot is committed on the media, and the committed tail on the media is at least \<open>T\<close>.
\<close>

definition stable :: "'h hasher \<Rightarrow> pool_geometry \<Rightarrow> nat \<Rightarrow> log \<Rightarrow> mmap \<Rightarrow> bool" where
  "stable H g T L m \<longleftrightarrow>
     pool g m \<and> mm_arch m = X86_64 \<and> tail_from T m \<and> abs_log H g (cache m) = L \<and> settled g L \<and>
     (\<forall>s<cap g. s < unat (l_tail L) \<longrightarrow> synced g m s) \<and>
     (\<forall>s<cap g. unat (l_tail L) \<le> s \<longrightarrow> media m (rec_base g s) \<noteq> STATE_COMMITTED)"

lemma settled_free:
  assumes "settled g L" "unat (l_tail L) \<le> s" "s < cap g"
  shows "l_slots L ! s = SFree"
proof -
  have "log_inv g L" "l_reserve L = l_tail L" using assms(1) by (simp_all add: settled_def)
  with log_invD(4) [of g L s] assms(2,3) show ?thesis by (cases "l_slots L ! s") auto
qed

lemma stable_free:
  assumes "stable H g T L m" "s < cap g" "unat (l_tail L) \<le> s"
  shows "cache m (rec_base g s) \<noteq> STATE_COMMITTED"
proof -
  have "settled g L" "abs_log H g (cache m) = L" using assms(1) by (simp_all add: stable_def)
  with settled_free [OF _ assms(3,2)] have "slot_view H g (cache m) s = SFree"
    using assms(2) by (metis abs_log_sel(1) nth_map_upt add_0 diff_zero)
  then show ?thesis using committed_state_view [of H g "cache m" s] by simp
qed

lemma stable_evict: "evict_closed (stable H g T L)"
proof -
  have "stable H g T L (write_back l m)" if S: "stable H g T L m" for l m
  proof -
    have c: "cache (write_back l m) = cache m" and p: "pool g (write_back l m)" "mm_arch (write_back l m) = X86_64"
      using S by (auto simp: stable_def write_back_def pool_def mapped_def)
    have m: "media (write_back l m) x = cache m x \<or> media (write_back l m) x = media m x" for x
      by (simp add: write_back_def)
    have free: "cache m (rec_base g s) \<noteq> STATE_COMMITTED" if "s < cap g" "unat (l_tail L) \<le> s" for s
      using stable_free [OF S that] .
    have "synced g (write_back l m) s" if "s < cap g" "s < unat (l_tail L)" for s
      using S that m by (auto simp: stable_def synced_def c) (metis)
    moreover have "media (write_back l m) (rec_base g s) \<noteq> STATE_COMMITTED"
      if "s < cap g" "unat (l_tail L) \<le> s" for s
      using S that m [of "rec_base g s"] free [OF that] by (auto simp: stable_def)
    moreover have "tail_from T (write_back l m)" using S by (simp add: stable_def tail_from_evict)
    ultimately show ?thesis using S p by (simp add: stable_def c)
  qed
  then show ?thesis by (simp add: evict_closed_def)
qed

lemma rec_region_append_bytes:
  assumes "s < cap g" "s \<noteq> r"
  shows "rec_region g s \<inter> append_bytes g r h = {}"
proof -
  have "64 \<le> x \<and> x < met_base g (unat h)" if "x \<in> rec_region g s" for x
    using that rec_base_ge [of g s] rec_end_le_met [OF assms(1), of "unat h"] by (auto simp: rec_region_def)
  with rec_region_disjoint [OF assms(2), of g] show ?thesis
    by (fastforce simp: append_bytes_def metrics_bytes_def)
qed

lemma stable_append:
  assumes "stable H g T L m" "rt_geometry rt = g" "unat (rt_host_id rt) < hosts g"
    and "length data \<le> psz g" "unat (l_tail L) < cap g"
  shows "crash_spec ((=) m) (append H rt term data)
    (\<lambda>x m'. x = Inr (l_tail L + 1) \<and> stable H g T (log_add g (rt_host_id rt, term, data) L) m') (\<lambda>_. True)"
proof -
  let ?h = "rt_host_id rt" and ?r = "l_tail L" and ?e = "new_record (rt_host_id rt) (l_tail L) term data"
  have S: "pool g m" "mm_arch m = X86_64" "tail_from T m" "abs_log H g (cache m) = L" "settled g L"
    "\<And>s. s < cap g \<Longrightarrow> s < unat ?r \<Longrightarrow> synced g m s"
    "\<And>s. s < cap g \<Longrightarrow> unat ?r \<le> s \<Longrightarrow> media m (rec_base g s) \<noteq> STATE_COMMITTED"
    using assms(1) by (auto simp: stable_def)
  have r: "?r = get64 (cache m) 40" using S(4,5) by (auto simp: settled_def)
  note ok = poolD(1) [OF S(1)]
  have free: "cache m (rec_base g s) \<noteq> STATE_COMMITTED" if "s < cap g" "unat ?r \<le> s" for s
    by (rule stable_free [OF assms(1) that])
  have media: "crash_spec ((=) m) (append H rt term data)
      (\<lambda>x m'. x = Inr (?r + 1) \<and> durable H g (other_bytes rt) m (unat ?r) ?e m')
      (crash_safe H g (other_bytes rt) m (unat ?r) ?e)"
    by (rule crash_append [OF S(1,2) assms(2,4) r assms(5)])
      (use free [OF assms(5)] S(7) [OF assms(5)] in simp_all)
  have fr: "crash_spec ((=) m) (append H rt term data)
      (\<lambda>_. frame (append_bytes g (unat ?r) ?h) m) (frame (append_bytes g (unat ?r) ?h) m)"
    by (rule crash_append_frame [OF S(1) assms(2,4) r assms(5)])
  note app = settled_append(1,2) [OF S(5) assms(4,5), of ?h "term"] settled_append(3) [OF S(5) assms(4,5)]
  have "x = Inr (?r + 1) \<and> stable H g T (log_add g (?h, term, data) L) m'"
    if reach: "crash_reach (append H rt term data) m (Ret x) m'" for x m'
  proof -
    have x: "x = Inr (?r + 1)" and dur: "durable H g (other_bytes rt) m (unat ?r) ?e m'"
      using crash_specD(2) [OF media refl reach] by simp_all
    have f: "frame (append_bytes g (unat ?r) ?h) m m'" using crash_specD(2) [OF fr refl reach] .
    obtain n where n: "run (append H rt term data) m = Inr (x, n)" "cache n = cache m'"
      by (rule crash_reach_run [OF reach])
    have L': "abs_log H g (cache m') = log_add g (?h, term, data) L"
      using sim_append [OF S(1) assms(2,3), of H "term" data] n S(4) by (auto simp: sim_def)
    have tail: "l_tail (log_add g (?h, term, data) L) = ?r + 1"
      by (simp add: app(1))
    have other: "cache m' x = cache m x" "media m' x = media m x \<or> media m' x = cache m x"
      if "s < cap g" "s \<noteq> unat ?r" "x \<in> rec_region g s" for s x
      using f rec_region_append_bytes [OF that(1,2)] that(3) by (auto simp: frame_def)
    have "synced g m' s" if "s < cap g" "s < unat (?r + 1)" for s
    proof (cases "s = unat ?r")
      case True
      with dur show ?thesis by (simp add: durable_def synced_def)
    next
      case False
      with that app(3) have "synced g m s" by (intro S(6)) simp_all
      with other [OF that(1) False] show ?thesis by (auto simp: synced_def)
    qed
    moreover have "media m' (rec_base g s) \<noteq> STATE_COMMITTED" if "s < cap g" "unat (?r + 1) \<le> s" for s
    proof -
      have "rec_base g s \<in> rec_region g s" using geom_okD(4) [OF ok] by (simp add: rec_region_def)
      with other(2) [of s "rec_base g s"] S(7) [of s] free [of s] that app(3) show ?thesis by auto
    qed
    moreover have "pool g m'" by (rule crash_reach_pool [OF reach S(1)])
    moreover have "mm_arch m' = X86_64" using f S(2) by (simp add: frame_def)
    moreover have "tail_from T m'" using crash_reach_tail [OF reach tail_up_append S(3)] by simp
    ultimately show ?thesis using x L' app(2) by (simp add: stable_def tail del: log_add.simps) simp
  qed
  then show ?thesis by (auto intro!: crash_specI)
qed

lemma stable_session:
  assumes "stable H g T L m" "list_all (entry_fits g) as" "unat (l_tail L) + length as \<le> cap g"
    and "list_all (\<lambda>(h, _). unat h < hosts g) as"
  shows "crash_spec ((=) m) (session H g (map append_op as))
    (\<lambda>rs m'. rs = map (\<lambda>i. RAppend (Inr (word_of_nat (unat (l_tail L) + i + 1)))) [0..<length as] \<and>
       stable H g T (fold (log_add g) as L) m') (\<lambda>_. True)"
  using assms
proof (induction "as" arbitrary: L m)
  case Nil
  have "evict_closed (stable H g T L)"
    by (rule stable_evict)
  then have "crash_spec (stable H g T L) (Ret [])
      (\<lambda>rs m'. rs = [] \<and> stable H g T L m') (\<lambda>_. True)"
    by (rule crash_spec_Ret) simp_all
  then have "crash_spec ((=) m) (Ret [])
      (\<lambda>rs m'. rs = ([] :: outcome list) \<and> stable H g T L m') (\<lambda>_. True)"
    by (rule crash_spec_pre) (use Nil.prems(1) in blast)
  then show ?case by simp
next
  case (Cons a "as")
  obtain h t d where a: "a = (h, t, d)" by (cases a)
  let ?rt = "\<lparr>rt_geometry = g, rt_host_id = h\<rparr>" and ?L1 = "log_add g a L" and ?r = "l_tail L"
  have fits: "unat h < hosts g" "length d \<le> psz g" "unat ?r < cap g" "settled g L"
    using Cons.prems by (simp_all add: a stable_def)
  note app = settled_append(1) [OF fits(4,2,3), of h t] settled_append(3) [OF fits(4,2,3)]
  have t1: "unat (l_tail ?L1) = Suc (unat ?r)" by (simp add: a app)
  have first: "crash_spec ((=) m) (prog_bind (append H ?rt t d) (\<lambda>r. Ret (RAppend r)))
      (\<lambda>x m'. x = RAppend (Inr (?r + 1)) \<and> stable H g T ?L1 m') (\<lambda>_. True)"
  proof (rule crash_spec_bind)
    show "crash_spec ((=) m) (append H ?rt t d) (\<lambda>x m'. x = Inr (?r + 1) \<and> stable H g T ?L1 m') (\<lambda>_. True)"
      using stable_append [OF Cons.prems(1), of ?rt d t] fits by (simp add: a)
    show "crash_spec (\<lambda>m'. x = Inr (?r + 1) \<and> stable H g T ?L1 m') (Ret (RAppend x))
        (\<lambda>x m'. x = RAppend (Inr (?r + 1)) \<and> stable H g T ?L1 m') (\<lambda>_. True)" for x
      by (rule crash_spec_Ret) (use stable_evict [of H g T ?L1] in \<open>auto simp: evict_closed_def\<close>)
  qed
  have rest: "crash_spec (stable H g T ?L1) (session H g (map append_op as))
      (\<lambda>rs m'. rs = map (\<lambda>i. RAppend (Inr (word_of_nat (unat (l_tail ?L1) + i + 1)))) [0..<length as] \<and>
         stable H g T (fold (log_add g) as ?L1) m') (\<lambda>_. True)"
    by (rule crash_spec_pointwise, rule Cons.IH) (use Cons.prems t1 in simp_all)
  have last: "crash_spec (\<lambda>m'. rs = map (\<lambda>i. RAppend (Inr (word_of_nat (unat (l_tail ?L1) + i + 1)))) [0..<length as] \<and>
         stable H g T (fold (log_add g) as ?L1) m')
      (Ret (RAppend (Inr (?r + 1)) # rs))
      (\<lambda>rs m'. rs = map (\<lambda>i. RAppend (Inr (word_of_nat (unat ?r + i + 1)))) [0..<length (a # as)] \<and>
         stable H g T (fold (log_add g) (a # as) L) m') (\<lambda>_. True)" for rs
    by (rule crash_spec_Ret)
      (use stable_evict [of H g T "fold (log_add g) as ?L1"] in
        \<open>auto simp: evict_closed_def map_upt_Suc t1 simp del: upt_Suc\<close>)
  have "crash_spec (\<lambda>m'. x = RAppend (Inr (?r + 1)) \<and> stable H g T ?L1 m')
      (prog_bind (session H g (map append_op as)) (\<lambda>rs. Ret (x # rs)))
      (\<lambda>rs m'. rs = map (\<lambda>i. RAppend (Inr (word_of_nat (unat ?r + i + 1)))) [0..<length (a # as)] \<and>
         stable H g T (fold (log_add g) (a # as) L) m') (\<lambda>_. True)" for x
  proof (cases "x = RAppend (Inr (?r + 1))")
    case True
    show ?thesis unfolding True
      by (rule crash_spec_pre [OF crash_spec_bind [OF rest last]]) simp
  qed (simp add: crash_spec_def)
  with first show ?case
    by (simp add: a) (rule crash_spec_bind, assumption)
qed

section \<open>Recovery\<close>

text \<open>
  From a tail at or above \<open>T\<close> and committed slots from \<open>T\<close> to \<open>n\<close>, recovery moves the tail
  to at least \<open>n\<close>, and the records can be read.
\<close>

lemma takeWhile_long:
  assumes "k \<le> length xs" "\<And>i. i < k \<Longrightarrow> P (xs ! i)"
  shows "k \<le> length (takeWhile P xs)"
proof (rule ccontr)
  assume "\<not> k \<le> length (takeWhile P xs)"
  then have "length (takeWhile P xs) < k" by simp
  with nth_length_takeWhile [of P xs] assms show False by simp
qed

lemma tail_spec_reaches:
  assumes "length (l_slots L) \<le> cap g" "n \<le> length (l_slots L)"
    and "\<And>s. unat (l_tail L) \<le> s \<Longrightarrow> s < n \<Longrightarrow> committed_state (l_slots L ! s)"
  shows "n \<le> unat (tail_spec L)"
proof (cases "unat (l_tail L) \<le> n")
  case True
  then have le: "unat (l_tail L) \<le> length (l_slots L)" using assms(2) by simp
  have "n - unat (l_tail L) \<le> length (committed_run L)"
    by (rule takeWhile_long) (use assms(2,3) True le in auto)
  with unat_tail_spec(1) [OF le assms(1)] show ?thesis by simp
next
  case False
  show ?thesis
  proof (cases "unat (l_tail L) \<le> length (l_slots L)")
    case True
    from unat_tail_spec(1) [OF True assms(1)] False show ?thesis by simp
  next
    case False': False
    with False show ?thesis by (simp add: tail_spec_def)
  qed
qed

lemma recover_reads:
  assumes "pool g m" "rt_geometry rt = g" "unat (rt_host_id rt) < hosts g"
    and "T \<le> unat (get64 (cache m) 32)" "n \<le> cap g"
    and "\<And>s. T \<le> s \<Longrightarrow> s < n \<Longrightarrow> slot_view H g (cache m) s = SCommitted (f s)"
    and "T \<le> i" "i < n"
  shows "\<exists>rep m1 m2. run (runtime_recover H rt) m = Inr (rep, m1) \<and>
    run (read H rt (word_of_nat (i + 1))) m1 = Inr (Inr (Some (f i)), m2)"
proof -
  let ?L = "abs_log H g (cache m)" and ?h = "rt_host_id rt" and ?idx = "word_of_nat (i + 1) :: u64"
  let ?swept = "?L\<lparr>l_slots := sweep fix_slot (unat (scan_limit g ?L)) (l_slots ?L)\<rparr>"
  obtain rep m1 where m1: "run (runtime_recover H rt) m = Inr (rep, m1)" "pool g m1"
    "abs_log H g (cache m1) = snd (runtime_recover_spec g ?h ?L)"
    using sim_runtime_recover [OF assms(1-3) refl, of H] by (auto simp: sim_def)
  let ?L1 = "abs_log H g (cache m1)"
  have sel: "l_slots ?L1 = l_slots (repair g ?L)" "l_tail ?L1 = l_tail (repair g ?L)"
    unfolding m1(3) by (simp_all add: runtime_recover_spec_def recover_spec_def Let_def)
  have len: "length (l_slots ?swept) = cap g" by simp
  have slot: "l_slots ?swept ! s = SCommitted (f s)" if "T \<le> s" "s < n" for s
    using assms(5) assms(6) [OF that] that by (simp add: nth_sweep fix_slot_def)
  have "n \<le> unat (tail_spec ?swept)"
    by (rule tail_spec_reaches [where g = g]) (use len assms(4,5) slot in auto)
  then have tail: "n \<le> unat (l_tail ?L1)" 
    unfolding sel(2) repair_def advance_spec_def by simp
  have "i + 1 \<le> 4294967295" using assms(5,8) unat_u32_le [of "g_capacity g"] by linarith
  then have idx: "unat ?idx = i + 1"
    by (simp add: unsigned_of_nat take_bit_nat_eq_self del: of_nat_add of_nat_Suc)
  have "l_slots ?L1 ! i = SCommitted (f i)"
    using slot [OF assms(7,8)] by (simp only: sel(1) repair_sel) simp
  moreover have "?idx \<noteq> 0" using idx by (metis add_is_0 one_neq_zero unsigned_0)
  moreover have "\<not> l_tail ?L1 < ?idx" using idx tail assms(8) by (simp add: word_less_nat_alt del: of_nat_add of_nat_Suc)
  ultimately have "fst (read_spec ?h ?idx ?L1) = Inr (Some (f i))"
    using idx by (simp add: read_spec_def del: of_nat_add of_nat_Suc abs_log_sel)
  moreover have "sim H g m1 (read H rt ?idx) (read_spec ?h ?idx ?L1)"
    by (rule sim_read_at [OF m1(2) assms(2,3) refl]) (use idx assms(5,8) in simp)
  ultimately show ?thesis using m1(1) by (auto simp: sim_def)
qed

text \<open>The power loss after a batch.\<close>

lemma stable_media:
  assumes "stable H g T L m" "s < cap g" "s < unat (l_tail L)"
  shows "slot_view H g (media m) s = l_slots L ! s"
proof -
  have S: "geom_ok g" "abs_log H g (cache m) = L" "synced g m s"
    using assms by (auto simp: stable_def pool_def)
  have "slot_view H g (media m) s = slot_view H g (cache m) s"
    by (rule slot_view_cong [OF geom_okD(4) [OF S(1)]])
      (use S(3) in \<open>simp add: synced_def rec_region_def\<close>)
  then show ?thesis using S(2) assms(2) by auto
qed

lemma persistent_stable:
  assumes "pool g m" "line_aligned m" "mm_arch m = X86_64" "media m = cache m" "settled g (abs_log H g (cache m))"
  shows "stable H g (unat (get64 (cache m) 32)) (abs_log H g (cache m)) m"
proof -
  have "cache m (rec_base g s) \<noteq> STATE_COMMITTED" if "s < cap g" "unat (get64 (cache m) 32) \<le> s" for s
  proof -
    have "slot_view H g (cache m) s = SFree" using settled_free [OF assms(5), of s] that by simp
    then show ?thesis using committed_state_view [of H g "cache m" s] by simp
  qed
  with assms show ?thesis by (simp add: stable_def tail_from_def synced_def)
qed

lemma batch_recovered:
  assumes "stable H g (unat (l_tail L)) L m" "list_all (entry_fits g) as" "unat (l_tail L) + length as \<le> cap g"
    and "list_all (\<lambda>(h, _). unat h < hosts g) as" "rt_geometry rt = g" "unat (rt_host_id rt) < hosts g"
    and "crash_reach (session H g (map append_op as)) m (Ret rs) m'" "i < length as"
  shows "rs ! i = RAppend (Inr (word_of_nat (unat (l_tail L) + i + 1)))"
    and "\<exists>rep m1 m2. run (runtime_recover H rt) (crash m') = Inr (rep, m1) \<and>
      run (read H rt (word_of_nat (unat (l_tail L) + i + 1))) m1 =
        Inr (Inr (Some (entry_record (as ! i) (unat (l_tail L) + i))), m2)"
proof -
  let ?t = "unat (l_tail L)" and ?L1 = "fold (log_add g) as L"
  have rs: "rs = map (\<lambda>i. RAppend (Inr (word_of_nat (?t + i + 1)))) [0..<length as]"
    and st: "stable H g ?t ?L1 m'"
    using crash_specD(2) [OF stable_session [OF assms(1-4)] refl assms(7)] by simp_all
  show "rs ! i = RAppend (Inr (word_of_nat (?t + i + 1)))"
    using assms(8) by (simp add: rs)
  have L: "settled g L" using assms(1) by (simp add: stable_def)
  have t1: "unat (l_tail ?L1) = ?t + length as"
    using log_store.add_all_inv [OF L assms(2,3)] by simp
  have "slot_view H g (media m') s = SCommitted (entry_record (as ! (s - ?t)) s)"
    if "?t \<le> s" "s < ?t + length as" for s
  proof -
    have "log_lookup ?L1 s = Some (entry_record (as ! (s - ?t)) s)"
      using log_store.add_all_new [OF L assms(2,3), of "s - ?t"] that by simp
    then have "l_slots ?L1 ! s = SCommitted (entry_record (as ! (s - ?t)) s)"
      by (simp add: log_lookup_def split: slot_view.splits)
    with stable_media [OF st, of s] t1 that assms(3) show ?thesis by simp
  qed
  then have "\<exists>rep m1 m2. run (runtime_recover H rt) (crash m') = Inr (rep, m1) \<and>
      run (read H rt (word_of_nat (?t + i + 1))) m1 =
        Inr (Inr (Some (entry_record (as ! (?t + i - ?t)) (?t + i))), m2)"
    using st assms(3,5,6,8)
    by (intro recover_reads [where T = ?t and n = "?t + length as"])
      (auto simp: stable_def tail_from_def)
  then show "\<exists>rep m1 m2. run (runtime_recover H rt) (crash m') = Inr (rep, m1) \<and>
      run (read H rt (word_of_nat (?t + i + 1))) m1 =
        Inr (Inr (Some (entry_record (as ! i) (?t + i))), m2)"
    by simp
qed

end
