(* ===== verification/AllocCrash.thy ===== *)
theory AllocCrash
  imports AllocInv Batch
begin

text \<open>
  Power losses during the operations of the allocator: what the media holds of the catalog at
  every interruption point, and what the next recovery makes of it.
\<close>

section \<open>More crash triples\<close>

lemma cs_LoadU64:
  assumes "admits S c" "\<And>m. pstate m0 c S m \<Longrightarrow> C m"
    and "unat a + 8 \<le> unat (mm_len m0)" "unat a mod 8 = 0" "ord \<notin> {Release, AcqRel}"
    and "crash_spec (pstate m0 c S) (k (get64 c (unat a))) Q C"
  shows "crash_spec (pstate m0 c S) (LoadU64 a ord k) Q C"
  by (rule crash_spec_pstep [OF assms(1,2) _ assms(6)])
    (use assms(3-5) in \<open>auto simp: pstate_def mb_defs\<close>)

text \<open>A program that only reads returns what it returns when it is not interrupted.\<close>

lemma crash_spec_reads:
  assumes "admits S c" "mapped m0" "writes_within {} p"
    and "\<And>m. pstate m0 c S m \<Longrightarrow> \<exists>n. run p m = Inr (x, n)"
  shows "crash_spec (pstate m0 c S) p (\<lambda>y m. y = x \<and> pstate m0 c S m) (pstate m0 c S)"
proof (rule crash_specI)
  fix m p' m' assume m: "pstate m0 c S m" and r: "crash_reach p m p' m'"
  have "mapped m" using m assms(2) by (simp add: pstate_def mapped_def)
  then have f: "frame {} m m'" using crash_reach_frame [OF r assms(3)] by simp
  then have "pstate m0 c S m'"
    using m assms(1) by (auto simp: frame_def pstate_def admits_def fun_eq_iff) (metis)
  moreover have "y = x" if "p' = Ret y" for y
  proof -
    have "crash_reach p m (Ret y) m'" using r that by simp
    from crash_reach_run [OF this] obtain n where "run p m = Inr (y, n)" by blast
    with assms(4) [OF m] show ?thesis by auto
  qed
  ultimately show "pstate m0 c S m' \<and> (\<forall>y. p' = Ret y \<longrightarrow> y = x \<and> pstate m0 c S m')" by simp
qed

lemma crash_spec_read_bind:
  assumes "admits S c" "\<And>m. pstate m0 c S m \<Longrightarrow> C m" "mapped m0" "writes_within {} p"
    and "\<And>m. pstate m0 c S m \<Longrightarrow> \<exists>n. run p m = Inr (x, n)"
    and "crash_spec (pstate m0 c S) (f x) Q C"
  shows "crash_spec (pstate m0 c S) (prog_bind p f) Q C"
proof (rule crash_spec_bind)
  show "crash_spec (pstate m0 c S) p (\<lambda>y m. y = x \<and> pstate m0 c S m) C"
    by (rule crash_spec_conseq [OF crash_spec_reads [OF assms(1,3-5)]]) (use assms(2) in simp_all)
  show "crash_spec (\<lambda>m. y = x \<and> pstate m0 c S m) (f y) Q C" for y
    using assms(6) by (auto simp: crash_spec_def)
qed

section \<open>Footprints\<close>

lemma read_entry_footprint: "writes_within B (read_entry base i)"
  by (simp add: read_entry_def Let_def)

lemma catalog_reads:
  "writes_within B (find_region ra name)" "writes_within B (find_free_slot ra)"
  "writes_within B (next_free_offset ra d)"
proof -
  have "writes_within B (find_loop b name is)" for b "is"
    by (induction "is") (auto intro!: writes_within_bind read_entry_footprint)
  then show "writes_within B (find_region ra name)" by (simp add: find_region_def)
  have "writes_within B (free_slot_loop b is)" for b "is"
    by (induction "is") (auto intro!: writes_within_bind read_entry_footprint)
  then show "writes_within B (find_free_slot ra)" by (simp add: find_free_slot_def)
  have "writes_within B (max_end_loop b is mx)" for b "is" mx
    by (induction "is" arbitrary: mx) (auto intro!: writes_within_bind read_entry_footprint)
  then show "writes_within B (next_free_offset ra d)"
    by (auto simp: next_free_offset_def intro!: writes_within_bind)
qed

section \<open>What the media can hold\<close>

definition cat_bytes :: "usize \<Rightarrow> nat set" where
  "cat_bytes base = {unat base..<unat base + 16448}"

definition count_bytes :: "usize \<Rightarrow> nat set" where
  "count_bytes base = {unat base + 8..<unat base + 16}"

text \<open>
  While the fields of entry \<open>i\<close> are written they are arbitrary and the state byte is in \<open>st\<close>;
  afterwards the fields are those of \<open>w\<close>.
\<close>

definition filling :: "usize \<Rightarrow> mmap \<Rightarrow> nat \<Rightarrow> u8 set \<Rightarrow> nat \<Rightarrow> u8 set" where
  "filling base m0 i st x =
     (if x = ent_base base i then st else if x \<in> ent_region base i then UNIV
      else {media m0 x, cache m0 x})"

definition filled :: "usize \<Rightarrow> mmap \<Rightarrow> nat \<Rightarrow> u8 set \<Rightarrow> bytes \<Rightarrow> nat \<Rightarrow> u8 set" where
  "filled base m0 i st w x =
     (if x = ent_base base i then st else if x \<in> ent_region base i then {w x}
      else if x \<in> count_bytes base then UNIV
      else {media m0 x, cache m0 x})"

text \<open>
  The catalog on the media: every entry but \<open>i\<close> is as in the cache of \<open>m0\<close>, and so are the
  other fields of the header; entry \<open>i\<close> satisfies \<open>E\<close>.
\<close>

definition one_entry :: "usize \<Rightarrow> mmap \<Rightarrow> nat \<Rightarrow> (catalog_entry \<Rightarrow> bool) \<Rightarrow> mmap \<Rightarrow> bool" where
  "one_entry base m0 i E m \<longleftrightarrow>
     cat_region base m \<and> (\<forall>j<256. j \<noteq> i \<longrightarrow> entry_view base (media m) j = entry_view base (cache m0) j) \<and>
     E (entry_view base (media m) i) \<and>
     get64 (media m) (unat base + 24) = get64 (cache m0) (unat base + 24)"

definition cat_synced :: "usize \<Rightarrow> mmap \<Rightarrow> bool" where
  "cat_synced base m \<longleftrightarrow> (\<forall>x\<in>cat_bytes base. media m x = cache m x)"

lemma outside_entry:
  assumes "cat_synced base m0" "\<And>x. x \<in> cat_bytes base - ent_region base i - count_bytes base \<Longrightarrow>
      media m x \<in> {media m0 x, cache m0 x}"
  shows "j < 256 \<Longrightarrow> j \<noteq> i \<Longrightarrow> entry_view base (media m) j = entry_view base (cache m0) j"
    and "get64 (media m) (unat base + 24) = get64 (cache m0) (unat base + 24)"
proof -
  have same: "media m x = cache m0 x" if "x \<in> cat_bytes base - ent_region base i - count_bytes base" for x
    using assms(1) assms(2) [OF that] that by (auto simp: cat_synced_def)
  show "entry_view base (media m) j = entry_view base (cache m0) j" if "j < 256" "j \<noteq> i"
    by (rule entry_view_cong, rule same)
      (use that ent_region_disjoint [OF that(2), of base] in \<open>auto simp: cat_bytes_def ent_region_def count_bytes_def\<close>)
  show "get64 (media m) (unat base + 24) = get64 (cache m0) (unat base + 24)"
    by (rule get64_cong, rule same) (auto simp: cat_bytes_def ent_region_def count_bytes_def)
qed

lemma pstate_cat_region: "cat_region base m0 \<Longrightarrow> pstate m0 c S m \<Longrightarrow> cat_region base m"
  by (simp add: cat_region_def pstate_def mapped_def)

lemma filling_entry:
  assumes "cat_region base m0" "cat_synced base m0" "pstate m0 c (filling base m0 i st) m"
    and "\<And>v. v \<in> st \<Longrightarrow> decode_state v \<in> {Free, Allocating}"
  shows "one_entry base m0 i (\<lambda>e. ce_state e \<in> {Free, Allocating}) m"
proof -
  have m: "media m x \<in> filling base m0 i st x" for x using assms(3) by (simp add: pstate_def)
  have out: "media m x \<in> {media m0 x, cache m0 x}" if "x \<in> cat_bytes base - ent_region base i - count_bytes base" for x
    using m [of x] that by (auto simp: filling_def ent_region_def split: if_splits)
  have "media m (ent_base base i) \<in> st" using m [of "ent_base base i"] by (simp add: filling_def)
  then have "ce_state (entry_view base (media m) i) \<in> {Free, Allocating}"
    using assms(4) by (simp add: entry_view_def Let_def)
  then show ?thesis
    using outside_entry [where i = i, OF assms(2) out] pstate_cat_region [OF assms(1,3)] by (simp add: one_entry_def)
qed

lemma filled_entry:
  assumes "cat_region base m0" "cat_synced base m0" "pstate m0 c (filled base m0 i st w) m"
    and "\<And>v. v \<in> st \<Longrightarrow> E (entry_view base (w(ent_base base i := v)) i)"
  shows "one_entry base m0 i E m"
proof -
  have m: "media m x \<in> filled base m0 i st w x" for x using assms(3) by (simp add: pstate_def)
  have out: "media m x \<in> {media m0 x, cache m0 x}" if "x \<in> cat_bytes base - ent_region base i - count_bytes base" for x
    using m [of x] that by (auto simp: filled_def ent_region_def split: if_splits)
  let ?v = "media m (ent_base base i)"
  have v: "?v \<in> st" using m [of "ent_base base i"] by (simp add: filled_def)
  have "entry_view base (media m) i = entry_view base (w(ent_base base i := ?v)) i"
  proof (rule entry_view_cong)
    fix x assume "x \<in> ent_region base i"
    then show "media m x = (w(ent_base base i := ?v)) x"
      using m [of x] by (cases "x = ent_base base i") (simp_all add: filled_def)
  qed
  with assms(4) [OF v] show ?thesis
    using outside_entry [where i = i, OF assms(2) out] pstate_cat_region [OF assms(1,3)] by (simp add: one_entry_def)
qed

lemma one_entry_mono: "one_entry base m0 i E m \<Longrightarrow> (\<And>e. E e \<Longrightarrow> E' e) \<Longrightarrow> one_entry base m0 i E' m"
  by (simp add: one_entry_def)

section \<open>create_region\<close>

definition fresh_or_new :: "catalog_entry \<Rightarrow> catalog_entry \<Rightarrow> bool" where
  "fresh_or_new new e \<longleftrightarrow> ce_state e \<in> {Free, Allocating} \<or> e = new"

lemma settle_filling:
  assumes "w (ent_base base i) \<in> st"
  shows "settle (ent_base base i) 64 w (filling base m0 i st') x \<subseteq> filled base m0 i st w x"
  using assms by (auto simp: settle_def filling_def filled_def ent_region_def)

lemma settle_filled:
  assumes "v \<in> st'"
  shows "settle (ent_base base i) 64 (w(ent_base base i := v)) (filled base m0 i st w) x \<subseteq> filled base m0 i st' w x"
  using assms by (auto simp: settle_def filled_def ent_region_def)

lemma admits_filled:
  assumes "v \<in> st" "agree_off (ent_region base i) (cache m0) w"
  shows "admits (filled base m0 i st w) (w(ent_base base i := v))"
  using assms by (auto simp: admits_def filled_def agree_off_def)

lemma admits_filled_count:
  assumes "admits (filled base m0 i st w) c"
  shows "admits (filled base m0 i st w) (put64 c (unat base + 8) n)"
  using assms by (intro admits_put64) (auto simp: filled_def count_bytes_def ent_region_def)

text \<open>Storing the new count and flushing the header: everything is on the media.\<close>

lemma crash_set_count:
  assumes "cat_region base m0" "cat_synced base m0" "mm_arch m0 = X86_64" "i < 256"
    and "agree_off (ent_region base i) (cache m0) w" "c = w(ent_base base i := v)"
    and E: "E (entry_view base c i)"
  shows "crash_spec (pstate m0 c (filled base m0 i {v} w))
    (StoreU64 (base + 8) n Relaxed (Flush base 64 (Ret r)))
    (\<lambda>y m. y = r \<and> one_entry base m0 i E m \<and> cat_synced base m) (one_entry base m0 i E)"
proof -
  let ?S = "filled base m0 i {v} w" and ?c = "put64 c (unat base + 8) n"
  have a: "unat (base + 8) = unat base + 8" using unat_header_offset [OF assms(1), of 8] by simp
  have adm: "admits ?S c" "admits ?S ?c"
    unfolding assms(6) by (intro admits_filled admits_filled_count assms(5); simp)+
  have E': "one_entry base m0 i E m" if "pstate m0 c' ?S m" for c' m
    by (rule filled_entry [OF assms(1,2) that]) (use E in \<open>simp add: assms(6)\<close>)
  have sub: "settle (unat base) 64 ?c ?S x \<subseteq> ?S x" for x
    using assms(5) by (auto simp: settle_def filled_def count_bytes_def ent_region_def assms(6) put64_out agree_off_def)
  have syn: "cat_synced base m" if "pstate m0 ?c (settle (unat base) 64 ?c ?S) m" for m
    unfolding cat_synced_def
  proof
    fix x assume x: "x \<in> cat_bytes base"
    have m: "media m x \<in> settle (unat base) 64 ?c ?S x" "cache m x = ?c x" using that by (simp_all add: pstate_def)
    have out: "?c x = c x" if "unat base + 64 \<le> x" using that by (intro put64_out) auto
    have c0: "media m0 x = cache m0 x" using assms(2) x by (simp add: cat_synced_def)
    have "c x = cache m0 x" if "x \<notin> ent_region base i"
      using that assms(5) by (auto simp: assms(6) agree_off_def ent_region_def)
    then show "media m x = cache m x"
      using m out x c0 by (auto simp: settle_def filled_def count_bytes_def ent_region_def cat_bytes_def assms(6) split: if_splits)
  qed
  have "unat base + 64 \<le> unat (mm_len m0)" "(unat base + 8) mod 8 = 0" "mapped m0"
    using cat_regionD [OF assms(1)] base_mod(1) [OF assms(1), of 8] assms(1) by (simp_all add: cat_region_def)
  then show ?thesis
    apply (intro cs_StoreU64 [OF adm(1) E'])
        apply assumption
       apply (simp_all add: a)
    apply (intro cs_Flush [OF adm(2) E'])
        apply (assumption | simp add: assms(3))+
    apply (rule crash_spec_Ret [OF pstate_evict_closed [OF admits_settle [OF adm(2)]]])
     apply (rule E', erule pstate_mono, rule sub)
    apply (intro conjI refl)
     apply (rule E', erule pstate_mono, use sub in simp)
    apply (rule syn, simp)
    done
qed

text \<open>Storing a state and flushing it: afterwards the media holds that state.\<close>

lemma crash_set_state:
  assumes "cat_region base m0" "cat_synced base m0" "mm_arch m0 = X86_64" "unat i < 256"
    and "agree_off (ent_region base (unat i)) (cache m0) w" "u \<in> st" "region_state_as_u8 s \<in> st"
    and E: "\<And>v. v \<in> st \<Longrightarrow> E (entry_view base (w(ent_base base (unat i) := v)) (unat i))"
    and ord: "ord \<notin> {Acquire, AcqRel}"
    and next_call: "crash_spec (pstate m0 (w(ent_base base (unat i) := region_state_as_u8 s))
        (filled base m0 (unat i) {region_state_as_u8 s} w)) k Q (one_entry base m0 (unat i) E)"
  shows "crash_spec (pstate m0 (w(ent_base base (unat i) := u)) (filled base m0 (unat i) st w))
    (StoreU8 (entry_offset base i) (region_state_as_u8 s) ord (Flush (entry_offset base i) 64 k))
    Q (one_entry base m0 (unat i) E)"
proof -
  let ?b = "ent_base base (unat i)" and ?v = "region_state_as_u8 s" and ?S = "filled base m0 (unat i) st w"
  note a = unat_entry_offset_0 [OF assms(1,4)]
  have len: "?b + 64 \<le> unat (mm_len m0)" "mapped m0"
    using cat_regionD(2) [OF assms(1)] assms(1,4) by (simp_all add: cat_region_def)
  have adm: "admits ?S (w(?b := u))" "admits ?S (w(?b := ?v))"
    by (intro admits_filled assms(5-7))+
  have E': "one_entry base m0 (unat i) E m" if "pstate m0 c' ?S m" for c' m
    by (rule filled_entry [OF assms(1,2) that]) (rule E)
  show ?thesis
    apply (rule cs_StoreU8 [OF adm(1) E'], assumption)
      apply (use len a in simp, rule ord)
    apply (simp only: a fun_upd_upd)
    apply (rule cs_Flush [OF adm(2) E' assms(3) len(2)], assumption)
     apply (use len a in simp)
    apply (rule crash_spec_pre [OF next_call])
    apply (simp add: a)
    apply (erule pstate_mono, rule settle_filled, simp)
    done
qed

text \<open>Writing the fields of an entry in a free slot.\<close>

definition name_bytes :: "catalog_entry \<Rightarrow> u8 list" where
  "name_bytes e = take (min (length (ce_name e)) 24) (ce_name e)"

definition name_len :: "catalog_entry \<Rightarrow> u8 list" where
  "name_len e = le_bytes 2 (word_of_nat (min (length (ce_name e)) 24) :: u16)"

lemma name_len_simps [simp]: "length (name_len e) = 2" "name_len e \<noteq> []"
proof -
  show "length (name_len e) = 2" by (simp add: name_len_def)
  then show "name_len e \<noteq> []" by auto
qed

lemma write_entry_prog:
  assumes "ce_state e = Allocating"
  shows "prog_bind (write_entry base i e) f =
    (let off = entry_offset base i in
     (if name_len e \<noteq> [] then Write (off + 2) (name_len e) else id) (
     (if name_bytes e \<noteq> [] then Write (off + 4) (name_bytes e) else id) (
     StoreU64 (off + 32) (ce_offset e) Relaxed (
     StoreU64 (off + 40) (ce_size e) Relaxed (
     StoreU64 (off + 48) (ce_epoch e) Relaxed (
     Flush off 64 (StoreU8 off (region_state_as_u8 Allocating) Release (Flush off 64 (f ())))))))))"
  using assms length_le_bytes [of 2 "word_of_nat (min (length (ce_name e)) 24) :: u16"]
  by (cases "ce_name e = []") (auto simp: write_entry_def name_bytes_def name_len_def Let_def simp del: length_le_bytes)

lemma entry_written_steps:
  "entry_written b e c =
     put64 (put64 (put64 (poke (poke c (b + unat (2 :: u64)) (name_len e)) (b + unat (4 :: u64)) (name_bytes e))
       (b + unat (32 :: u64)) (ce_offset e)) (b + unat (40 :: u64)) (ce_size e)) (b + unat (48 :: u64)) (ce_epoch e)"
  by (simp add: entry_written_def name_bytes_def name_len_def Let_def)

lemma filling_fresh:
  assumes "cat_region base m0" "cat_synced base m0" "decode_state u \<in> {Free, Allocating}"
    and "pstate m0 c (filling base m0 i {u}) m"
  shows "one_entry base m0 i (fresh_or_new new) m"
  by (rule one_entry_mono [OF filling_entry [OF assms(1,2,4)]]) (use assms(3) in \<open>auto simp: fresh_or_new_def\<close>)

lemma crash_fill_word:
  assumes "cat_region base m0" "cat_synced base m0" "unat i < 256" "decode_state u \<in> {Free, Allocating}"
    and "admits (filling base m0 (unat i) {u}) c" "unat k \<in> {32, 40, 48}"
    and next_call: "\<And>c'. c' = put64 c (ent_base base (unat i) + unat k) v \<Longrightarrow> admits (filling base m0 (unat i) {u}) c' \<Longrightarrow>
      crash_spec (pstate m0 c' (filling base m0 (unat i) {u})) p Q (one_entry base m0 (unat i) (fresh_or_new new))"
  shows "crash_spec (pstate m0 c (filling base m0 (unat i) {u})) (StoreU64 (entry_offset base i + k) v Relaxed p)
    Q (one_entry base m0 (unat i) (fresh_or_new new))"
proof -
  have k: "unat k \<le> 64" "unat k mod 8 = 0" "0 < unat k" "unat k + 8 \<le> 64" using assms(6) by auto
  note a = unat_entry_offset [OF assms(1,3) k(1)]
  have len: "ent_base base (unat i) + 64 \<le> unat (mm_len m0)" using cat_regionD(2) [OF assms(1)] assms(3) by simp
  have "admits (filling base m0 (unat i) {u}) (put64 c (ent_base base (unat i) + unat k) v)"
    using k(3,4) by (intro admits_put64 [OF assms(5)]) (auto simp: filling_def ent_region_def)
  from next_call [OF refl this] show ?thesis
    using k(4) len base_mod(2) [OF assms(1) k(2)]
    by (intro cs_StoreU64 [OF assms(5) filling_fresh [OF assms(1,2,4)]]) (simp_all add: a)
qed

lemma crash_fill_bytes:
  assumes "cat_region base m0" "cat_synced base m0" "unat i < 256" "decode_state u \<in> {Free, Allocating}"
    and "admits (filling base m0 (unat i) {u}) c" "0 < unat k" "unat k + length bs \<le> 64"
    and next_call: "\<And>c'. c' = poke c (ent_base base (unat i) + unat k) bs \<Longrightarrow> admits (filling base m0 (unat i) {u}) c' \<Longrightarrow>
      crash_spec (pstate m0 c' (filling base m0 (unat i) {u})) p Q (one_entry base m0 (unat i) (fresh_or_new new))"
  shows "crash_spec (pstate m0 c (filling base m0 (unat i) {u})) ((if bs \<noteq> [] then Write (entry_offset base i + k) bs else id) p)
    Q (one_entry base m0 (unat i) (fresh_or_new new))"
proof -
  have "unat k \<le> 64" using assms(7) by simp
  note a = unat_entry_offset [OF assms(1,3) this]
  have len: "ent_base base (unat i) + 64 \<le> unat (mm_len m0)" using cat_regionD(2) [OF assms(1)] assms(3) by simp
  have "admits (filling base m0 (unat i) {u}) (poke c (ent_base base (unat i) + unat k) bs)"
    using assms(6,7) by (intro admits_poke [OF assms(5)]) (auto simp: filling_def ent_region_def)
  from next_call [OF refl this] show ?thesis
    using assms(7) len
    by (intro cs_Write_nonempty [OF assms(5) filling_fresh [OF assms(1,2,4)]]) (simp_all add: a)
qed

text \<open>The first flush of the entry, the state store and its flush.\<close>

lemma crash_mark_allocating:
  assumes "cat_region base m0" "cat_synced base m0" "mm_arch m0 = X86_64" "unat i < 256"
    and free: "decode_state u = Free" and w: "agree_off (ent_region base (unat i)) (cache m0) w" "w (ent_base base (unat i)) = u"
    and adm: "admits (filling base m0 (unat i) {u}) w"
    and new: "entry_view base (w(ent_base base (unat i) := 1)) (unat i) = new\<lparr>ce_state := Allocating\<rparr>"
    and next_call: "crash_spec (pstate m0 (w(ent_base base (unat i) := 1))
      (filled base m0 (unat i) {1} w)) k Q (one_entry base m0 (unat i) (fresh_or_new new))"
  shows "crash_spec (pstate m0 w (filling base m0 (unat i) {u})) (Flush (entry_offset base i) 64
      (StoreU8 (entry_offset base i) (region_state_as_u8 Allocating) Release (Flush (entry_offset base i) 64 k)))
    Q (one_entry base m0 (unat i) (fresh_or_new new))"
proof -
  let ?b = "ent_base base (unat i)" and ?C = "one_entry base m0 (unat i) (fresh_or_new new)"
  have len: "?b + 64 \<le> unat (mm_len m0)" "mapped m0"
    using cat_regionD(2) [OF assms(1)] assms(1,4) by (simp_all add: cat_region_def)
  note a = unat_entry_offset_0 [OF assms(1,4)]
  have fresh: "?C m" if "pstate m0 c (filling base m0 (unat i) {u}) m" for c m
    by (rule filling_fresh [OF assms(1,2) _ that]) (simp add: free)
  have upd: "w(?b := u) = w" using w(2) by (simp add: fun_upd_idem)
  have E: "fresh_or_new new (entry_view base (w(?b := v)) (unat i))" if "v \<in> {u, 1}" for v
  proof (cases "v = 1")
    case True
    then show ?thesis using new by (simp add: fresh_or_new_def)
  next
    case False
    then have "v = u" using that by simp
    then show ?thesis using free by (simp add: entry_view_def Let_def fresh_or_new_def)
  qed
  have last: "crash_spec (pstate m0 w (filled base m0 (unat i) {u, 1} w))
      (StoreU8 (entry_offset base i) (region_state_as_u8 Allocating) Release (Flush (entry_offset base i) 64 k)) Q ?C"
    using crash_set_state [OF assms(1-4) w(1), of u "{u, 1}" Allocating "fresh_or_new new" Release k Q]
      E next_call unfolding upd by simp
  show ?thesis
    apply (rule cs_Flush [OF adm fresh assms(3) len(2)], assumption)
     apply (use len a in simp)
    apply (rule crash_spec_pre [OF last])
    apply (simp add: a)
    apply (erule pstate_mono, rule settle_filling)
    apply (simp add: w(2))
    done
qed

lemma crash_write_entry:
  assumes "cat_region base m0" "cat_synced base m0" "mm_arch m0 = X86_64" "unat i < 256"
    and "decode_state (cache m0 (ent_base base (unat i))) = Free" "ce_state e = Allocating"
  defines "w \<equiv> entry_written (ent_base base (unat i)) e (cache m0)"
  defines "new \<equiv> e\<lparr>ce_state := Active, ce_name := stored_name (ce_name e)\<rparr>"
  assumes next_call: "crash_spec (pstate m0 (w(ent_base base (unat i) := 1))
      (filled base m0 (unat i) {1} w)) (f ()) Q (one_entry base m0 (unat i) (fresh_or_new new))"
  shows "crash_spec ((=) m0) (prog_bind (write_entry base i e) f) Q (one_entry base m0 (unat i) (fresh_or_new new))"
proof -
  let ?b = "ent_base base (unat i)" and ?C = "one_entry base m0 (unat i) (fresh_or_new new)"
  let ?u = "cache m0 ?b" and ?S = "filling base m0 (unat i) {cache m0 (ent_base base (unat i))}"
  have u: "decode_state ?u \<in> {Free, Allocating}" using assms(5) by simp
  have new: "entry_view base (w(?b := 1)) (unat i) = new\<lparr>ce_state := Allocating\<rparr>"
    using entry_view_written [of base "unat i" e "cache m0" Allocating] by (simp add: w_def new_def)
  note flush = crash_mark_allocating [OF assms(1-5) _ _ _ new next_call]
  have start: "crash_spec (pstate m0 (cache m0) ?S) (prog_bind (write_entry base i e) f) Q ?C"
    unfolding write_entry_prog [OF assms(6)] Let_def
    apply (rule crash_fill_bytes [OF assms(1,2,4) u], simp add: admits_def filling_def, simp, simp)
    apply (rule crash_fill_bytes [OF assms(1,2,4) u], assumption, simp, simp add: name_bytes_def)
    apply (rule crash_fill_word [OF assms(1,2,4) u], assumption, simp)
    apply (rule crash_fill_word [OF assms(1,2,4) u], assumption, simp)
    apply (rule crash_fill_word [OF assms(1,2,4) u], assumption, simp)
    apply (simp only: entry_written_steps [symmetric] w_def [symmetric])
    apply (rule flush)
      apply (simp_all add: w_def entry_written_agree entry_written_state)
    done
  have "?b \<in> cat_bytes base" using assms(4) by (simp add: cat_bytes_def)
  then have "media m0 ?b = ?u" using assms(2) by (simp add: cat_synced_def)
  then have "pstate m0 (cache m0) ?S m0" by (auto simp: pstate_def filling_def)
  with start show ?thesis by (auto simp: crash_spec_def)
qed

text \<open>The part of \<open>create_region\<close> that writes.\<close>

lemma crash_commit_region:
  assumes "cat_region (ra_base ra) m0" "cat_synced (ra_base ra) m0" "mm_arch m0 = X86_64" "unat i < 256"
    and "decode_state (cache m0 (ent_base (ra_base ra) (unat i))) = Free"
    and new_def: "new = \<lparr>ce_state = Active, ce_name = stored_name name, ce_offset = off, ce_size = sz, ce_epoch = 0\<rparr>"
  shows "crash_spec ((=) m0) (commit_region ra i name off sz)
    (\<lambda>r m. one_entry (ra_base ra) m0 (unat i) (fresh_or_new new) m \<and> cat_synced (ra_base ra) m)
    (one_entry (ra_base ra) m0 (unat i) (fresh_or_new new))"
proof -
  let ?B = "ra_base ra" and ?b = "ent_base (ra_base ra) (unat i)"
  let ?e = "\<lparr>ce_state = Allocating, ce_name = name, ce_offset = off, ce_size = sz, ce_epoch = 0\<rparr>"
  let ?w = "entry_written ?b ?e (cache m0)" and ?E = "fresh_or_new new"
  have new: "?e\<lparr>ce_state := Active, ce_name := stored_name (ce_name ?e)\<rparr> = new" by (simp add: new_def)
  have ag: "agree_off (ent_region ?B (unat i)) (cache m0) ?w" by (rule entry_written_agree)
  have view: "entry_view ?B (?w(?b := region_state_as_u8 s)) (unat i) = new\<lparr>ce_state := s\<rparr>" for s
    unfolding entry_view_written by (simp add: new_def)
  have E: "?E (entry_view ?B (?w(?b := v)) (unat i))" if "v \<in> {1, 2}" for v
    using that view [of Allocating] view [of Active] by (auto simp: fresh_or_new_def new_def)
  let ?r = "Inr \<lparr>rh_slot = i, rh_name = name, rh_offset = off, rh_size = sz\<rparr> :: alloc_error + region_handle"
  let ?Q = "\<lambda>r m. r = ?r \<and> one_entry ?B m0 (unat i) ?E m \<and> cat_synced ?B m" and ?C = "one_entry ?B m0 (unat i) ?E"
  let ?c = "?w(?b := region_state_as_u8 Active)"
  have count: "crash_spec (pstate m0 ?c (filled ?B m0 (unat i) {region_state_as_u8 Active} ?w))
      (LoadU64 (?B + 8) Relaxed (\<lambda>count. StoreU64 (?B + 8) (count + 1) Relaxed (Flush ?B 64 (Ret ?r)))) ?Q ?C"
  proof (rule cs_LoadU64)
    show "admits (filled ?B m0 (unat i) {region_state_as_u8 Active} ?w) ?c" by (rule admits_filled [OF _ ag]) simp
    show "?C m" if "pstate m0 ?c (filled ?B m0 (unat i) {region_state_as_u8 Active} ?w) m" for m
      by (rule filled_entry [OF assms(1,2) that]) (use E in simp)
    show "unat (?B + 8) + 8 \<le> unat (mm_len m0)" "unat (?B + 8) mod 8 = 0"
      using cat_regionD(2) [OF assms(1)] base_mod(1) [OF assms(1), of 8] unat_header_offset [OF assms(1), of 8] by simp_all
    show "crash_spec (pstate m0 ?c (filled ?B m0 (unat i) {region_state_as_u8 Active} ?w))
        (StoreU64 (?B + 8) (get64 ?c (unat (?B + 8)) + 1) Relaxed (Flush ?B 64 (Ret ?r))) ?Q ?C"
      by (rule crash_set_count [OF assms(1-4) ag refl]) (use E in simp)
  qed simp
  have "crash_spec (pstate m0 (?w(?b := 1)) (filled ?B m0 (unat i) {1, 2} ?w))
      (StoreU8 (entry_offset ?B i) (region_state_as_u8 Active) Release (Flush (entry_offset ?B i) 64
        (LoadU64 (?B + 8) Relaxed (\<lambda>count. StoreU64 (?B + 8) (count + 1) Relaxed (Flush ?B 64 (Ret ?r)))))) ?Q ?C"
    by (rule crash_set_state [OF assms(1-4) ag _ _ E _ count]) simp_all
  then have act: "crash_spec (pstate m0 (?w(?b := 1)) (filled ?B m0 (unat i) {1} ?w))
      (StoreU8 (entry_offset ?B i) (region_state_as_u8 Active) Release (Flush (entry_offset ?B i) 64
        (LoadU64 (?B + 8) Relaxed (\<lambda>count. StoreU64 (?B + 8) (count + 1) Relaxed (Flush ?B 64 (Ret ?r)))))) ?Q ?C"
    by (rule crash_spec_pre) (erule pstate_mono, auto simp: filled_def)
  have "crash_spec ((=) m0) (commit_region ra i name off sz) ?Q ?C"
    unfolding commit_region_def Let_def
    by (rule crash_write_entry [OF assms(1-4), where e = ?e, unfolded new]) (use assms(5) act in simp_all)
  then show ?thesis by (rule crash_spec_conseq) simp_all
qed

text \<open>The whole operation: it reads the catalog, and then writes one entry or none.\<close>

abbreviation unwritten :: "mmap \<Rightarrow> mmap \<Rightarrow> bool" where
  "unwritten m0 \<equiv> pstate m0 (cache m0) (\<lambda>x. {media m0 x, cache m0 x})"

lemma unwrittenD:
  assumes "cat_region base m0" "cat_synced base m0" "unwritten m0 m"
  shows "cat_region base m" "cat_synced base m" "cache m = cache m0" "mm_arch m = mm_arch m0"
    "one_entry base m0 i (\<lambda>e. i < 256 \<longrightarrow> e = entry_view base (cache m0) i) m"
proof -
  show r: "cat_region base m" by (rule pstate_cat_region [OF assms(1,3)])
  show c: "cache m = cache m0" "mm_arch m = mm_arch m0" using assms(3) by (simp_all add: pstate_def)
  have m: "media m x \<in> {media m0 x, cache m0 x}" for x using assms(3) by (simp add: pstate_def)
  with assms(2) show s: "cat_synced base m" unfolding cat_synced_def c by (metis empty_iff insertE)
  have "entry_view base (media m) j = entry_view base (cache m0) j" if "j < 256" for j
    by (rule entry_view_cong) (use s that in \<open>simp add: cat_synced_def cat_bytes_def ent_region_def c\<close>)
  moreover have "get64 (media m) (unat base + 24) = get64 (cache m0) (unat base + 24)"
    by (rule get64_cong) (use s in \<open>simp add: cat_synced_def cat_bytes_def c\<close>)
  ultimately show "one_entry base m0 i (\<lambda>e. i < 256 \<longrightarrow> e = entry_view base (cache m0) i) m"
    using r by (simp add: one_entry_def)
qed

lemma crash_reading:
  assumes "cat_region base m0" "cat_synced base m0" "\<And>m. unwritten m0 m \<Longrightarrow> C m" "writes_within {} p"
    and "\<And>m. cat_region base m \<Longrightarrow> cache m = cache m0 \<Longrightarrow> run p m = Inr (x, m)"
    and "crash_spec (unwritten m0) (f x) Q C"
  shows "crash_spec (unwritten m0) (prog_bind p f) Q C"
proof (rule crash_spec_read_bind [where x = x, OF _ _ _ assms(4)])
  show "C m" if "unwritten m0 m" for m by (rule assms(3) [OF that])
  show "crash_spec (unwritten m0) (f x) Q C" by (rule assms(6))
  show "admits (\<lambda>x. {media m0 x, cache m0 x}) (cache m0)" by (simp add: admits_def)
  show "mapped m0" using assms(1) by (simp add: cat_region_def)
  show "\<exists>n. run p m = Inr (x, n)" if "unwritten m0 m" for m
    using assms(5) [of m] unwrittenD(1,3) [OF assms(1,2) that] by blast
qed

lemma crash_answer:
  assumes "\<And>m. unwritten m0 m \<Longrightarrow> C m" "\<And>m. unwritten m0 m \<Longrightarrow> Q x m"
  shows "crash_spec (unwritten m0) (Ret x) Q C"
  by (rule crash_spec_Ret [OF pstate_evict_closed]) (use assms in \<open>simp_all add: admits_def\<close>)

definition region_entry :: "region_handle \<Rightarrow> catalog_entry" where
  "region_entry h = \<lparr>ce_state = Active, ce_name = stored_name (rh_name h), ce_offset = rh_offset h,
     ce_size = rh_size h, ce_epoch = 0\<rparr>"

definition create_crash ::
    "region_allocator \<Rightarrow> u8 list \<Rightarrow> u64 \<Rightarrow> mmap \<Rightarrow> mmap \<Rightarrow> bool" where
  "create_crash ra name sz m0 m \<longleftrightarrow>
     (let K = abs_catalog (ra_base ra) (cache m0) in
      case fst (create_spec ra name sz K) of
        Inl e \<Rightarrow> one_entry (ra_base ra) m0 0 (\<lambda>e. e = entry_at K 0) m
      | Inr h \<Rightarrow> one_entry (ra_base ra) m0 (unat (rh_slot h))
          (\<lambda>e. e = entry_at K (rh_slot h) \<or> fresh_or_new (region_entry h) e) m)"

lemma crash_create_region:
  assumes "cat_region (ra_base ra) m0" "cat_synced (ra_base ra) m0" "mm_arch m0 = X86_64"
  shows "crash_spec ((=) m0) (create_region ra name sz)
    (\<lambda>r m. create_crash ra name sz m0 m \<and> cat_synced (ra_base ra) m) (create_crash ra name sz m0)"
proof -
  let ?B = "ra_base ra" and ?K = "abs_catalog (ra_base ra) (cache m0)" and ?C = "create_crash ra name sz m0"
  let ?Q = "\<lambda>r m. ?C m \<and> cat_synced (ra_base ra) m"
  have C: "?C m" if "unwritten m0 m" for m
  proof (cases "fst (create_spec ra name sz ?K)")
    case (Inl e)
    then show ?thesis
      using unwrittenD(5) [OF assms(1,2) that, of 0] by (simp add: create_crash_def entry_at_view one_entry_def)
  next
    case (Inr h)
    then have "unat (rh_slot h) < 256"
      by (auto simp: create_spec_def Let_def dest!: free_slot_bound split: if_splits sum.splits option.splits)
    then show ?thesis
      using Inr unwrittenD(5) [OF assms(1,2) that, of "unat (rh_slot h)"]
      by (simp add: create_crash_def entry_at_view one_entry_def)
  qed
  have Q: "?Q r m" if "unwritten m0 m" for r m
    using C [OF that] unwrittenD(2) [OF assms(1,2) that] by simp
  have ret: "crash_spec (unwritten m0) (Ret x) ?Q ?C" for x
    by (rule crash_answer) (use C Q in blast)+
  have commit: "crash_spec (unwritten m0) (commit_region ra i name off sz) ?Q ?C"
    if i: "unat i < 256" "ce_state (entry_at ?K i) = Free"
      and h: "fst (create_spec ra name sz ?K) = Inr \<lparr>rh_slot = i, rh_name = name, rh_offset = off, rh_size = sz\<rparr>"
    for i off
  proof (rule crash_spec_pointwise)
    fix m assume m: "unwritten m0 m"
    note U = unwrittenD [OF assms(1,2) m]
    let ?new = "region_entry \<lparr>rh_slot = i, rh_name = name, rh_offset = off, rh_size = sz\<rparr>"
    have "decode_state (cache m (ent_base ?B (unat i))) = Free"
      using i by (simp add: U(3) entry_at_view entry_view_def Let_def)
    then have spec: "crash_spec ((=) m) (commit_region ra i name off sz)
        (\<lambda>r n. one_entry ?B m (unat i) (fresh_or_new ?new) n \<and> cat_synced ?B n)
        (one_entry ?B m (unat i) (fresh_or_new ?new))"
      using U(4) assms(3) by (intro crash_commit_region [OF U(1,2) _ i(1)]) (simp_all add: region_entry_def)
    have "?C n" if "one_entry ?B m (unat i) (fresh_or_new ?new) n" for n
      using that h by (simp add: create_crash_def one_entry_def U(3))
    then show "crash_spec ((=) m) (commit_region ra i name off sz) ?Q ?C"
      by (intro crash_spec_conseq [OF spec]) simp_all
  qed
  have "crash_spec (unwritten m0) (create_region ra name sz) ?Q ?C"
  proof (cases "length name > 24")
    case True
    then show ?thesis using ret by (simp add: create_region_def)
  next
    case len: False
    let ?off = "next_offset_spec ?K" and ?e = "ra_base ra + ra_pool_size ra"
    have last: "crash_spec (unwritten m0) (if ?off + sz > ?e then Ret (Inl (OutOfSpace sz (if ?off \<le> ?e then ?e - ?off else 0)))
        else commit_region ra i name ?off sz) ?Q ?C" if "free_slot_spec ?K = Some i" "find_spec name ?K = Inl x" for i x
    proof (cases "?off + sz > ?e")
      case False
      with commit [of i ?off] free_slot_bound [OF that(1)] that len show ?thesis
        by (simp add: create_spec_def Let_def)
    qed (simp only: if_True, rule ret)
    have load: "crash_spec (unwritten m0) (LoadU64 (?B + 24) Relaxed k) ?Q ?C"
      if "crash_spec (unwritten m0) (k (get64 (cache m0) (unat ?B + 24))) ?Q ?C" for k
    proof (rule cs_LoadU64)
      show "admits (\<lambda>x. {media m0 x, cache m0 x}) (cache m0)" by (simp add: admits_def)
      show "unat (?B + 24) + 8 \<le> unat (mm_len m0)" "unat (?B + 24) mod 8 = 0"
        using cat_regionD(2) [OF assms(1)] base_mod(1) [OF assms(1), of 24] unat_header_offset [OF assms(1), of 24] by simp_all
      show "crash_spec (unwritten m0) (k (get64 (cache m0) (unat (?B + 24)))) ?Q ?C"
        using that unat_header_offset [OF assms(1), of 24] by simp
    qed (use C in simp_all)
    have run: "run (find_region ra name) m = Inr (find_spec name ?K, m)"
      "run (find_free_slot ra) m = Inr (free_slot_spec ?K, m)"
      "run (next_free_offset ra (get64 (cache m0) (unat ?B + 24))) m = Inr (?off, m)"
      if "cat_region ?B m" "cache m = cache m0" for m
      using run_find_region [OF that(1)] run_find_free_slot [OF that(1)] run_next_free_offset [OF that(1)]
      by (simp_all add: that(2))
    have off: "crash_spec (unwritten m0) (prog_bind (next_free_offset ra (get64 (cache m0) (unat ?B + 24))) f) ?Q ?C"
      if "crash_spec (unwritten m0) (f ?off) ?Q ?C" for f
      by (rule crash_reading [where C = ?C and f = f and x = ?off, OF assms(1,2) C catalog_reads(3) run(3) that])
    have slot: "crash_spec (unwritten m0) (prog_bind (find_free_slot ra) f) ?Q ?C"
      if "crash_spec (unwritten m0) (f (free_slot_spec ?K)) ?Q ?C" for f
      by (rule crash_reading [where C = ?C and f = f and x = "free_slot_spec ?K", OF assms(1,2) C catalog_reads(2) run(2) that])
    have find: "crash_spec (unwritten m0) (prog_bind (find_region ra name) f) ?Q ?C"
      if "crash_spec (unwritten m0) (f (find_spec name ?K)) ?Q ?C" for f
      by (rule crash_reading [where C = ?C and f = f and x = "find_spec name ?K", OF assms(1,2) C catalog_reads(1) run(1) that])
    show ?thesis
      unfolding create_region_def using len ret last
      by (auto simp: Let_def intro!: find slot load off split: sum.split option.split)
  qed
  then show ?thesis by (rule crash_spec_pre) (simp add: pstate_def)
qed

section \<open>free_region\<close>

definition leaving :: "catalog_entry \<Rightarrow> catalog_entry \<Rightarrow> bool" where
  "leaving old e \<longleftrightarrow> (\<exists>s\<in>{Active, Freeing, Free}. e = old\<lparr>ce_state := s\<rparr>)"

lemma active_byte: "decode_state b = Active \<Longrightarrow> b = 2"
  by (auto simp: decode_state_def region_state_from_u8_def split: if_splits option.splits)

text \<open>The state stores of \<open>free_region\<close> and the count after them.\<close>

abbreviation free_stores :: "usize \<Rightarrow> usize \<Rightarrow> 'a \<Rightarrow> 'a prog" where
  "free_stores base i r \<equiv>
     StoreU8 (entry_offset base i) (region_state_as_u8 Freeing) Release (Flush (entry_offset base i) 64 (
     StoreU8 (entry_offset base i) (region_state_as_u8 Free) Release (Flush (entry_offset base i) 64 (
     LoadU64 (base + 8) Relaxed (\<lambda>count.
       if count > 0 then StoreU64 (base + 8) (count - 1) Relaxed (Flush base 64 (Ret r)) else Ret r)))))"

lemma crash_free_entry:
  assumes "cat_region base m0" "cat_synced base m0" "mm_arch m0 = X86_64" "unat i < 256"
    and "ce_state (entry_view base (cache m0) (unat i)) = Active"
  defines "old \<equiv> entry_view base (cache m0) (unat i)"
  shows "crash_spec ((=) m0) (free_stores base i r)
    (\<lambda>_. one_entry base m0 (unat i) (\<lambda>e. e = old\<lparr>ce_state := Free\<rparr>)) (one_entry base m0 (unat i) (leaving old))"
proof -
  let ?b = "ent_base base (unat i)" and ?c = "cache m0" and ?C = "one_entry base m0 (unat i) (leaving old)"
  let ?Q = "\<lambda>_. one_entry base m0 (unat i) (\<lambda>e. e = old\<lparr>ce_state := Free\<rparr>)"
  have two: "?c ?b = region_state_as_u8 Active"
    using assms(5) active_byte by (simp add: entry_view_def Let_def)
  then have idem: "?c(?b := region_state_as_u8 Active) = ?c" by (simp add: fun_upd_idem)
  have ag: "agree_off (ent_region base (unat i)) ?c ?c" by (rule agree_off_refl)
  have view: "entry_view base (?c(?b := region_state_as_u8 s)) (unat i) = old\<lparr>ce_state := s\<rparr>" for s
    unfolding old_def by (rule entry_view_state)
  have E: "leaving old (entry_view base (?c(?b := v)) (unat i))"
    if "v \<in> region_state_as_u8 ` {Active, Freeing, Free}" for v
  proof -
    from that obtain s where "v = region_state_as_u8 s" "s \<in> {Active, Freeing, Free}" by blast
    then show ?thesis unfolding leaving_def using view [of s] by blast
  qed
  let ?z = "?c(?b := region_state_as_u8 Free)" and ?S = "filled base m0 (unat i) {region_state_as_u8 Free} ?c"
  have gone: "?Q () m" if "pstate m0 c' ?S m" for c' m
    by (rule filled_entry [OF assms(1,2) that]) (use view [of Free] in simp)
  have weaken: "?C m" if "?Q () m" for m using one_entry_mono [OF that] by (simp add: leaving_def)
  have adm: "admits ?S ?z" by (rule admits_filled [OF _ ag]) simp
  have store: "crash_spec (pstate m0 ?z ?S) (StoreU64 (base + 8) n Relaxed (Flush base 64 (Ret r))) ?Q ?C" for n
    by (rule crash_spec_conseq [OF crash_set_count [OF assms(1-4) ag refl,
          where E = "\<lambda>e. e = old\<lparr>ce_state := Free\<rparr>"]]) (use view [of Free] weaken in simp_all)
  have ret: "crash_spec (pstate m0 ?z ?S) (Ret r) ?Q ?C"
    by (rule crash_spec_Ret [OF pstate_evict_closed [OF adm]]) (use gone weaken in blast)+
  have count: "crash_spec (pstate m0 ?z ?S) (LoadU64 (base + 8) Relaxed (\<lambda>count.
      if count > 0 then StoreU64 (base + 8) (count - 1) Relaxed (Flush base 64 (Ret r)) else Ret r)) ?Q ?C"
  proof (rule cs_LoadU64 [OF adm])
    show "unat (base + 8) + 8 \<le> unat (mm_len m0)" "unat (base + 8) mod 8 = 0"
      using cat_regionD(2) [OF assms(1)] base_mod(1) [OF assms(1), of 8] unat_header_offset [OF assms(1), of 8] by simp_all
  qed (use gone weaken store ret in simp_all)
  let ?two = "StoreU8 (entry_offset base i) (region_state_as_u8 Free) Release (Flush (entry_offset base i) 64 (
     LoadU64 (base + 8) Relaxed (\<lambda>count.
       if count > 0 then StoreU64 (base + 8) (count - 1) Relaxed (Flush base 64 (Ret r)) else Ret r)))"
  have two_spec: "crash_spec (pstate m0 (?c(?b := region_state_as_u8 Freeing))
      (filled base m0 (unat i) (region_state_as_u8 ` {Freeing, Free}) ?c)) ?two ?Q ?C"
    by (rule crash_set_state [OF assms(1-4) ag _ _ E _ count]) auto
  then have "crash_spec (pstate m0 (?c(?b := region_state_as_u8 Freeing))
      (filled base m0 (unat i) {region_state_as_u8 Freeing} ?c)) ?two ?Q ?C"
    by (rule crash_spec_pre) (erule pstate_mono, auto simp: filled_def)
  from crash_set_state [where ord = Release and u = "region_state_as_u8 Active" and st = "region_state_as_u8 ` {Active, Freeing, Free}",
      OF assms(1-4) ag _ _ E _ this]
  have "crash_spec (pstate m0 ?c (filled base m0 (unat i) (region_state_as_u8 ` {Active, Freeing, Free}) ?c))
      (StoreU8 (entry_offset base i) (region_state_as_u8 Freeing) Release (Flush (entry_offset base i) 64 ?two)) ?Q ?C"
    unfolding idem by simp
  moreover have "pstate m0 ?c (filled base m0 (unat i) (region_state_as_u8 ` {Active, Freeing, Free}) ?c) m0"
  proof -
    have "ent_region base (unat i) \<subseteq> cat_bytes base" using assms(4) by (auto simp: cat_bytes_def ent_region_def)
    then have "media m0 x = ?c x" if "x \<in> ent_region base (unat i)" for x
      using assms(2) that by (auto simp: cat_synced_def)
    moreover have "?b \<in> ent_region base (unat i)" by (simp add: ent_region_def)
    ultimately show ?thesis using two by (auto simp: pstate_def filled_def)
  qed
  ultimately show ?thesis by (auto intro: crash_spec_pre)
qed

definition free_crash :: "region_allocator \<Rightarrow> u8 list \<Rightarrow> mmap \<Rightarrow> mmap \<Rightarrow> bool" where
  "free_crash ra name m0 m \<longleftrightarrow>
     (let K = abs_catalog (ra_base ra) (cache m0) in
      case find_spec name K of
        Inl e \<Rightarrow> one_entry (ra_base ra) m0 0 (\<lambda>e. e = entry_at K 0) m
      | Inr h \<Rightarrow> one_entry (ra_base ra) m0 (unat (rh_slot h)) (leaving (entry_at K (rh_slot h))) m)"

definition freed :: "region_allocator \<Rightarrow> u8 list \<Rightarrow> mmap \<Rightarrow> mmap \<Rightarrow> bool" where
  "freed ra name m0 m \<longleftrightarrow>
     (let K = abs_catalog (ra_base ra) (cache m0) in
      case find_spec name K of
        Inl e \<Rightarrow> True
      | Inr h \<Rightarrow> ce_state (entry_view (ra_base ra) (media m) (unat (rh_slot h))) = Free)"

lemma crash_free_region:
  assumes "cat_region (ra_base ra) m0" "cat_synced (ra_base ra) m0" "mm_arch m0 = X86_64"
  shows "crash_spec ((=) m0) (free_region ra name)
    (\<lambda>r m. free_crash ra name m0 m \<and> freed ra name m0 m) (free_crash ra name m0)"
proof -
  let ?B = "ra_base ra" and ?K = "abs_catalog (ra_base ra) (cache m0)" and ?C = "free_crash ra name m0"
  let ?Q = "\<lambda>r m. ?C m \<and> freed ra name m0 m"
  have C: "?C m" if "unwritten m0 m" for m
  proof (cases "find_spec name ?K")
    case (Inl e)
    then show ?thesis
      using unwrittenD(5) [OF assms(1,2) that, of 0] by (simp add: free_crash_def entry_at_view one_entry_def)
  next
    case (Inr h)
    note h = find_spec_handle [OF Inr]
    let ?e = "entry_view ?B (cache m0) (unat (rh_slot h))"
    have bound: "unat (rh_slot h) < 256" using h by simp
    have "ce_state ?e = Active"
      using h unfolding named_def entry_at_view [OF bound] by (elim conjE)
    then have "leaving ?e ?e" by (cases ?e) (auto simp: leaving_def)
    with Inr bound unwrittenD(5) [OF assms(1,2) that, of "unat (rh_slot h)"] show ?thesis
      by (simp add: free_crash_def one_entry_def entry_at_view [OF bound])
  qed
  let ?tail = "\<lambda>r. case r of Inl e \<Rightarrow> Ret (Inl e) | Inr h \<Rightarrow> free_stores ?B (rh_slot h) (Inr ())"
  have rest: "crash_spec (unwritten m0) (?tail (find_spec name ?K)) ?Q ?C"
  proof (cases "find_spec name ?K")
    case (Inl e)
    have "freed ra name m0 m" for m using Inl by (simp add: freed_def)
    then show ?thesis unfolding Inl sum.case by (intro crash_answer) (use C in blast)+
  next
    case (Inr h)
    note h = find_spec_handle [OF Inr]
    show ?thesis
      unfolding Inr sum.case
    proof (rule crash_spec_pointwise)
      fix m assume m: "unwritten m0 m"
      note U = unwrittenD [OF assms(1,2) m]
      have bound: "unat (rh_slot h) < 256" using h by simp
      have act: "ce_state (entry_view ?B (cache m) (unat (rh_slot h))) = Active"
        using h unfolding named_def entry_at_view [OF bound] U(3) by (elim conjE)
      let ?old = "entry_view ?B (cache m) (unat (rh_slot h))"
      have C': "?C n" if "one_entry ?B m (unat (rh_slot h)) (leaving ?old) n" for n
        using that Inr h by (simp add: free_crash_def one_entry_def U(3) entry_at_view)
      have Q': "?Q r n" if "one_entry ?B m (unat (rh_slot h)) (\<lambda>e. e = ?old\<lparr>ce_state := Free\<rparr>) n" for r n
        using C' [OF one_entry_mono [OF that]] that Inr by (simp add: leaving_def freed_def one_entry_def)
      show "crash_spec ((=) m) (free_stores ?B (rh_slot h) (Inr ())) ?Q ?C"
        by (rule crash_spec_conseq [OF crash_free_entry [OF U(1,2) _ bound act]])
          (use U(4) assms(3) C' Q' in \<open>simp_all\<close>)
    qed
  qed
  have run: "run (find_region ra name) m = Inr (find_spec name ?K, m)"
    if "cat_region ?B m" "cache m = cache m0" for m
    using run_find_region [OF that(1)] by (simp add: that(2))
  have prog: "free_region ra name = prog_bind (find_region ra name) ?tail"
    by (simp only: free_region_def Let_def catalog_consts add_0_right)
  have "crash_spec (unwritten m0) (free_region ra name) ?Q ?C"
    unfolding prog
    by (rule crash_reading [where C = ?C and f = ?tail and x = "find_spec name ?K",
          OF assms(1,2) C catalog_reads(1) run rest])
  then show ?thesis by (rule crash_spec_pre) (simp add: pstate_def)
qed

end
