(* ===== verification/AllocProps.thy ===== *)
theory AllocProps
  imports AllocInv
begin

text \<open>The properties of the region allocator, with witnesses on a zeroed 32 KiB region.\<close>

definition demo_heap :: "bytes \<Rightarrow> mmap" where
  "demo_heap c = \<lparr>mm_ptr = 4096, mm_len = 32768, mm_arch = X86_64, cache = c, media = c\<rparr>"

definition demo_alloc :: region_allocator where
  "demo_alloc = \<lparr>ra_base = 0, ra_pool_size = 32768\<rparr>"

lemma demo_heap_facts [simp]:
  "cat_region 0 (demo_heap c)" "cat_region (ra_base demo_alloc) (demo_heap c)"
  "cache (demo_heap c) = c" "ra_base demo_alloc = 0"
  by (simp_all add: demo_heap_def demo_alloc_def cat_region_def mapped_def)

definition demo_catalog :: catalog where
  "demo_catalog = snd (init_spec 0 32768 (abs_catalog 0 (\<lambda>_. 0)))"

lemma demo_catalog_init:
  "init_spec 0 32768 (abs_catalog 0 (\<lambda>_. 0)) = (Inr demo_alloc, demo_catalog)"
  by (simp add: init_spec_def demo_alloc_def demo_catalog_def)

lemma demo_init: "\<exists>m. run (alloc_init 0 32768) (demo_heap (\<lambda>_. 0)) = Inr (Inr demo_alloc, m) \<and>
    abs_catalog 0 (cache m) = demo_catalog \<and> cat_region 0 m"
  using asim_alloc_init [of 0 "demo_heap (\<lambda>_. 0)" _ 32768, OF _ refl]
  by (auto simp: refines_def demo_catalog_init)

lemma demo_inv: "cat_inv demo_alloc demo_catalog"
  by (rule cat_inv_init [OF demo_catalog_init]) simp_all

lemma demo_free: "c_entries demo_catalog = map (\<lambda>i. entry_view 0 (\<lambda>_. 0) i\<lparr>ce_state := Free\<rparr>) [0..<256]"
  "c_data_start demo_catalog = 16448"
  by (simp_all add: demo_catalog_def init_spec_def)

lemma demo_entry_free: "unat i < 256 \<Longrightarrow> ce_state (entry_at demo_catalog i) = Free"
  by (simp add: entry_at_def demo_free)

lemma demo_next: "next_offset_spec demo_catalog = 16448"
proof -
  have "max_end_spec demo_catalog is s = s" if "\<forall>i\<in>set is. unat i < 256" for "is" s
    using that by (induction "is") (simp_all add: max_end_spec_def live_def demo_entry_free)
  then have "max_end_spec demo_catalog slots 16448 = 16448" using slots_bound by blast
  then have "unat (next_offset_spec demo_catalog) = 16448"
    using unat_align64 [of 16448] by (simp add: next_offset_spec_def demo_free)
  then show ?thesis by (simp add: word_unat_eq_iff)
qed

lemma demo_find: "find_spec name demo_catalog = Inl (NotFound name)"
proof -
  have "find (\<lambda>i. named name (entry_at demo_catalog i)) slots = None"
    using slots_bound by (auto simp: find_None_iff named_def demo_entry_free)
  then show ?thesis by (simp add: find_spec_def)
qed

lemma demo_slot: "free_slot_spec demo_catalog = Some 0"
proof -
  have "slots = 0 # map word_of_nat [1..<256]"
    by (simp add: word_range_def upt_conv_Cons)
  then show ?thesis by (simp add: free_slot_spec_def demo_entry_free)
qed

section \<open>Refinement\<close>

text \<open>
  C20: \<open>create_region\<close> implements its specification on every branch: a name too long, a name
  in use, a full catalog and a lack of space change nothing; otherwise the first free entry
  becomes active at the first 64-byte boundary after every live region, and the count grows.
\<close>
theorem create_region_refines:
  assumes "cat_region (ra_base ra) m"
  shows "asim (ra_base ra) m (create_region ra name sz)
    (create_spec ra name sz (abs_catalog (ra_base ra) (cache m)))"
  using assms refl by (rule asim_create_region)

theorem create_region_refines_witness:
  "asim 0 (demo_heap (\<lambda>_. 0)) (create_region demo_alloc [97] 100)
     (create_spec demo_alloc [97] 100 (abs_catalog 0 (\<lambda>_. 0)))"
  using create_region_refines [of demo_alloc "demo_heap (\<lambda>_. 0)" "[97]" 100] by simp

text \<open>
  \<open>free_region\<close> implements its specification: the active region of that name becomes free
  and the count goes down, but not below zero; an unknown name changes nothing.
\<close>
theorem free_region_refines:
  assumes "cat_region (ra_base ra) m"
  shows "asim (ra_base ra) m (free_region ra name) (free_spec name (abs_catalog (ra_base ra) (cache m)))"
  using assms refl by (rule asim_free_region)

theorem free_region_refines_witness:
  "asim 0 (demo_heap (\<lambda>_. 0)) (free_region demo_alloc [97]) (free_spec [97] (abs_catalog 0 (\<lambda>_. 0)))"
  using free_region_refines [of demo_alloc "demo_heap (\<lambda>_. 0)" "[97]"] by simp

text \<open>
  the allocator's \<open>recover\<close> resets every half-done entry (allocating or freeing) to free,
  returns how many there were, and changes nothing else. The region count is not repaired.
\<close>
theorem alloc_recover_refines:
  assumes "cat_region (ra_base ra) m"
  shows "asim (ra_base ra) m (alloc_recover ra) (alloc_recover_spec (abs_catalog (ra_base ra) (cache m)))"
  using assms refl by (rule asim_alloc_recover)

theorem alloc_recover_refines_witness:
  "asim 0 (demo_heap (\<lambda>_. 0)) (alloc_recover demo_alloc) (alloc_recover_spec (abs_catalog 0 (\<lambda>_. 0)))"
  using alloc_recover_refines [of demo_alloc "demo_heap (\<lambda>_. 0)"] by simp

section \<open>The invariant\<close>


text \<open>The allocator after creating a region of 100 bytes.\<close>

lemma demo_create: "\<exists>m m'. alloc_reach demo_alloc m \<and> abs_catalog 0 (cache m) = demo_catalog \<and>
    run (create_region demo_alloc [97] 100) m =
      Inr (Inr \<lparr>rh_slot = 0, rh_name = [97], rh_offset = 16448, rh_size = 100\<rparr>, m') \<and>
    alloc_reach demo_alloc m' \<and>
    c_entries (abs_catalog 0 (cache m')) ! 0 = new_entry [97] 16448 100"
proof -
  from demo_init obtain m where m: "run (alloc_init 0 32768) (demo_heap (\<lambda>_. 0)) = Inr (Inr demo_alloc, m)"
    "abs_catalog 0 (cache m) = demo_catalog" "cat_region 0 m" by blast
  have r: "alloc_reach demo_alloc m"
    by (rule ar_init [OF _ _ m(1)]) simp_all
  have v: "utf8_valid [97]" by (rule utf8_valid_ascii) simp
  have spec: "create_spec demo_alloc [97] 100 demo_catalog =
      (Inr \<lparr>rh_slot = 0, rh_name = [97], rh_offset = 16448, rh_size = 100\<rparr>,
       (set_entry 0 (new_entry [97] 16448 100) demo_catalog)\<lparr>c_count := c_count demo_catalog + 1\<rparr>)"
    using stored_name_valid [OF v]
    by (simp add: create_spec_def demo_find demo_slot demo_next Let_def demo_alloc_def new_entry_def)
  from asim_create_region [of demo_alloc m demo_catalog "[97]" 100] m(2,3) obtain m' where
    m': "run (create_region demo_alloc [97] 100) m =
      Inr (Inr \<lparr>rh_slot = 0, rh_name = [97], rh_offset = 16448, rh_size = 100\<rparr>, m')"
    "abs_catalog 0 (cache m') = (set_entry 0 (new_entry [97] 16448 100) demo_catalog)
       \<lparr>c_count := c_count demo_catalog + 1\<rparr>"
    by (auto simp: refines_def spec)
  have "alloc_reach demo_alloc m'"
    by (rule ar_create [OF r v _ m'(1)]) (simp add: m(2) size_fits_def demo_next)
  moreover have "c_entries (abs_catalog 0 (cache m')) ! 0 = new_entry [97] 16448 100"
    unfolding m'(2) by (simp add: demo_free)
  ultimately show ?thesis using r m(2) m'(1) by blast
qed


section \<open>What can be looked up\<close>

text \<open>
  C32: after a successful \<open>create_region\<close>, \<open>find_region\<close> of that name returns exactly the
  handle that was returned, and what it returns for every other name is unchanged.
\<close>
theorem find_after_create_region:
  assumes "alloc_reach ra m" "utf8_valid name" "size_fits (abs_catalog (ra_base ra) (cache m)) sz"
    and "run (create_region ra name sz) m = Inr (Inr h, m')"
  shows "run (find_region ra name) m' = Inr (Inr h, m') \<and>
    (\<forall>other r. other \<noteq> name \<longrightarrow> run (find_region ra other) m = Inr (r, m) \<longrightarrow>
       run (find_region ra other) m' = Inr (r, m'))"
proof -
  let ?K = "abs_catalog (ra_base ra) (cache m)"
  have inv: "cat_region (ra_base ra) m" "cat_inv ra ?K" using alloc_reach_inv [OF assms(1)] by simp_all
  from asim_result [OF asim_create_region [OF inv(1) refl] assms(4)]
  have c: "create_spec ra name sz ?K = (Inr h, abs_catalog (ra_base ra) (cache m'))" "cat_region (ra_base ra) m'"
    by (auto simp: prod_eq_iff)
  from find_after_create [OF inv(2) assms(2,3) c(1)] show ?thesis
    by (auto simp: run_find_region [OF c(2)] run_find_region [OF inv(1)])
qed

theorem find_after_create_region_witness:
  "\<exists>m. run (find_region demo_alloc [97]) m =
     Inr (Inr \<lparr>rh_slot = 0, rh_name = [97], rh_offset = 16448, rh_size = 100\<rparr>, m)"
proof -
  from demo_create obtain m m' where m: "alloc_reach demo_alloc m" "abs_catalog 0 (cache m) = demo_catalog"
    "run (create_region demo_alloc [97] 100) m =
      Inr (Inr \<lparr>rh_slot = 0, rh_name = [97], rh_offset = 16448, rh_size = 100\<rparr>, m')" by blast
  have "utf8_valid [97]" by (rule utf8_valid_ascii) simp
  from find_after_create_region [OF m(1) this _ m(3)] show ?thesis
    by (auto simp: m(2) size_fits_def demo_next)
qed

text \<open>
  after a successful \<open>free_region\<close> the name is not found any more.
\<close>
theorem not_found_after_free:
  assumes "alloc_reach ra m" "run (free_region ra name) m = Inr (Inr (), m')"
  shows "run (find_region ra name) m' = Inr (Inl (NotFound name), m')"
proof -
  let ?K = "abs_catalog (ra_base ra) (cache m)"
  have inv: "cat_region (ra_base ra) m" "cat_inv ra ?K" using alloc_reach_inv [OF assms(1)] by simp_all
  from asim_result [OF asim_free_region [OF inv(1) refl] assms(2)]
  have c: "free_spec name ?K = (Inr (), abs_catalog (ra_base ra) (cache m'))" "cat_region (ra_base ra) m'"
    by (auto simp: prod_eq_iff)
  from find_after_free [OF inv(2) c(1)] show ?thesis by (simp add: run_find_region [OF c(2)])
qed

theorem not_found_after_free_witness:
  "\<exists>m m'. run (free_region demo_alloc [97]) m = Inr (Inr (), m') \<and>
     run (find_region demo_alloc [97]) m' = Inr (Inl (NotFound [97]), m')"
proof -
  from demo_create obtain m' where m': "alloc_reach demo_alloc m'"
    "c_entries (abs_catalog 0 (cache m')) ! 0 = new_entry [97] 16448 100" by blast
  let ?K = "abs_catalog 0 (cache m')"
  have inv: "cat_region 0 m'" "cat_inv demo_alloc ?K" using alloc_reach_inv [OF m'(1)] by simp_all
  have "entry_at ?K 0 = new_entry [97] 16448 100" using m'(2) by (simp add: entry_at_def)
  then have "find_spec [97] ?K = Inr (handle_of 0 (new_entry [97] 16448 100))"
    using find_spec_at [OF inv(2), of 0] by (simp add: new_entry_def)
  then have "fst (free_spec [97] ?K) = Inr ()" by (simp add: free_spec_def)
  then obtain m2 where "run (free_region demo_alloc [97]) m' = Inr (Inr (), m2)"
    using asim_free_region [of demo_alloc m' ?K "[97]"] inv(1) by (auto simp: refines_def)
  with not_found_after_free [OF m'(1) this] show ?thesis by blast
qed

text \<open>
  \<open>list_regions\<close> returns exactly the active entries, in slot order, and changes nothing.
\<close>
theorem list_regions_active:
  assumes "cat_region (ra_base ra) m"
  shows "run (list_regions ra) m = Inr (list_spec (abs_catalog (ra_base ra) (cache m)), m)"
  using assms by (rule run_list_regions)

theorem list_regions_active_witness:
  "\<exists>m. run (list_regions demo_alloc) m = Inr ([], m)"
proof -
  from demo_init obtain m where m: "abs_catalog 0 (cache m) = demo_catalog" "cat_region 0 m" by blast
  have "list_spec demo_catalog = []"
    using slots_bound by (auto simp: list_spec_def filter_empty_conv demo_entry_free)
  with list_regions_active [of demo_alloc m] m show ?thesis by auto
qed

section \<open>Recovery\<close>

text \<open>
  the allocator's recovery is idempotent: a second run returns zero and leaves the catalog
  as the first left it; entries that were free or active are never changed.
\<close>
theorem alloc_recover_idempotent:
  assumes "cat_region (ra_base ra) m" "run (alloc_recover ra) m = Inr (n1, m1)"
    and "run (alloc_recover ra) m1 = Inr (n2, m2)"
  shows "n2 = 0 \<and> abs_catalog (ra_base ra) (cache m2) = abs_catalog (ra_base ra) (cache m1)"
proof -
  let ?K = "abs_catalog (ra_base ra) (cache m)"
  have len: "length (c_entries ?K) = 256" by simp
  note 1 = asim_result [OF asim_alloc_recover [OF assms(1) refl] assms(2)]
  then have r1: "cat_region (ra_base ra) m1" by simp
  note 2 = asim_result [OF asim_alloc_recover [OF r1 refl] assms(3)]
  have "clean_catalog (alloc_repair_spec ?K)" by (rule alloc_repair.fix_clean [OF len])
  then have "filter half_done (c_entries (alloc_repair_spec ?K)) = []"
    by (simp add: clean_catalog_def list_all_iff filter_empty_conv)
  with 1 2 alloc_repair.idem [OF len] show ?thesis by (simp add: alloc_recover_spec_def)
qed

theorem alloc_recover_idempotent_witness:
  "\<exists>m n1 m1 n2 m2. run (alloc_recover demo_alloc) m = Inr (n1, m1) \<and>
     run (alloc_recover demo_alloc) m1 = Inr (n2, m2) \<and> n2 = 0"
proof -
  obtain n1 m1 where 1: "run (alloc_recover demo_alloc) (demo_heap (\<lambda>_. 0)) = Inr (n1, m1)" "cat_region 0 m1"
    using asim_alloc_recover [of demo_alloc "demo_heap (\<lambda>_. 0)", OF _ refl] by (auto simp: refines_def)
  obtain n2 m2 where 2: "run (alloc_recover demo_alloc) m1 = Inr (n2, m2)"
    using asim_alloc_recover [of demo_alloc m1, OF _ refl] 1(2) by (auto simp: refines_def)
  from alloc_recover_idempotent [OF _ 1(1) 2] 1(1) 2 show ?thesis by auto
qed

section \<open>Overflow\<close>

text \<open>
  C39: the space check of \<open>create_region\<close> wraps around: in every catalog with a free entry and
  an unused short name there is a size, far larger than the pool, that is accepted.
\<close>
theorem huge_region_accepted_bug:
  assumes "cat_region (ra_base ra) m" "length name \<le> 24"
    and "find_spec name (abs_catalog (ra_base ra) (cache m)) = Inl e"
    and "free_slot_spec (abs_catalog (ra_base ra) (cache m)) = Some slot"
  shows "\<exists>off m'. run (create_region ra name (- off)) m =
    Inr (Inr \<lparr>rh_slot = slot, rh_name = name, rh_offset = off, rh_size = - off\<rparr>, m')"
  using huge_region_accepted [OF assms(2-4), of ra] asim_create_region [OF assms(1) refl, of name]
  unfolding refines_def by metis

theorem huge_region_accepted_bug_witness:
  "\<exists>m off m'. run (create_region demo_alloc [97] (- off)) m =
    Inr (Inr \<lparr>rh_slot = 0, rh_name = [97], rh_offset = off, rh_size = - off\<rparr>, m')"
proof -
  from demo_init obtain m where m: "abs_catalog 0 (cache m) = demo_catalog" "cat_region 0 m" by blast
  have "find_spec [97] (abs_catalog (ra_base demo_alloc) (cache m)) = Inl (NotFound [97])"
    "free_slot_spec (abs_catalog (ra_base demo_alloc) (cache m)) = Some 0"
    "cat_region (ra_base demo_alloc) m"
    using m demo_find demo_slot by simp_all
  from huge_region_accepted_bug [OF this(3) _ this(1,2)] show ?thesis by fastforce
qed

text \<open>
  \<open>RegionHandle::contains\<close> is the containment of the byte range in the region as long as
  neither end wraps around.
\<close>
theorem contains_iff_range:
  assumes "unat off + unat len < 2 ^ 64" "unat (rh_offset h) + unat (rh_size h) < 2 ^ 64"
  shows "region_contains h off len \<longleftrightarrow>
    unat (rh_offset h) \<le> unat off \<and> unat off + unat len \<le> unat (rh_offset h) + unat (rh_size h)"
  using assms by (simp add: region_contains_def word_le_nat_alt unat_add_lt64)

theorem contains_iff_range_witness:
  "region_contains \<lparr>rh_slot = 0, rh_name = [], rh_offset = 1000, rh_size = 500\<rparr> 1000 500 \<and>
   \<not> region_contains \<lparr>rh_slot = 0, rh_name = [], rh_offset = 1000, rh_size = 500\<rparr> 1000 501"
  using contains_iff_range [of 1000 500 "\<lparr>rh_slot = 0, rh_name = [], rh_offset = 1000, rh_size = 500\<rparr>"]
    contains_iff_range [of 1000 501 "\<lparr>rh_slot = 0, rh_name = [], rh_offset = 1000, rh_size = 500\<rparr>"]
  by simp

end
