(* ===== verification/AllocDurable.thy ===== *)
theory AllocDurable
  imports AllocCrash AllocProps
begin

text \<open>
  What the allocator's recovery makes of a catalog that a power loss left half written: the
  interrupted operation has happened or has not, and every other region is looked up as before.
\<close>

section \<open>Looking up in a catalog with one other entry\<close>

text \<open>The catalog \<open>K'\<close> is \<open>K\<close> up to its count and an entry that was not and is not active.\<close>

definition all_but_idle :: "catalog \<Rightarrow> nat \<Rightarrow> catalog \<Rightarrow> bool" where
  "all_but_idle K i K' \<longleftrightarrow>
     length (c_entries K') = 256 \<and> c_data_start K' = c_data_start K \<and>
     (\<forall>j<256. j \<noteq> i \<longrightarrow> c_entries K' ! j = c_entries K ! j) \<and>
     (c_entries K' ! i = c_entries K ! i \<or>
      ce_state (c_entries K ! i) \<noteq> Active \<and> ce_state (c_entries K' ! i) \<noteq> Active)"

lemma repaired_entry:
  assumes "i < length (c_entries K)"
  shows "c_entries (alloc_repair_spec K) ! i = reset_entry (c_entries K ! i)"
  using assms by (simp add: alloc_repair_spec_def)

lemma reset_entry_active: "ce_state (reset_entry e) = Active \<longleftrightarrow> ce_state e = Active"
  "live (reset_entry e) \<longleftrightarrow> ce_state e = Active" "ce_state e = Active \<Longrightarrow> reset_entry e = e"
  by (cases "ce_state e"; simp add: reset_entry_def half_done_def live_def)+

lemma find_spec_cong:
  assumes "\<And>i. unat i < 256 \<Longrightarrow> named name (entry_at K' i) = named name (entry_at K i)"
    and "\<And>i. unat i < 256 \<Longrightarrow> named name (entry_at K i) \<Longrightarrow> entry_at K' i = entry_at K i"
  shows "find_spec name K' = find_spec name K"
proof -
  have "find (\<lambda>i. named name (entry_at K' i)) slots = find (\<lambda>i. named name (entry_at K i)) slots"
    using assms(1) slots_bound by (intro find_cong [OF refl]) blast
  moreover have "entry_at K' i = entry_at K i" if "find (\<lambda>i. named name (entry_at K i)) slots = Some i" for i
    using find_some_in [OF that] slots_bound assms(2) by blast
  ultimately show ?thesis by (auto simp: find_spec_def split: option.splits)
qed

lemma recovered_catalog:
  assumes "cat_inv ra K" "all_but_idle K i K'"
  shows "cat_inv ra (alloc_repair_spec K')" "find_spec name (alloc_repair_spec K') = find_spec name K"
proof -
  let ?R = "alloc_repair_spec K'"
  have len: "length (c_entries K') = 256" using assms(2) by (simp add: all_but_idle_def)
  have act: "c_entries ?R ! j = c_entries K ! j"
    if "j < 256" "ce_state (c_entries K' ! j) = Active \<or> ce_state (c_entries K ! j) = Active" for j
  proof -
    have "c_entries K' ! j = c_entries K ! j"
      using that assms(2) by (cases "j = i") (auto simp: all_but_idle_def)
    then show ?thesis using that len by (auto simp: repaired_entry reset_entry_active)
  qed
  show "cat_inv ra ?R"
  proof (rule cat_inv_sub [OF assms(1)])
    show "c_data_start ?R = c_data_start K" "length (c_entries ?R) = 256"
      using assms(2) by (simp_all add: all_but_idle_def alloc_repair_spec_def)
    show "c_entries ?R ! j = c_entries K ! j" if "j < 256" "live (c_entries ?R ! j)" for j
    proof -
      have "ce_state (c_entries K' ! j) = Active" using that len by (simp add: repaired_entry reset_entry_active)
      with act that(1) show ?thesis by blast
    qed
  qed
  show "find_spec name ?R = find_spec name K"
  proof (rule find_spec_cong)
    fix j :: usize assume j: "unat j < 256"
    have "named name (c_entries ?R ! unat j) = named name (c_entries K ! unat j)"
    proof (cases "ce_state (c_entries K' ! unat j) = Active \<or> ce_state (c_entries K ! unat j) = Active")
      case True
      then show ?thesis using act [OF j] by simp
    next
      case False
      then show ?thesis using j len by (simp add: named_def repaired_entry reset_entry_active)
    qed
    then show "named name (entry_at ?R j) = named name (entry_at K j)" by (simp add: entry_at_def)
    show "entry_at ?R j = entry_at K j" if "named name (entry_at K j)"
      using that act [OF j] by (simp add: named_def entry_at_def)
  qed
qed

lemma one_entry_all_but_idle:
  assumes "one_entry base m0 i E m" "i < 256"
    and "length (c_entries K) = 256" "c_data_start K = get64 (cache m0) (unat base + 24)"
    and "\<And>j. j < 256 \<Longrightarrow> j \<noteq> i \<Longrightarrow> c_entries K ! j = entry_view base (cache m0) j"
    and "\<And>e. E e \<Longrightarrow> e = c_entries K ! i \<or> ce_state (c_entries K ! i) \<noteq> Active \<and> ce_state e \<noteq> Active"
  shows "all_but_idle K i (abs_catalog base (media m))"
  using assms by (auto simp: all_but_idle_def one_entry_def abs_catalog_def)


lemma run_alloc_recover_crash:
  assumes "cat_region (ra_base ra) m"
  obtains n m2 where "run (alloc_recover ra) (crash m) = Inr (n, m2)" "cat_region (ra_base ra) m2"
    "abs_catalog (ra_base ra) (cache m2) = alloc_repair_spec (abs_catalog (ra_base ra) (media m))"
proof -
  have "cat_region (ra_base ra) (crash m)" using assms by (simp add: crash_def cat_region_def mapped_def)
  from asim_alloc_recover [OF this refl] that show thesis
    by (auto simp: refines_def alloc_recover_spec_def crash_def)
qed

section \<open>Recovery after an interruption of create_region\<close>




section \<open>Recovery after an interruption of free_region\<close>

lemma find_other_after_free:
  assumes "cat_inv ra K" "free_spec name K = (Inr (), K')" "other \<noteq> name"
  shows "find_spec other K' = find_spec other K"
proof -
  from assms(2) obtain h where h: "find_spec name K = Inr h"
    and K': "c_entries K' = c_entries (set_state (rh_slot h) Free K)"
    by (auto simp: free_spec_def split: sum.splits)
  note H = find_spec_handle [OF h]
  have at: "entry_at K' i = (if i = rh_slot h then entry_at K i\<lparr>ce_state := Free\<rparr> else entry_at K i)"
    if "unat i < 256" for i
    using that cat_invD(1) [OF assms(1)] by (auto simp: entry_at_def K' set_state_def word_unat_eq_iff)
  show ?thesis
    by (rule find_spec_cong) (use at H assms(3) in \<open>auto simp: named_def\<close>)
qed

lemma free_crash_catalog:
  assumes "free_crash ra name m0 m" "cat_inv ra (abs_catalog (ra_base ra) (cache m0))"
  defines "K \<equiv> abs_catalog (ra_base ra) (cache m0)" and "K' \<equiv> abs_catalog (ra_base ra) (media m)"
  shows "(\<exists>i. all_but_idle K i K') \<and> (freed ra name m0 m \<longrightarrow> fst (free_spec name K) \<noteq> Inr ()) \<or>
    (\<exists>i. fst (free_spec name K) = Inr () \<and> all_but_idle (snd (free_spec name K)) i K')"
proof (cases "find_spec name K")
  case (Inl e)
  then have "one_entry (ra_base ra) m0 0 (\<lambda>e. e = entry_at K 0) m"
    using assms(1) by (simp add: free_crash_def K_def)
  then have "all_but_idle K 0 K'"
    unfolding K'_def by (rule one_entry_all_but_idle) (simp_all add: K_def entry_at_def)
  then show ?thesis using Inl by (auto simp: free_spec_def)
next
  case (Inr h)
  let ?i = "unat (rh_slot h)" and ?e = "entry_view (ra_base ra) (media m) (unat (rh_slot h))"
  note h = find_spec_handle [OF Inr]
  have one: "one_entry (ra_base ra) m0 ?i (leaving (entry_at K (rh_slot h))) m"
    using assms(1) Inr by (simp add: free_crash_def K_def Let_def)
  show ?thesis
  proof (cases "ce_state ?e = Active")
    case True
    then have e: "one_entry (ra_base ra) m0 ?i (\<lambda>e. e = entry_at K (rh_slot h)) m"
      using one h by (auto simp: one_entry_def leaving_def named_def)
    have "all_but_idle K ?i K'"
      unfolding K'_def by (rule one_entry_all_but_idle [OF e]) (use h in \<open>simp_all add: K_def entry_at_def\<close>)
    moreover have "\<not> freed ra name m0 m" using True Inr by (simp add: freed_def K_def Let_def)
    ultimately show ?thesis by blast
  next
    case False
    then have e: "one_entry (ra_base ra) m0 ?i (\<lambda>e. ce_state e \<noteq> Active) m" using one by (simp add: one_entry_def)
    have "all_but_idle (snd (free_spec name K)) ?i K'"
      unfolding K'_def
      by (rule one_entry_all_but_idle [OF e])
        (use h Inr in \<open>simp_all add: free_spec_def set_state_def set_entry_def K_def abs_catalog_def\<close>)
    moreover have "fst (free_spec name K) = Inr ()" using Inr by (simp add: free_spec_def)
    ultimately show ?thesis by blast
  qed
qed

text \<open>
  C16: wherever a power loss interrupts \<open>free_region\<close>, and whatever was evicted before, the
  allocator's recovery leaves a catalog with the invariant in which every other region is found
  as before, and the freed one as before or not any more; if \<open>free_region\<close> had returned, it is
  not found.
\<close>
theorem free_region_crash_recover:
  assumes "cat_region (ra_base ra) m0" "cat_synced (ra_base ra) m0" "mm_arch m0 = X86_64"
    and "cat_inv ra (abs_catalog (ra_base ra) (cache m0))"
    and "crash_reach (free_region ra name) m0 p m"
  shows "\<exists>n m2. run (alloc_recover ra) (crash m) = Inr (n, m2) \<and>
    cat_inv ra (abs_catalog (ra_base ra) (cache m2)) \<and>
    (\<forall>other r. other \<noteq> name \<longrightarrow> run (find_region ra other) m0 = Inr (r, m0) \<longrightarrow>
       run (find_region ra other) m2 = Inr (r, m2)) \<and>
    (run (find_region ra name) m2 = Inr (Inl (NotFound name), m2) \<or>
     (\<exists>r. run (find_region ra name) m0 = Inr (r, m0) \<and> run (find_region ra name) m2 = Inr (r, m2))) \<and>
    (\<forall>x. p = Ret x \<longrightarrow> run (find_region ra name) m2 = Inr (Inl (NotFound name), m2))"
proof -
  let ?B = "ra_base ra"
  let ?K = "abs_catalog ?B (cache m0)" and ?K' = "abs_catalog ?B (media m)"
  note spec = crash_free_region [OF assms(1-3), of name]
  have C: "free_crash ra name m0 m" by (rule crash_specD(1) [OF spec refl assms(5)])
  then have "cat_region ?B m" by (auto simp: free_crash_def one_entry_def Let_def split: sum.splits)
  from run_alloc_recover_crash [OF this] obtain n m2 where
    m2: "run (alloc_recover ra) (crash m) = Inr (n, m2)" "cat_region ?B m2"
    "abs_catalog ?B (cache m2) = alloc_repair_spec ?K'" .
  note find = run_find_region [OF m2(2)] run_find_region [OF assms(1)]
  have freed: "freed ra name m0 m" if "p = Ret x" for x
    using crash_specD(2) [OF spec refl] assms(5) that by blast
  from free_crash_catalog [OF C assms(4)]
  consider (no) i where "all_but_idle ?K i ?K'" "freed ra name m0 m \<Longrightarrow> fst (free_spec name ?K) \<noteq> Inr ()"
    | (yes) i where "fst (free_spec name ?K) = Inr ()" "all_but_idle (snd (free_spec name ?K)) i ?K'"
    by blast
  then show ?thesis
  proof cases
    case no
    note R = recovered_catalog [OF assms(4) no(1)]
    have same: "run (find_region ra other) m2 = Inr (find_spec other ?K, m2)" for other
      using R(2) by (simp add: find m2(3))
    have "find_spec name ?K = Inl (NotFound name)" if "p = Ret x" for x
      using no(2) [OF freed [OF that]] by (auto simp: free_spec_def find_spec_def split: option.splits)
    then show ?thesis using m2(1) R(1) same find(2) by (auto simp: m2(3))
  next
    case yes
    then obtain K2 where K2: "free_spec name ?K = (Inr (), K2)" by (metis prod.collapse)
    have i2: "all_but_idle K2 i ?K'" using yes(2) K2 by simp
    have inv2: "cat_inv ra K2" using cat_inv_free [OF assms(4), of name] K2 by simp
    note R = recovered_catalog [OF inv2 i2]
    have "run (find_region ra other) m2 = Inr (find_spec other ?K, m2)" if "other \<noteq> name" for other
      using find_other_after_free [OF assms(4) K2 that] R(2) by (simp add: find m2(3))
    moreover have "run (find_region ra name) m2 = Inr (Inl (NotFound name), m2)"
      using find_after_free [OF assms(4) K2] R(2) by (simp add: find m2(3))
    ultimately show ?thesis using m2(1) R(1) find(2) by (auto simp: m2(3))
  qed
qed

theorem free_region_crash_recover_witness:
  "\<exists>m0 m n m2. run (free_region demo_alloc [97]) m0 = Inr (Inr (), m) \<and>
     run (alloc_recover demo_alloc) (crash m) = Inr (n, m2) \<and>
     run (find_region demo_alloc [97]) m2 = Inr (Inl (NotFound [97]), m2)"
proof -
  from demo_create obtain m' where m': "alloc_reach demo_alloc m'"
    "c_entries (abs_catalog 0 (cache m')) ! 0 = new_entry [97] 16448 100" by blast
  let ?K = "abs_catalog 0 (cache m')" and ?m0 = "demo_heap (cache m')"
  have inv: "cat_inv demo_alloc ?K" using alloc_reach_inv [OF m'(1)] by simp
  have "entry_at ?K 0 = new_entry [97] 16448 100" using m'(2) by (simp add: entry_at_def)
  then have "find_spec [97] ?K = Inr (handle_of 0 (new_entry [97] 16448 100))"
    using find_spec_at [OF inv, of 0] by (simp add: new_entry_def)
  then have "fst (free_spec [97] ?K) = Inr ()" by (simp add: free_spec_def)
  then obtain m where m: "run (free_region demo_alloc [97]) ?m0 = Inr (Inr (), m)"
    using asim_free_region [of demo_alloc ?m0 ?K "[97]"] by (auto simp: refines_def)
  have syn: "cat_synced (ra_base demo_alloc) ?m0" "mm_arch ?m0 = X86_64"
    "cat_inv demo_alloc (abs_catalog (ra_base demo_alloc) (cache ?m0))"
    using inv by simp_all (simp_all add: cat_synced_def demo_heap_def)
  from free_region_crash_recover [OF _ syn run_crash_reach [OF m]] m show ?thesis by auto
qed

end
