(* ===== verification/Interference.thy ===== *)
theory Interference
  imports CrashLogic
begin

text \<open>
  Threads that share a region: interleaved runs, and a rely/guarantee argument about them.
  A thread is a program; the scheduler picks a thread, which makes one call of the backend,
  and cachelines are evicted at any time. The calls are atomic and take effect in program
  order, so the model is sequentially consistent at the grain of the backend's methods.
\<close>

section \<open>Interleaved runs\<close>

inductive par_reach :: "'a prog list \<Rightarrow> mmap \<Rightarrow> 'a prog list \<Rightarrow> mmap \<Rightarrow> bool" where
  par_refl: "par_reach ps m ps m"
| par_thread: "par_reach ps m ps' m' \<Longrightarrow> i < length ps' \<Longrightarrow> step (ps' ! i) m' = Some (Inr (p, n)) \<Longrightarrow>
    par_reach ps m (ps'[i := p]) n"
| par_evict: "par_reach ps m ps' m' \<Longrightarrow> par_reach ps m ps' (write_back l m')"

text \<open>One scheduler step, for the question whether the threads ever stop.\<close>

inductive par_step :: "'a prog list \<times> mmap \<Rightarrow> 'a prog list \<times> mmap \<Rightarrow> bool" where
  "i < length ps \<Longrightarrow> step (ps ! i) m = Some (Inr (p, n)) \<Longrightarrow> par_step (ps, m) (ps[i := p], n)"

inductive_cases par_stepE: "par_step (ps, m) c"

section \<open>Safe threads\<close>

text \<open>
  \<open>safe R I rely i Q p \<sigma>\<close>: thread \<open>i\<close> runs \<open>p\<close> from a state \<open>\<sigma>\<close>, whose region is \<open>R \<sigma>\<close>, while the
  others move the state within \<open>rely i\<close>. Each of its steps is taken without a fault, keeps the
  invariant \<open>I\<close> and is one that every other thread relies on, and when it returns \<open>x\<close>, \<open>Q x\<close>
  holds. The states may carry more than the region: what a step does to the rest is chosen in
  the proof.
\<close>

inductive safe ::
    "('s \<Rightarrow> mmap) \<Rightarrow> ('s \<Rightarrow> bool) \<Rightarrow> (nat \<Rightarrow> 's \<Rightarrow> 's \<Rightarrow> bool) \<Rightarrow> nat \<Rightarrow> ('a \<Rightarrow> 's \<Rightarrow> bool) \<Rightarrow> 'a prog \<Rightarrow> 's \<Rightarrow> bool"
  for R I rely i Q where
  safe_Ret: "(\<And>t. rely i s t \<Longrightarrow> I t \<Longrightarrow> Q x t) \<Longrightarrow> safe R I rely i Q (Ret x) s"
| safe_step: "(\<And>t. rely i s t \<Longrightarrow> I t \<Longrightarrow> \<exists>p' u. step p (R t) = Some (Inr (p', R u)) \<and> I u \<and>
      (\<forall>j. j \<noteq> i \<longrightarrow> rely j t u) \<and> safe R I rely i Q p' u) \<Longrightarrow> safe R I rely i Q p s"

inductive_cases safeE: "safe R I rely i Q p s"

definition keeps :: "('s \<Rightarrow> bool) \<Rightarrow> ('s \<Rightarrow> 's \<Rightarrow> bool) \<Rightarrow> ('s \<Rightarrow> bool) \<Rightarrow> bool" where
  "keeps I rel P \<longleftrightarrow> (\<forall>s t. P s \<longrightarrow> I s \<longrightarrow> I t \<longrightarrow> rel s t \<longrightarrow> P t)"

definition triple ::
    "('s \<Rightarrow> mmap) \<Rightarrow> ('s \<Rightarrow> bool) \<Rightarrow> (nat \<Rightarrow> 's \<Rightarrow> 's \<Rightarrow> bool) \<Rightarrow> nat \<Rightarrow> ('s \<Rightarrow> bool) \<Rightarrow> 'a prog \<Rightarrow> ('a \<Rightarrow> 's \<Rightarrow> bool) \<Rightarrow> bool" where
  "triple R I rely i P p Q \<longleftrightarrow> (\<forall>s. P s \<longrightarrow> I s \<longrightarrow> safe R I rely i Q p s)"

text \<open>
  The contract between the threads and what they share: the relies are preorders, all of them
  are within one relation \<open>evolve\<close>, and an eviction is a step that every thread relies on.
\<close>

locale interference =
  fixes R :: "'s \<Rightarrow> mmap" and I :: "'s \<Rightarrow> bool"
    and rely :: "nat \<Rightarrow> 's \<Rightarrow> 's \<Rightarrow> bool" and evolve :: "'s \<Rightarrow> 's \<Rightarrow> bool"
  assumes rely_refl: "rely i s s"
    and rely_trans: "rely i s t \<Longrightarrow> rely i t u \<Longrightarrow> rely i s u"
    and rely_evolve: "rely i s t \<Longrightarrow> evolve s t"
    and evict: "I s \<Longrightarrow> \<exists>t. R t = write_back l (R s) \<and> I t \<and> (\<forall>i. rely i s t)"
begin

lemma safe_rely: "safe R I rely i Q p s \<Longrightarrow> rely i s t \<Longrightarrow> safe R I rely i Q p t"
proof (erule safeE, goal_cases)
  case (1 x)
  then show ?case by (auto intro: safe_Ret rely_trans)
next
  case 2
  show ?case by (rule safe_step) (use 2 rely_trans in blast)
qed

lemma safe_RetD: "safe R I rely i Q (Ret x) s \<Longrightarrow> I s \<Longrightarrow> Q x s"
proof (erule safeE, goal_cases)
  case (1 y)
  then show ?case using rely_refl by simp
next
  case 2
  from 2(2) [OF rely_refl 2(1)] show ?case by simp
qed

lemma safe_stepD:
  assumes "safe R I rely i Q p s" "I s" "\<forall>x. p \<noteq> Ret x"
  shows "\<exists>p' u. step p (R s) = Some (Inr (p', R u)) \<and> I u \<and> (\<forall>j. j \<noteq> i \<longrightarrow> rely j s u) \<and>
    safe R I rely i Q p' u"
proof (rule safeE [OF assms(1)], goal_cases)
  case (1 x)
  then show ?case using assms(3) by simp
next
  case 2
  from 2 [OF rely_refl assms(2)] show ?case .
qed

text \<open>It is enough to be safe in the states the invariant allows.\<close>

lemma safe_later:
  assumes "\<And>t. rely i s t \<Longrightarrow> I t \<Longrightarrow> safe R I rely i Q p t"
  shows "safe R I rely i Q p s"
proof (cases "\<exists>x. p = Ret x")
  case True
  then obtain x where x: "p = Ret x" by blast
  have "Q x t" if "rely i s t" "I t" for t
    by (rule safe_RetD [OF assms [OF that, unfolded x] that(2)])
  then show ?thesis unfolding x by (rule safe_Ret)
next
  case False
  show ?thesis
  proof (rule safe_step)
    fix t assume t: "rely i s t" "I t"
    show "\<exists>p' u. step p (R t) = Some (Inr (p', R u)) \<and> I u \<and>
        (\<forall>j. j \<noteq> i \<longrightarrow> rely j t u) \<and> safe R I rely i Q p' u"
      by (rule safe_stepD [OF assms [OF t] t(2)]) (use False in simp)
  qed
qed

lemma safe_bind:
  assumes "safe R I rely i M p s" "\<And>x t. M x t \<Longrightarrow> I t \<Longrightarrow> safe R I rely i Q (f x) t"
  shows "safe R I rely i Q (prog_bind p f) s"
  using assms(1)
proof (induction rule: safe.induct)
  case (safe_Ret s x)
  then show ?case by (auto intro: safe_later assms(2))
next
  case (safe_step s p)
  show ?case
  proof (rule safe.safe_step)
    fix t assume t: "rely i s t" "I t"
    from safe_step [OF t] obtain p' u where u: "step p (R t) = Some (Inr (p', R u))" "I u"
      "\<forall>j. j \<noteq> i \<longrightarrow> rely j t u" "safe R I rely i Q (prog_bind p' f) u" by blast
    then have "\<forall>x. p \<noteq> Ret x" by auto
    from u step_bind [OF this, of f "R t"]
    show "\<exists>p' u. step (prog_bind p f) (R t) = Some (Inr (p', R u)) \<and> I u \<and>
        (\<forall>j. j \<noteq> i \<longrightarrow> rely j t u) \<and> safe R I rely i Q p' u" by auto
  qed
qed

lemma safe_conseq:
  assumes "safe R I rely i Q p s" "\<And>x t. Q x t \<Longrightarrow> I t \<Longrightarrow> Q' x t"
  shows "safe R I rely i Q' p s"
  using assms(1)
proof (induction rule: safe.induct)
  case (safe_step s p)
  then show ?case by (intro safe.safe_step) blast
qed (blast intro: safe.safe_Ret assms(2))

text \<open>What every step keeps can be carried along.\<close>

lemma safe_frame:
  assumes "safe R I rely i Q p s" "keeps I evolve F" "F s" "I s"
  shows "safe R I rely i (\<lambda>x t. Q x t \<and> F t) p s"
  using assms(1,3,4)
proof (induction rule: safe.induct)
  case (safe_Ret s x)
  with assms(2) rely_evolve show ?case by (intro safe.safe_Ret) (auto simp: keeps_def)
next
  case (safe_step s p)
  show ?case
  proof (rule safe.safe_step)
    fix t assume t: "rely i s t" "I t"
    from safe_step(1) [OF t] obtain p' u where u: "step p (R t) = Some (Inr (p', R u))" "I u"
      "\<forall>j. j \<noteq> i \<longrightarrow> rely j t u" "F u \<longrightarrow> I u \<longrightarrow> safe R I rely i (\<lambda>x t. Q x t \<and> F t) p' u"
      by blast
    have "F t" using assms(2) safe_step.prems t rely_evolve by (auto simp: keeps_def)
    moreover have "evolve t u" using u(3) rely_evolve [of "Suc i" t u] by simp
    ultimately have "F u" using assms(2) t(2) u(2) by (auto simp: keeps_def)
    with u show "\<exists>p' u. step p (R t) = Some (Inr (p', R u)) \<and> I u \<and>
        (\<forall>j. j \<noteq> i \<longrightarrow> rely j t u) \<and> safe R I rely i (\<lambda>x t. Q x t \<and> F t) p' u" by blast
  qed
qed

section \<open>Rules for triples\<close>

lemma triple_Ret: "keeps I (rely i) (Q x) \<Longrightarrow> triple R I rely i (Q x) (Ret x) Q"
  by (auto simp: triple_def keeps_def intro: safe_Ret)

lemma triple_pre: "triple R I rely i P p Q \<Longrightarrow> (\<And>s. P' s \<Longrightarrow> I s \<Longrightarrow> P s) \<Longrightarrow> triple R I rely i P' p Q"
  by (auto simp: triple_def)

lemma triple_post: "triple R I rely i P p Q \<Longrightarrow> (\<And>x s. Q x s \<Longrightarrow> I s \<Longrightarrow> Q' x s) \<Longrightarrow> triple R I rely i P p Q'"
  by (auto simp: triple_def intro: safe_conseq)

lemma triple_bind:
  "triple R I rely i P p M \<Longrightarrow> (\<And>x. triple R I rely i (M x) (f x) Q) \<Longrightarrow> triple R I rely i P (prog_bind p f) Q"
  by (auto simp: triple_def intro: safe_bind)

lemma triple_frame:
  "triple R I rely i P p Q \<Longrightarrow> keeps I evolve F \<Longrightarrow>
   triple R I rely i (\<lambda>s. P s \<and> F s) p (\<lambda>x s. Q x s \<and> F s)"
  by (auto simp: triple_def intro: safe_frame)

lemma triple_step:
  assumes "keeps I (rely i) P"
    and "\<And>s. P s \<Longrightarrow> I s \<Longrightarrow> \<exists>p' u. step p (R s) = Some (Inr (p', R u)) \<and> I u \<and>
      (\<forall>j. j \<noteq> i \<longrightarrow> rely j s u) \<and> P' p' u"
    and "\<And>p'. triple R I rely i (P' p') p' Q"
  shows "triple R I rely i P p Q"
  unfolding triple_def
proof (intro allI impI, rule safe_step)
  fix s t assume "P s" "I s" "rely i s t" "I t"
  with assms(1) have "P t" by (auto simp: keeps_def)
  from assms(2) [OF this \<open>I t\<close>] assms(3) show "\<exists>p' u. step p (R t) = Some (Inr (p', R u)) \<and> I u \<and>
      (\<forall>j. j \<noteq> i \<longrightarrow> rely j t u) \<and> safe R I rely i Q p' u"
    unfolding triple_def by blast
qed

section \<open>Parallel composition\<close>

lemma par_safe:
  assumes "par_reach ps m ps' m'" "I s" "R s = m" "\<forall>i<length ps. safe R I rely i (Q i) (ps ! i) s"
  shows "\<exists>s'. R s' = m' \<and> I s' \<and> length ps' = length ps \<and>
    (\<forall>i<length ps. safe R I rely i (Q i) (ps' ! i) s') \<and> (\<forall>i\<ge>length ps. rely i s s')"
  using assms
proof (induction rule: par_reach.induct)
  case (par_thread ps m ps' m' i p n)
  then obtain t where t: "R t = m'" "I t" "length ps' = length ps"
    "\<forall>k<length ps. safe R I rely k (Q k) (ps' ! k) t" "\<forall>k\<ge>length ps. rely k s t" by blast
  have "\<forall>x. ps' ! i \<noteq> Ret x" using par_thread.hyps(3) by auto
  moreover have i: "i < length ps" using par_thread.hyps(2) t(3) by simp
  moreover have "safe R I rely i (Q i) (ps' ! i) t" using t(4) i by blast
  ultimately obtain p' u where u: "step (ps' ! i) (R t) = Some (Inr (p', R u))" "I u"
    "\<forall>j. j \<noteq> i \<longrightarrow> rely j t u" "safe R I rely i (Q i) p' u"
    using safe_stepD [OF _ t(2)] by blast
  have "safe R I rely k (Q k) ((ps'[i := p]) ! k) u" if k: "k < length ps" for k
  proof (cases "k = i")
    case True
    with u t par_thread.hyps(3) k show ?thesis by simp
  next
    case False
    then have "rely k t u" using u(3) by simp
    moreover have "safe R I rely k (Q k) (ps' ! k) t" using t(4) k by blast
    ultimately have "safe R I rely k (Q k) (ps' ! k) u" by (rule safe_rely [rotated])
    with False show ?thesis by simp
  qed
  moreover have "rely k s u" if "length ps \<le> k" for k
    by (rule rely_trans [of _ _ t]) (use t(5) u(3) that i in auto)
  ultimately show ?case using u t par_thread.hyps(3) by (intro exI [of _ u]) simp
next
  case (par_evict ps m ps' m' l)
  then obtain t where t: "R t = m'" "I t" "length ps' = length ps"
    "\<forall>k<length ps. safe R I rely k (Q k) (ps' ! k) t" "\<forall>k\<ge>length ps. rely k s t" by blast
  from evict [OF t(2), of l] obtain u where u: "R u = write_back l (R t)" "I u" "\<forall>i. rely i t u"
    by blast
  have "safe R I rely k (Q k) (ps' ! k) u" if "k < length ps" for k
    by (rule safe_rely [of _ _ _ t]) (use t(4) u(3) that in blast)+
  moreover have "rely k s u" if "length ps \<le> k" for k
    by (rule rely_trans [of _ _ t]) (use t(5) u(3) that in auto)
  ultimately show ?case using t u by (intro exI [of _ u]) simp
next
  case (par_refl ps m)
  then show ?case using rely_refl by blast
qed

lemma par_no_fault:
  assumes "safe R I rely i Q p s" "I s"
  shows "(\<exists>x. p = Ret x \<and> Q x s) \<or> (\<exists>p' n. step p (R s) = Some (Inr (p', n)))"
proof (cases "\<exists>x. p = Ret x")
  case True
  then obtain x where x: "p = Ret x" by blast
  from safe_RetD [OF assms(1) [unfolded x] assms(2)] show ?thesis using x by simp
next
  case False
  then have "\<forall>x. p \<noteq> Ret x" by blast
  from safe_stepD [OF assms this] show ?thesis by blast
qed

end

section \<open>Every schedule ends\<close>

text \<open>A step of a program leads to one of its subtrees.\<close>

primrec subtrees :: "'a prog \<Rightarrow> 'a prog set" where
  "subtrees (Ret x) = {}"
| "subtrees (Fail e) = {}"
| "subtrees (Read a n k) = range k"
| "subtrees (Write a bs k) = {k}"
| "subtrees (LoadU64 a ord k) = range k"
| "subtrees (StoreU64 a v ord k) = {k}"
| "subtrees (FetchAddU64 a d ord k) = range k"
| "subtrees (CompareExchangeU64 a x d o1 o2 k) = range k"
| "subtrees (LoadU8 a ord k) = range k"
| "subtrees (StoreU8 a v ord k) = {k}"
| "subtrees (Flush a n k) = {k}"

definition subtree :: "'a prog \<Rightarrow> 'a prog \<Rightarrow> bool" where
  "subtree q p \<longleftrightarrow> q \<in> subtrees p"

lemma step_subtree: "step p m = Some (Inr (q, n)) \<Longrightarrow> subtree q p"
  by (cases p) (auto simp: subtree_def split: sum.splits)

lemma wfp_subtree: "wfp (subtree :: 'a prog \<Rightarrow> 'a prog \<Rightarrow> bool)"
proof (rule accp_wfpI, rule allI)
  fix p :: "'a prog"
  show "Wellfounded.accp subtree p"
    by (induction p; rule accp.accI; simp add: subtree_def; blast)
qed

text \<open>One step of any thread leads to a smaller list of programs.\<close>

lemma par_step_listrel: "par_step (ps, m) (qs, n) \<Longrightarrow> (qs, ps) \<in> listrel1 {(q, p). subtree q p}"
proof (erule par_stepE)
  fix i p n' assume i: "i < length ps" "step (ps ! i) m = Some (Inr (p, n'))" "(qs, n) = (ps[i := p], n')"
  show ?thesis
  proof (rule listrel1I)
    show "(p, ps ! i) \<in> {(q, p). subtree q p}" using step_subtree [OF i(2)] by simp
    show "qs = take i ps @ p # drop (Suc i) ps" using i(1,3) by (simp add: upd_conv_take_nth_drop)
    show "ps = take i ps @ ps ! i # drop (Suc i) ps" using i(1) by (rule id_take_nth_drop)
  qed
qed

lemma no_infinite_schedule:
  fixes f :: "nat \<Rightarrow> 'a prog list \<times> mmap"
  shows "\<not> (\<forall>k. par_step (f k) (f (Suc k)))"
proof
  assume f: "\<forall>k. par_step (f k) (f (Suc k))"
  have "wf (listrel1 {(q, p). subtree q (p :: 'a prog)})"
    using wfp_subtree by (simp add: wfp_def wf_listrel1_iff)
  moreover have "\<forall>k. (fst (f (Suc k)), fst (f k)) \<in> listrel1 {(q, p). subtree q p}"
    using f par_step_listrel by (metis prod.collapse)
  ultimately show False
    unfolding wf_iff_no_infinite_down_chain by (elim notE) (rule exI [of _ "\<lambda>k. fst (f k)"])
qed

end
