(* ===== verification/ConcState.thy ===== *)
theory ConcState
  imports Interference Batch
begin

text \<open>
  The state that concurrent appenders and readers share, and its invariant. Beside the region
  a state records what the code does not store: which append of which thread took a slot,
  which threads have reserved beyond the capacity and not taken the reservation back yet, and
  which threads are between committing a record and the end of \<open>advance_committed_tail\<close>,
  with the slot at which their scan stopped.
\<close>

record ghost =
  g_mem :: mmap
  g_own :: "nat \<Rightarrow> (nat \<times> nat) option"
  g_undo :: "nat set"
  g_adv :: "nat \<Rightarrow> nat option option"

abbreviation gc :: "ghost \<Rightarrow> bytes" where "gc s \<equiv> cache (g_mem s)"
abbreviation tail_at :: "bytes \<Rightarrow> nat" where "tail_at c \<equiv> unat (get64 c 32)"
abbreviation reserve_at :: "bytes \<Rightarrow> nat" where "reserve_at c \<equiv> unat (get64 c 40)"

definition done_at :: "pool_geometry \<Rightarrow> bytes \<Rightarrow> nat \<Rightarrow> bool" where
  "done_at g c w \<longleftrightarrow> c (rec_base g w) = STATE_COMMITTED"

definition same_rec :: "pool_geometry \<Rightarrow> nat \<Rightarrow> bytes \<Rightarrow> bytes \<Rightarrow> bool" where
  "same_rec g w c c' \<longleftrightarrow> (\<forall>x\<in>rec_region g w. c' x = c x)"

lemma same_rec_refl [simp]: "same_rec g w c c"
  by (simp add: same_rec_def)

lemma same_rec_trans: "same_rec g w c c' \<Longrightarrow> same_rec g w c' c'' \<Longrightarrow> same_rec g w c c''"
  by (simp add: same_rec_def)

lemma same_rec_agree: "agree_off A c c' \<Longrightarrow> rec_region g w \<inter> A = {} \<Longrightarrow> same_rec g w c c'"
  by (auto simp: same_rec_def agree_off_def)

lemma same_rec_view: "geom_ok g \<Longrightarrow> same_rec g w c c' \<Longrightarrow> slot_view H g c' w = slot_view H g c w"
  by (rule slot_view_cong [OF geom_okD(4)]) (auto simp: same_rec_def rec_region_def)

lemma same_rec_done: "geom_ok g \<Longrightarrow> same_rec g w c c' \<Longrightarrow> done_at g c' w = done_at g c w"
  using geom_okD(4) [of g] by (simp add: same_rec_def done_at_def rec_region_def)

lemma same_rec_header: "a + 8 \<le> 64 \<Longrightarrow> same_rec g w c (put64 c a v)"
  by (rule same_rec_agree [of "{a..<a + 8}"]) (use rec_region_header [of a g w] in \<open>auto intro!: agree_off_put64\<close>)

lemma committed_done: "committed_state (slot_view H g c w) = done_at g c w"
  by (simp add: done_at_def)

section \<open>The start\<close>

text \<open>
  The threads start on a log that satisfies the invariant, on which no reservation beyond the
  capacity is pending and the committed tail is where an advance would leave it.
\<close>

definition conc_start :: "'h hasher \<Rightarrow> pool_geometry \<Rightarrow> bytes \<Rightarrow> bool" where
  "conc_start H g b \<longleftrightarrow> geom_ok g \<and> log_inv g (abs_log H g b) \<and> reserve_at b \<le> cap g \<and>
     (tail_at b < cap g \<longrightarrow> \<not> done_at g b (tail_at b))"

lemma conc_startD:
  assumes "conc_start H g b"
  shows "geom_ok g" "tail_at b \<le> reserve_at b" "reserve_at b \<le> cap g"
    and "reserve_at b \<le> w \<Longrightarrow> w < cap g \<Longrightarrow> slot_view H g b w = SFree"
    and "w < cap g \<Longrightarrow> slot_ok (psz g) (tail_at b) (reserve_at b) w (slot_view H g b w)"
    and "tail_at b < cap g \<Longrightarrow> \<not> done_at g b (tail_at b)"
proof -
  have inv: "log_inv g (abs_log H g b)" using assms by (simp add: conc_start_def)
  show "geom_ok g" "reserve_at b \<le> cap g" "tail_at b < cap g \<Longrightarrow> \<not> done_at g b (tail_at b)"
    using assms by (simp_all add: conc_start_def)
  show "tail_at b \<le> reserve_at b" using log_invD(2) [OF inv] by simp
  show ok: "slot_ok (psz g) (tail_at b) (reserve_at b) w (slot_view H g b w)" if "w < cap g" for w
    using log_invD(4) [OF inv that] that by simp
  show "slot_view H g b w = SFree" if "reserve_at b \<le> w" "w < cap g" for w
    using ok [OF that(2)] that(1) by (cases "slot_view H g b w") auto
qed

lemma settled_start:
  assumes "geom_ok g" "settled g (abs_log H g b)"
  shows "conc_start H g b"
proof -
  have "log_inv g (abs_log H g b)" "get64 b 32 = get64 b 40"
    using assms(2) by (simp_all add: settled_def)
  then have eq: "reserve_at b = tail_at b" "tail_at b \<le> cap g"
    using log_invD(3) [of g "abs_log H g b"] by simp_all
  have "\<not> done_at g b (tail_at b)" if "tail_at b < cap g"
  proof -
    have "slot_view H g b (tail_at b) = SFree"
      using settled_free [OF assms(2), of "tail_at b"] that by simp
    then show ?thesis using committed_done [of H g b "tail_at b"] by simp
  qed
  with eq \<open>log_inv g _\<close> assms(1) show ?thesis by (simp add: conc_start_def)
qed

section \<open>The invariant\<close>

text \<open>Reservations: the slots taken since the start are the ones after those reserved before.\<close>

definition reserve_inv ::
    "pool_geometry \<Rightarrow> nat \<Rightarrow> nat \<Rightarrow> nat \<Rightarrow> (nat \<Rightarrow> (nat \<times> nat) option) \<Rightarrow> nat set \<Rightarrow> bool" where
  "reserve_inv g K N r own undo \<longleftrightarrow>
     (\<exists>e. K \<le> e \<and> e \<le> cap g \<and> dom own = {K..<e} \<and> r = e + card undo \<and> (undo \<noteq> {} \<longrightarrow> e = cap g)) \<and>
     undo \<subseteq> {..<N}"

text \<open>The tail has only passed committed slots.\<close>

definition tail_inv :: "pool_geometry \<Rightarrow> nat \<Rightarrow> bytes \<Rightarrow> bool" where
  "tail_inv g T c \<longleftrightarrow> T \<le> tail_at c \<and> tail_at c \<le> cap g \<and> (\<forall>w. T \<le> w \<longrightarrow> w < tail_at c \<longrightarrow> done_at g c w)"

text \<open>Slots nobody has taken are as at the start, and a taken one is never committed and corrupt.\<close>

definition slots_inv ::
    "'h hasher \<Rightarrow> pool_geometry \<Rightarrow> bytes \<Rightarrow> (nat \<Rightarrow> (nat \<times> nat) option) \<Rightarrow> bytes \<Rightarrow> bool" where
  "slots_inv H g b own c \<longleftrightarrow>
     (\<forall>w<cap g. w \<notin> dom own \<longrightarrow> same_rec g w b c) \<and> (\<forall>w\<in>dom own. slot_view H g c w \<noteq> SCorrupt)"

text \<open>
  No advance is lost: as long as the slots from the tail to \<open>w\<close> are all committed, some thread
  is in its advance and has not seen one of them uncommitted.
\<close>

definition adv_inv :: "pool_geometry \<Rightarrow> bytes \<Rightarrow> (nat \<Rightarrow> nat option option) \<Rightarrow> bool" where
  "adv_inv g c adv \<longleftrightarrow>
     (\<forall>w. tail_at c \<le> w \<longrightarrow> w < cap g \<longrightarrow> (\<forall>v. tail_at c \<le> v \<longrightarrow> v \<le> w \<longrightarrow> done_at g c v) \<longrightarrow>
       (\<exists>i q. adv i = Some q \<and> (\<forall>v. q = Some v \<longrightarrow> w < v)))"

definition conc_inv :: "'h hasher \<Rightarrow> pool_geometry \<Rightarrow> bytes \<Rightarrow> nat \<Rightarrow> ghost \<Rightarrow> bool" where
  "conc_inv H g b N s \<longleftrightarrow>
     pool g (g_mem s) \<and> mm_arch (g_mem s) = X86_64 \<and>
     reserve_inv g (reserve_at b) N (reserve_at (gc s)) (g_own s) (g_undo s) \<and>
     tail_inv g (tail_at b) (gc s) \<and> slots_inv H g b (g_own s) (gc s) \<and> adv_inv g (gc s) (g_adv s)"

lemma conc_invD:
  assumes "conc_inv H g b N s"
  shows "pool g (g_mem s)" "mm_arch (g_mem s) = X86_64"
    "reserve_inv g (reserve_at b) N (reserve_at (gc s)) (g_own s) (g_undo s)"
    "tail_inv g (tail_at b) (gc s)" "slots_inv H g b (g_own s) (gc s)" "adv_inv g (gc s) (g_adv s)"
  using assms by (simp_all add: conc_inv_def)

lemma dom_own:
  assumes "conc_inv H g b N s" "g_own s w = Some x"
  shows "reserve_at b \<le> w" "w < cap g"
proof -
  obtain e where e: "e \<le> cap g" "dom (g_own s) = {reserve_at b..<e}"
    using conc_invD(3) [OF assms(1)] by (auto simp: reserve_inv_def)
  have "w \<in> dom (g_own s)" using assms(2) by blast
  then show "reserve_at b \<le> w" "w < cap g" using e by auto
qed

section \<open>How the parts of the invariant change\<close>

lemma tail_inv_cong:
  assumes "geom_ok g" "tail_inv g T c" "get64 c' 32 = get64 c 32"
    and "\<And>w. w < cap g \<Longrightarrow> done_at g c w \<Longrightarrow> done_at g c' w"
  shows "tail_inv g T c'"
  using assms by (auto simp: tail_inv_def)

lemma slots_inv_cong:
  assumes "geom_ok g" "slots_inv H g b own c" "dom own \<subseteq> {..<cap g}"
    and "\<And>w. w < cap g \<Longrightarrow> same_rec g w c c'"
  shows "slots_inv H g b own c'"
  unfolding slots_inv_def
proof (intro conjI allI ballI impI)
  fix w assume "w < cap g" "w \<notin> dom own"
  with assms(2,4) show "same_rec g w b c'" by (auto simp: slots_inv_def intro: same_rec_trans)
next
  fix w assume w: "w \<in> dom own"
  then have "slot_view H g c' w = slot_view H g c w"
    using assms(3,4) by (intro same_rec_view [OF assms(1)]) auto
  with w assms(2) show "slot_view H g c' w \<noteq> SCorrupt" by (auto simp: slots_inv_def)
qed

lemma slots_inv_take:
  assumes "slots_inv H g b own c" "w < cap g" "w \<notin> dom own" "geom_ok g" "slot_view H g b w = SFree"
  shows "slots_inv H g b (own(w \<mapsto> x)) c"
proof -
  have "slot_view H g c w = slot_view H g b w"
    using assms by (intro same_rec_view) (auto simp: slots_inv_def)
  with assms(1,5) show ?thesis by (auto simp: slots_inv_def)
qed

text \<open>A store to a taken slot.\<close>

lemma slots_inv_store:
  assumes "geom_ok g" "slots_inv H g b own c" "w \<in> dom own" "dom own \<subseteq> {..<cap g}"
    and "agree_off (rec_region g w) c c'" "slot_view H g c' w \<noteq> SCorrupt"
  shows "slots_inv H g b own c'"
proof -
  have same: "same_rec g v c c'" if "v \<noteq> w" for v
    by (rule same_rec_agree [OF assms(5) rec_region_disjoint [OF that]])
  show ?thesis
    unfolding slots_inv_def
  proof (intro conjI allI ballI impI)
    fix v assume v: "v < cap g" "v \<notin> dom own"
    then have "same_rec g v c c'" using assms(3) by (intro same) blast
    with v assms(2) show "same_rec g v b c'" by (auto simp: slots_inv_def intro: same_rec_trans)
  next
    fix v assume v: "v \<in> dom own"
    show "slot_view H g c' v \<noteq> SCorrupt"
    proof (cases "v = w")
      case True
      with assms(6) show ?thesis by simp
    next
      case False
      with v assms(2) same_rec_view [OF assms(1) same [OF False], of H] show ?thesis
        by (auto simp: slots_inv_def)
    qed
  qed
qed

lemma adv_inv_cong:
  assumes "adv_inv g c adv" "get64 c' 32 = get64 c 32"
    and "\<And>w. w < cap g \<Longrightarrow> done_at g c' w \<Longrightarrow> done_at g c w"
  shows "adv_inv g c' adv"
  unfolding adv_inv_def
proof (intro allI impI)
  fix w assume w: "tail_at c' \<le> w" "w < cap g" "\<forall>v. tail_at c' \<le> v \<longrightarrow> v \<le> w \<longrightarrow> done_at g c' v"
  then have "\<forall>v. tail_at c \<le> v \<longrightarrow> v \<le> w \<longrightarrow> done_at g c v" using assms(2,3) by simp
  then show "\<exists>i q. adv i = Some q \<and> (\<forall>v. q = Some v \<longrightarrow> w < v)"
    using assms(1,2) w(1,2) by (simp add: adv_inv_def)
qed

text \<open>A scan stops at a slot it sees uncommitted.\<close>

lemma adv_inv_stop:
  assumes "adv_inv g c adv" "tail_inv g T c" "T \<le> x" "\<not> done_at g c x"
  shows "adv_inv g c (adv(i := Some (Some x)))"
  unfolding adv_inv_def
proof (intro allI impI)
  fix w assume w: "tail_at c \<le> w" "w < cap g" "\<forall>v. tail_at c \<le> v \<longrightarrow> v \<le> w \<longrightarrow> done_at g c v"
  have "\<not> x < tail_at c" using assms(2-4) by (auto simp: tail_inv_def)
  then have "w < x" using w(3) assms(4) by (meson not_le)
  moreover obtain j q where "adv j = Some q" "\<forall>v. q = Some v \<longrightarrow> w < v"
    using assms(1) w by (auto simp: adv_inv_def)
  ultimately show "\<exists>j q. (adv(i := Some (Some x))) j = Some q \<and> (\<forall>v. q = Some v \<longrightarrow> w < v)"
    by (cases "j = i") auto
qed

text \<open>A thread at the start of a round of its advance covers every slot.\<close>

lemma adv_inv_enter: "adv_inv g c (adv(i := Some None))"
  unfolding adv_inv_def by (intro allI impI exI [of _ i] exI [of _ None]) simp

text \<open>An advance ends when its scan stopped at or below the tail, or the log is full.\<close>

definition adv_over :: "pool_geometry \<Rightarrow> nat \<Rightarrow> ghost \<Rightarrow> bool" where
  "adv_over g i s \<longleftrightarrow> g_adv s i = None \<or> cap g \<le> tail_at (gc s) \<or>
     (\<exists>x. g_adv s i = Some (Some x) \<and> x \<le> tail_at (gc s))"

lemma adv_inv_leave:
  assumes "adv_inv g c adv"
    and "adv i = None \<or> cap g \<le> tail_at c \<or> (\<exists>x. adv i = Some (Some x) \<and> x \<le> tail_at c)"
  shows "adv_inv g c (adv(i := None))"
  unfolding adv_inv_def
proof (intro allI impI)
  fix w assume w: "tail_at c \<le> w" "w < cap g" "\<forall>v. tail_at c \<le> v \<longrightarrow> v \<le> w \<longrightarrow> done_at g c v"
  obtain j q where j: "adv j = Some q" "\<forall>v. q = Some v \<longrightarrow> w < v"
    using assms(1) w by (auto simp: adv_inv_def)
  with assms(2) w(1,2) have "j \<noteq> i" by auto
  with j show "\<exists>j q. (adv(i := None)) j = Some q \<and> (\<forall>v. q = Some v \<longrightarrow> w < v)" by auto
qed

text \<open>A successful compare-and-swap moves the tail to where the scan of the thread stopped.\<close>

lemma adv_inv_cas:
  assumes "adv_inv g c adv" "geom_ok g" "tail_at c \<le> unat n" "unat n \<le> cap g"
    and "\<And>v. tail_at c \<le> v \<Longrightarrow> v < unat n \<Longrightarrow> done_at g c v"
    and "unat n = cap g \<or> adv i = Some (Some (unat n))"
  shows "adv_inv g (put64 c 32 n) (adv(i := None))"
  unfolding adv_inv_def
proof (intro allI impI)
  have t: "tail_at (put64 c 32 n) = unat n" by simp
  have d: "done_at g (put64 c 32 n) v = done_at g c v" for v
    by (rule same_rec_done [OF assms(2) same_rec_header]) simp
  fix w assume w: "tail_at (put64 c 32 n) \<le> w" "w < cap g"
    "\<forall>v. tail_at (put64 c 32 n) \<le> v \<longrightarrow> v \<le> w \<longrightarrow> done_at g (put64 c 32 n) v"
  have nw: "unat n \<le> w" using w(1) unfolding t .
  have "done_at g c v" if "tail_at c \<le> v" "v \<le> w" for v
    using assms(5) [of v] w(3) [unfolded t d] that by (cases "v < unat n") (auto simp: not_less)
  then obtain j q where j: "adv j = Some q" "\<forall>v. q = Some v \<longrightarrow> w < v"
    using assms(1,3) nw w(2) unfolding adv_inv_def by (meson le_trans)
  have "j \<noteq> i" using j assms(6) nw w(2) by auto
  with j show "\<exists>j q. (adv(i := None)) j = Some q \<and> (\<forall>v. q = Some v \<longrightarrow> w < v)" by auto
qed

section \<open>Reservations\<close>

lemma reserve_inv_take:
  assumes "reserve_inv g K N r own undo" "r < cap g"
  shows "reserve_inv g K N (Suc r) (own(r \<mapsto> x)) undo" "dom own = {K..<r}" "K \<le> r"
proof -
  obtain e where e: "K \<le> e" "e \<le> cap g" "dom own = {K..<e}" "r = e + card undo"
    "undo \<noteq> {} \<longrightarrow> e = cap g" "undo \<subseteq> {..<N}"
    using assms(1) by (auto simp: reserve_inv_def)
  have "undo = {}" using e(4,5) assms(2) by auto
  with e assms(2) have d: "dom own = {K..<r}" "e = r" "K \<le> r" by simp_all
  then show "dom own = {K..<r}" "K \<le> r" by simp_all
  have "dom (own(r \<mapsto> x)) = {K..<Suc r}" using d by auto
  with \<open>undo = {}\<close> d(3) assms(2) show "reserve_inv g K N (Suc r) (own(r \<mapsto> x)) undo"
    by (auto simp: reserve_inv_def)
qed

lemma reserve_inv_beyond:
  assumes "reserve_inv g K N r own undo" "cap g \<le> r" "i \<notin> undo" "i < N"
  shows "reserve_inv g K N (Suc r) own (insert i undo)" "dom own = {K..<cap g}"
proof -
  obtain e where e: "K \<le> e" "e \<le> cap g" "dom own = {K..<e}" "r = e + card undo"
    "undo \<noteq> {} \<longrightarrow> e = cap g" "undo \<subseteq> {..<N}"
    using assms(1) by (auto simp: reserve_inv_def)
  then have "e = cap g" using assms(2) by (cases "undo = {}") auto
  moreover have "finite undo" using e(6) finite_subset by blast
  ultimately show "reserve_inv g K N (Suc r) own (insert i undo)" "dom own = {K..<cap g}"
    using e assms(3,4) by (auto simp: reserve_inv_def)
qed

lemma reserve_inv_back:
  assumes "reserve_inv g K N r own undo" "i \<in> undo"
  shows "reserve_inv g K N (r - 1) own (undo - {i})" "0 < r"
proof -
  obtain e where e: "K \<le> e" "e \<le> cap g" "dom own = {K..<e}" "r = e + card undo"
    "undo \<noteq> {} \<longrightarrow> e = cap g" "undo \<subseteq> {..<N}"
    using assms(1) by (auto simp: reserve_inv_def)
  have f: "finite undo" using e(6) finite_subset by blast
  then have "0 < card undo" using assms(2) card_gt_0_iff by blast
  moreover have "card (undo - {i}) = card undo - 1" using f assms(2) by simp
  ultimately show "reserve_inv g K N (r - 1) own (undo - {i})" "0 < r"
    using e assms(2) by (auto simp: reserve_inv_def)
qed

lemma reserve_inv_bound:
  assumes "reserve_inv g K N r own undo" "N \<le> 2 ^ 32"
  shows "r < 2 ^ 34" "dom own \<subseteq> {..<cap g}"
proof -
  obtain e where e: "e \<le> cap g" "dom own = {K..<e}" "r = e + card undo" "undo \<subseteq> {..<N}"
    using assms(1) by (auto simp: reserve_inv_def)
  have "card undo \<le> N" using card_mono [OF finite_lessThan e(4)] by simp
  then show "r < 2 ^ 34" using e(1,3) assms(2) unat_u32_le [of "g_capacity g"] by simp
  show "dom own \<subseteq> {..<cap g}" using e by auto
qed

end
