(* ===== verification/ConcRace.thy ===== *)
theory ConcRace
  imports ConcState
begin

text \<open>
  A recovery that runs while another host appends. The recovery loads a record's state, sees
  WRITING, and stores ABANDONED; between the two calls the appender can finish.
\<close>

section \<open>Schedules from runs of one thread\<close>

lemma prog_bind_assoc: "prog_bind (prog_bind p f) h = prog_bind p (\<lambda>x. prog_bind (f x) h)"
  by (induction p) simp_all

lemma steps_bind: "steps p m q m' \<Longrightarrow> steps (prog_bind p f) m (prog_bind q f) m'"
proof (induction rule: steps.induct)
  case (st_step p m p1 m1 q m')
  then have "\<forall>x. p \<noteq> Ret x" by auto
  then have "step (prog_bind p f) m = Some (Inr (prog_bind p1 f, m1))"
    unfolding step_bind [OF \<open>\<forall>x. p \<noteq> Ret x\<close>] st_step.hyps(1) by simp
  then show ?case by (rule steps.st_step) (rule st_step.IH)
qed (rule steps.st_refl)

lemma steps_trans: "steps p m q n \<Longrightarrow> steps q n r m' \<Longrightarrow> steps p m r m'"
  by (induction rule: steps.induct) (auto intro: st_step)

lemma run_rest:
  assumes "run p m = Inr (x, m')" "step p m = Some (Inr (q, n))"
  shows "steps q n (Ret x) m'"
  using assms by (subst (asm) run_step) (simp add: run_steps)

text \<open>Two threads: either of them runs for a while.\<close>

lemma par_left: "steps p m q m' \<Longrightarrow> par_reach ps0 m0 [p, r] m \<Longrightarrow> par_reach ps0 m0 [q, r] m'"
proof (induction rule: steps.induct)
  case (st_step p m p1 m1 q m')
  have "par_reach ps0 m0 ([p, r][0 := p1]) m1"
    by (rule par_thread [OF st_step.prems]) (use st_step.hyps in simp_all)
  then show ?case using st_step.IH by simp
qed

lemma par_right: "steps p m q m' \<Longrightarrow> par_reach ps0 m0 [r, p] m \<Longrightarrow> par_reach ps0 m0 [r, q] m'"
proof (induction rule: steps.induct)
  case (st_step p m p1 m1 q m')
  have "par_reach ps0 m0 ([r, p][1 := p1]) m1"
    by (rule par_thread [OF st_step.prems]) (use st_step.hyps in simp_all)
  then show ?case using st_step.IH by simp
qed

section \<open>The scan, up to the slot in question\<close>

lemma recover_scan_append:
  "recover_scan H g (xs @ ys) c = prog_bind (recover_scan H g xs c) (recover_scan H g ys)"
proof (induction xs arbitrary: c)
  case (Cons x xs)
  have "recover_scan H g (xs @ ys) = (\<lambda>c. prog_bind (recover_scan H g xs c) (recover_scan H g ys))"
    by (rule ext) (rule Cons.IH)
  then show ?case by (simp add: prog_bind_assoc)
qed simp

lemma settled_slot:
  assumes "settled g L" "s < unat (l_tail L)" "s < cap g"
  shows "\<not> broken (l_slots L ! s)"
proof -
  have "log_inv g L" using assms(1) by (simp add: settled_def)
  from log_invD(4) [OF this assms(3)] assms(2) show ?thesis by (cases "l_slots L ! s") auto
qed

lemma sweep_settled:
  assumes "settled g L" "length (l_slots L) = cap g" "n \<le> unat (l_tail L)" "n \<le> cap g"
  shows "sweep fix_slot n (l_slots L) = l_slots L"
  by (rule nth_equalityI) (use assms settled_slot [OF assms(1)] in \<open>auto simp: nth_sweep fix_slot_def\<close>)

text \<open>What the recovery does to the slot after it has seen WRITING, and the rest of it.\<close>

definition late_recovery :: "pool_geometry \<Rightarrow> fence_runtime \<Rightarrow> u32 \<Rightarrow> u64 \<Rightarrow> recovery_report prog" where
  "late_recovery g rt slot limit =
     StoreU8 (record_offset g slot) STATE_ABANDONED Release (
     Flush (record_offset g slot) CACHELINE (
     prog_bind (advance_committed_tail g) (\<lambda>t.
     prog_bind (increment_recovery_runs g (rt_host_id rt)) (\<lambda>_.
     prog_bind (increment_abandoned_found g (rt_host_id rt) 1) (\<lambda>_.
     Ret \<lparr>rr_abandoned_count = 1, rr_committed_tail = t, rr_slots_scanned = limit\<rparr>)))))"

lemma sim_late_recovery:
  assumes "pool g m" "unat (rt_host_id rt) < hosts g" "unat slot < cap g" "abs_log H g (cache m) = L"
  shows "\<exists>rep. sim H g m (late_recovery g rt slot limit)
    (rep, bump (rt_host_id rt) 6 1 (bump (rt_host_id rt) 5 1
       (advance_spec (L\<lparr>l_slots := (l_slots L)[unat slot := SAbandoned]\<rparr>))))"
  unfolding late_recovery_def
  by (rule exI, rule sim_abandon [OF assms(1,3,4)], rule sim_bind [OF sim_advance], assumption, assumption,
      rule sim_bind [OF sim_increments(6) [OF _ assms(2)]], assumption, assumption,
      rule sim_bind [OF sim_increments(7) [OF _ assms(2)]], assumption, assumption, rule sim_Ret)

section \<open>The schedule\<close>

lemma append_reserves:
  assumes "pool g m" "rt_geometry rt = g" "length d \<le> psz g" "unat (get64 (cache m) 40) < cap g"
  shows "step (append H rt t d) m = Some (Inr (append_record H rt t d (get64 (cache m) 40),
    m\<lparr>cache := put64 (cache m) 40 (get64 (cache m) 40 + 1)\<rparr>))"
proof -
  have "\<not> ucast (g_capacity g) \<le> get64 (cache m) 40" using assms(4) by (simp add: not_le word_less_nat_alt)
  moreover have "40 + 8 \<le> unat (mm_len m)" "mapped m"
    using pool_header_bounds [OF assms(1)] poolD [OF assms(1)] by simp_all
  ultimately show ?thesis using assms(2,3) by (simp add: append_def Let_def mb_defs)
qed

lemma append_marks:
  assumes "pool g m" "rt_geometry rt = g" "unat slot < cap g"
  obtains q where "step (append_record H rt t d slot) m =
    Some (Inr (q, m\<lparr>cache := (cache m)(rec_base g (unat slot) := STATE_WRITING)\<rparr>))"
  using pool_slot_bounds [OF assms(1,3)] poolD [OF assms(1)] assms(2) slot_arith(1) [OF assms(1,3)]
  by (simp add: append_record_def Let_def mb_defs unat_record_offset)

lemma recovery_sees:
  assumes "pool g m" "unat slot < cap g" "cache m (rec_base g (unat slot)) = STATE_WRITING"
  shows "step (recover_slot H g slot c) m = Some (Inr (StoreU8 (record_offset g slot) STATE_ABANDONED Release (
    Flush (record_offset g slot) CACHELINE (Ret (c + 1))), m))"
  using pool_slot_bounds [OF assms(1,2)] poolD [OF assms(1)] assms(3)
  by (simp add: recover_slot_def Let_def mb_defs unat_record_offset)

text \<open>The recovery, from its start to the call that loads the state of the last slot.\<close>

lemma recovery_prefix:
  assumes "pool g m" "abs_log H g (cache m) = L" "unat r < cap g" "get64 (cache m) 40 = r + 1"
    and "\<And>s. s < unat r \<Longrightarrow> \<not> broken (l_slots L ! s)" "rt_geometry rt = g"
  obtains n where "pool g n" "abs_log H g (cache n) = L" "same_map m n"
    "steps (runtime_recover H rt) m (prog_bind (recover_slot H g (ucast r) 0) (\<lambda>ac.
       prog_bind (advance_committed_tail g) (\<lambda>t.
       prog_bind (increment_recovery_runs g (rt_host_id rt)) (\<lambda>_.
       if ac > 0 then
         prog_bind (increment_abandoned_found g (rt_host_id rt) ac) (\<lambda>_.
         Ret \<lparr>rr_abandoned_count = ac, rr_committed_tail = t, rr_slots_scanned = r + 1\<rparr>)
       else Ret \<lparr>rr_abandoned_count = ac, rr_committed_tail = t, rr_slots_scanned = r + 1\<rparr>)))) n"
proof -
  have r1: "unat (r + 1) = Suc (unat r)"
    using assms(3) unat_u32_le [of "g_capacity g"] by (subst unat_add_lt64) simp_all
  have r32: "unat (ucast r :: u32) = unat r" "unat (ucast (r + 1) :: u32) = Suc (unat r)"
    using assms(3) r1 unat_u32_le [of "g_capacity g"] unat_u32_lt [of "g_capacity g"]
    by (subst unat_ucast_u64_u32; linarith)+
  have min: "min (r + 1) (ucast (g_capacity g)) = r + 1"
    using assms(3) r1 by (simp add: min_def word_le_nat_alt)
  have "word_of_nat (unat r) = (ucast r :: u32)" unfolding r32(1) [symmetric] by simp
  then have range: "word_range 0 (ucast (r + 1) :: u32) = word_range 0 (ucast r) @ [ucast r]"
    unfolding word_range_def r32 by simp
  have le: "unat r \<le> cap g" using assms(3) by simp
  note ps = prefix_slots [OF le]
  have len: "length (l_slots L) = cap g" using assms(2) by (rule pool_slots_length)
  have "sweep fix_slot (unat r) (l_slots L) = l_slots L"
    by (rule nth_equalityI) (use assms(5) len le in \<open>auto simp: nth_sweep fix_slot_def\<close>)
  moreover have "filter (\<lambda>s. broken (l_slots L ! s)) [0..<unat r] = []"
    using assms(5) by (simp add: filter_empty_conv)
  ultimately have "sim H g m (recover_scan H g (word_range 0 (ucast r)) 0) (0, L)"
    using sim_recover_scan [OF assms(1,2) _ ps(2), of 0] by (simp add: ps(1) update_at_upt)
  then obtain n where n: "run (recover_scan H g (word_range 0 (ucast r)) 0) m = Inr (0, n)"
    "pool g n" "abs_log H g (cache n) = L" "same_map m n"
    by (auto simp: sim_def)
  let ?K = "\<lambda>ac. prog_bind (advance_committed_tail g) (\<lambda>t.
      Ret \<lparr>rr_abandoned_count = ac, rr_committed_tail = t, rr_slots_scanned = r + 1\<rparr>)"
  have load: "step (recover H g) m =
      Some (Inr (prog_bind (recover_scan H g (word_range 0 (ucast r) @ [ucast r]) 0) ?K, m))"
    using pool_header_bounds [OF assms(1)] poolD [OF assms(1)] assms(4)
    by (simp add: recover_def Let_def mb_defs min range)
  have "steps (recover H g) m (prog_bind (prog_bind (Ret 0) (recover_scan H g [ucast r])) ?K) n"
    by (rule st_step [OF load], unfold recover_scan_append,
        rule steps_bind [OF steps_bind [OF run_steps [OF n(1)]]])
  then have "steps (recover H g) m (prog_bind (recover_slot H g (ucast r) 0) ?K) n"
    by (simp add: prog_bind_assoc)
  note st = steps_bind [OF this, of "\<lambda>report.
      prog_bind (increment_recovery_runs g (rt_host_id rt)) (\<lambda>_.
      if rr_abandoned_count report > 0 then
        prog_bind (increment_abandoned_found g (rt_host_id rt) (rr_abandoned_count report)) (\<lambda>_. Ret report)
      else Ret report)"]
  show thesis
    by (rule that [OF n(2-4)])
      (use st in \<open>simp add: runtime_recover_def assms(6) prog_bind_assoc cong: if_cong\<close>)
qed

lemma abandoned_end:
  assumes "settled g L" "length (l_slots L) = cap g" "unat (l_tail L) = Suc s" "s < cap g"
  shows "tail_spec (L\<lparr>l_slots := (l_slots L)[s := SAbandoned]\<rparr>) = l_tail L"
proof -
  let ?xs = "drop (Suc s) (l_slots L)"
  have "takeWhile committed_state ?xs = []"
  proof (cases ?xs)
    case (Cons x xs)
    then have lt: "Suc s < cap g" using assms(2) by (metis drop_all list.distinct(1) not_less)
    have "x = l_slots L ! Suc s" using Cons assms(2) lt by (metis Cons_nth_drop_Suc list.inject)
    also have "\<dots> = SFree" using settled_free [OF assms(1), of "Suc s"] assms(3) lt by simp
    finally show ?thesis using Cons by simp
  qed simp
  then show ?thesis unfolding tail_spec_def using assms(3) by simp
qed

lemma recovery_abandons_append:
  assumes "pool g m" "settled g (abs_log H g (cache m))" "unat h0 < hosts g" "unat h1 < hosts g"
    and "length d \<le> psz g" "tail_at (cache m) < cap g"
    and r: "r = get64 (cache m) 40"
  obtains rep m' where "par_reach (map (session H g) [[(h0, OpAppend t d)], [(h1, OpRecover)]]) m
      (map Ret [[RAppend (Inr (r + 1))], [RRecover rep]]) m'" "pool g m'"
    "tail_at (cache m') = unat r + 1" "l_slots (abs_log H g (cache m')) =
      (l_slots (abs_log H g (cache m)))[unat r := SAbandoned]"
proof -
  let ?L = "abs_log H g (cache m)" and ?rt0 = "\<lparr>rt_geometry = g, rt_host_id = h0\<rparr>"
    and ?rt1 = "\<lparr>rt_geometry = g, rt_host_id = h1\<rparr>" and ?L1 = "log_add g (h0, t, d) (abs_log H g (cache m))"
  have eq: "get64 (cache m) 32 = r" using assms(2) r by (simp add: settled_def)
  have rc: "unat r < cap g" "unat (l_tail ?L) < cap g" "unat (l_tail ?L) = unat r" using assms(6) eq by simp_all
  note app = settled_append(1,2) [OF assms(2,5) rc(2), of h0 t]
  note suc = settled_append(3) [OF assms(2,5) rc(2)]
  have len: "length (l_slots ?L) = cap g" by simp
  text \<open>The appender reserves its slot, and the recovery scans all slots before it.\<close>
  let ?ma = "m\<lparr>cache := put64 (cache m) 40 (r + 1)\<rparr>"
  have pa: "pool g ?ma" using assms(1) by (auto simp: pool_def mapped_def)
  have La: "abs_log H g (cache ?ma) = ?L\<lparr>l_reserve := r + 1\<rparr>"
    using abs_log_reserve [OF poolD(1) [OF assms(1)]] by simp
  have whole: "\<not> broken (l_slots (?L\<lparr>l_reserve := r + 1\<rparr>) ! s)" if "s < unat r" for s
    using settled_slot [OF assms(2), of s] that rc by simp
  let ?R = "\<lambda>ac. prog_bind (advance_committed_tail g) (\<lambda>t.
       prog_bind (increment_recovery_runs g (rt_host_id ?rt1)) (\<lambda>_.
       if ac > 0 then
         prog_bind (increment_abandoned_found g (rt_host_id ?rt1) ac) (\<lambda>_.
         Ret \<lparr>rr_abandoned_count = ac, rr_committed_tail = t, rr_slots_scanned = r + 1\<rparr>)
       else Ret \<lparr>rr_abandoned_count = ac, rr_committed_tail = t, rr_slots_scanned = r + 1\<rparr>))"
  obtain n where n: "pool g n" "abs_log H g (cache n) = ?L\<lparr>l_reserve := r + 1\<rparr>"
    "steps (runtime_recover H ?rt1) ?ma (prog_bind (recover_slot H g (ucast r) 0) ?R) n"
    by (rule recovery_prefix [OF pa La rc(1) _ whole, of ?rt1]) simp_all
  text \<open>The slot is marked, the recovery sees it, and the appender finishes.\<close>
  have r32: "unat (ucast r :: u32) = unat r" by (rule slot_arith(1) [OF assms(1) rc(1)])
  obtain q where q: "step (append_record H ?rt0 t d r) n =
      Some (Inr (q, n\<lparr>cache := (cache n)(rec_base g (unat r) := STATE_WRITING)\<rparr>))"
    by (rule append_marks [OF n(1) _ rc(1), of ?rt0 H t d]) simp_all
  let ?n1 = "n\<lparr>cache := (cache n)(rec_base g (unat r) := STATE_WRITING)\<rparr>"
  have "pool g ?n1" using n(1) by (auto simp: pool_def mapped_def)
  then have see: "step (recover_slot H g (ucast r) 0) ?n1 =
      Some (Inr (StoreU8 (record_offset g (ucast r)) STATE_ABANDONED Release (
        Flush (record_offset g (ucast r)) CACHELINE (Ret (0 + 1))), ?n1))"
    by (rule recovery_sees) (use rc(1) r32 in simp_all)
  have "append_spec g h0 t d ?L = (Inr (r + 1), bump h0 2 (word_of_nat (length d)) (bump h0 0 1 (advance_spec
      (?L\<lparr>l_reserve := r + 1, l_slots := (l_slots ?L)[unat r := SCommitted
        \<lparr>r_index = r + 1, r_term = t, r_writer_id = ucast h0, r_data = d\<rparr>]\<rparr>))))"
    using assms(5) rc by (simp add: append_spec_def Let_def log_update_swap r [symmetric])
  then have "sim H g n (append_record H ?rt0 t d r) (Inr (r + 1), ?L1)"
    using sim_append_record [OF n(1) _ rc(1) assms(5) _ n(2), of ?rt0 t] assms(3) by simp
  then obtain mc where mc: "run (append_record H ?rt0 t d r) n = Inr (Inr (r + 1), mc)" "pool g mc"
    "abs_log H g (cache mc) = ?L1"
    by (auto simp: sim_def)
  have sL1: "settled g ?L1" and tL1: "l_tail ?L1 = r + 1"
    and slL1: "l_slots ?L1 = (l_slots ?L)[unat r := SCommitted (entry_record (h0, t, d) (unat r))]"
    using app rc(3) eq by simp_all
  have r1: "unat (r + 1) = Suc (unat r)" using suc eq by simp
  text \<open>The recovery goes on.\<close>
  obtain rep L' where late: "sim H g mc (late_recovery g ?rt1 (ucast r) (r + 1)) (rep, L')"
    "L' = bump h1 6 1 (bump h1 5 1 (advance_spec (?L1\<lparr>l_slots := (l_slots ?L1)[unat r := SAbandoned]\<rparr>)))"
    using sim_late_recovery [OF mc(2) _ _ mc(3), of ?rt1 "ucast r" "r + 1"] assms(4) rc(1) r32 by auto
  obtain m' where m': "run (late_recovery g ?rt1 (ucast r) (r + 1)) mc = Inr (rep, m')" "pool g m'"
    "abs_log H g (cache m') = L'"
    using late(1) by (auto simp: sim_def)
  have "l_tail L' = r + 1"
    using abandoned_end [OF sL1, of "unat r"] rc r1 tL1 slL1 by (simp add: late(2) advance_spec_def del: log_add.simps)
  then have "get64 (cache m') 32 = r + 1" using m'(3) by (metis abs_log_sel(3))
  then have tail: "tail_at (cache m') = unat r + 1" using r1 by simp
  have slots: "l_slots (abs_log H g (cache m')) = (l_slots ?L)[unat r := SAbandoned]"
    unfolding m'(3) late(2) by (simp add: slL1 advance_spec_def del: log_add.simps)
  let ?A = "\<lambda>r. Ret [RAppend r]" and ?B = "\<lambda>r. Ret [RRecover r]"
  let ?ps = "map (session H g) [[(h0, OpAppend t d)], [(h1, OpRecover)]]"
  have ps: "?ps = [prog_bind (append H ?rt0 t d) ?A, prog_bind (runtime_recover H ?rt1) ?B]"
    by (simp add: prog_bind_assoc)
  have "par_reach ?ps m [prog_bind (append_record H ?rt0 t d r) ?A, prog_bind (runtime_recover H ?rt1) ?B] ?ma"
    unfolding ps
    by (rule par_left [OF steps_bind [OF st_step [OF _ st_refl]] par_refl])
      (use append_reserves [OF assms(1) _ assms(5), of ?rt0 H t] rc(1) r in simp)
  from par_right [OF steps_bind [OF n(3)] this]
  have "par_reach ?ps m [prog_bind (append_record H ?rt0 t d r) ?A,
      prog_bind (prog_bind (recover_slot H g (ucast r) 0) ?R) ?B] n" .
  from par_left [OF steps_bind [OF st_step [OF q st_refl]] this]
  have "par_reach ?ps m [prog_bind q ?A, prog_bind (prog_bind (recover_slot H g (ucast r) 0) ?R) ?B] ?n1" .
  from par_right [OF steps_bind [OF steps_bind [OF st_step [OF see st_refl]]] this]
  have "par_reach ?ps m [prog_bind q ?A, prog_bind (late_recovery g ?rt1 (ucast r) (r + 1)) ?B] ?n1"
    by (simp add: late_recovery_def prog_bind_assoc)
  from par_left [OF steps_bind [OF run_rest [OF mc(1) q]] this]
  have "par_reach ?ps m [prog_bind (Ret (Inr (r + 1))) ?A,
      prog_bind (late_recovery g ?rt1 (ucast r) (r + 1)) ?B] mc" .
  from par_right [OF steps_bind [OF run_steps [OF m'(1)]] this]
  have "par_reach ?ps m (map Ret [[RAppend (Inr (r + 1))], [RRecover rep]]) m'" by simp
  then show thesis using m'(2) tail slots by (rule that)
qed

end
