(* ===== verification/AllocRace.thy ===== *)
theory AllocRace
  imports AllocProps ConcRace
begin

text \<open>
  Two hosts that create a region at the same time. \<open>create_region\<close> looks for a free entry and
  for free space, and writes later; nothing reserves the entry in between.
\<close>

section \<open>The calls up to the first store\<close>

lemma steps_reading:
  assumes "run p m = Inr (x, m)"
  shows "steps (prog_bind p f) m (f x) m"
  using steps_bind [OF run_steps [OF assms], of f] by simp

lemma cat_header_step:
  assumes "cat_region base m"
  shows "step (LoadU64 (base + 24) Relaxed k) m = Some (Inr (k (get64 (cache m) (unat base + 24)), m))"
  using cat_regionD(2) [OF assms] base_mod(1) [OF assms, of 24] unat_header_offset [OF assms, of 24] assms
  by (simp add: mb_defs cat_region_def)

lemma create_spec_ok:
  assumes "create_spec ra name sz K = (Inr h, K')"
  shows "length name \<le> 24" "find_spec name K = Inl (NotFound name)" "free_slot_spec K = Some (rh_slot h)"
    "\<not> next_offset_spec K + sz > ra_base ra + ra_pool_size ra"
    "h = \<lparr>rh_slot = rh_slot h, rh_name = name, rh_offset = next_offset_spec K, rh_size = sz\<rparr>"
proof -
  have "find_spec name K = Inl e \<Longrightarrow> e = NotFound name" for e
    by (auto simp: find_spec_def split: option.splits)
  then show "length name \<le> 24" "find_spec name K = Inl (NotFound name)" "free_slot_spec K = Some (rh_slot h)"
    "\<not> next_offset_spec K + sz > ra_base ra + ra_pool_size ra"
    "h = \<lparr>rh_slot = rh_slot h, rh_name = name, rh_offset = next_offset_spec K, rh_size = sz\<rparr>"
    using assms by (auto simp: create_spec_def Let_def split: if_splits sum.splits option.splits)
qed

lemma create_reads:
  assumes "cat_region (ra_base ra) m" "abs_catalog (ra_base ra) (cache m) = K"
    and "create_spec ra name sz K = (Inr h, K')"
  shows "steps (create_region ra name sz) m (commit_region ra (rh_slot h) name (rh_offset h) sz) m"
proof -
  note C = create_spec_ok [OF assms(3)]
  let ?off = "next_offset_spec K" and ?pe = "ra_base ra + ra_pool_size ra"
  let ?last = "\<lambda>off. if off + sz > ?pe then Ret (Inl (OutOfSpace sz (if off \<le> ?pe then ?pe - off else 0)))
      else commit_region ra (rh_slot h) name off sz"
  let ?load = "LoadU64 (ra_base ra + 24) Relaxed (\<lambda>d. prog_bind (next_free_offset ra d) ?last)"
  let ?slot = "\<lambda>s. case s of None \<Rightarrow> Ret (Inl CatalogFull) | Some i \<Rightarrow>
      LoadU64 (ra_base ra + 24) Relaxed (\<lambda>d. prog_bind (next_free_offset ra d) (\<lambda>off.
        if off + sz > ?pe then Ret (Inl (OutOfSpace sz (if off \<le> ?pe then ?pe - off else 0)))
        else commit_region ra i name off sz))"
  let ?found = "\<lambda>f. case f of Inr _ \<Rightarrow> Ret (Inl (NameExists name)) | Inl _ \<Rightarrow> prog_bind (find_free_slot ra) ?slot"
  have prog: "create_region ra name sz = prog_bind (find_region ra name) ?found"
    using C(1) by (simp add: create_region_def Let_def)
  have "steps (create_region ra name sz) m (prog_bind (find_free_slot ra) ?slot) m"
    unfolding prog
    using steps_reading [OF run_find_region [OF assms(1), of name], of ?found] by (simp add: assms(2) C(2))
  moreover have "steps (prog_bind (find_free_slot ra) ?slot) m ?load m"
    using steps_reading [OF run_find_free_slot [OF assms(1)], of ?slot] by (simp add: assms(2) C(3))
  moreover have "steps ?load m (prog_bind (next_free_offset ra (get64 (cache m) (unat (ra_base ra) + 24))) ?last) m"
    by (rule st_step [OF cat_header_step [OF assms(1)] st_refl])
  moreover have "steps (prog_bind (next_free_offset ra (get64 (cache m) (unat (ra_base ra) + 24))) ?last) m (?last ?off) m"
    using steps_reading [OF run_next_free_offset [OF assms(1)], of ?last] by (simp only: assms(2))
  ultimately have "steps (create_region ra name sz) m (?last ?off) m" by (blast intro: steps_trans)
  moreover have "rh_offset h = ?off" by (subst C(5)) simp
  ultimately show ?thesis using C(4) by (simp only: if_False)
qed

section \<open>One entry for two regions\<close>

text \<open>A catalog whose free entry \<open>i\<close> was overwritten: only the last name is found.\<close>

lemma find_overwritten:
  assumes "length (c_entries K) = 256" "unat i < 256" "c_entries K' = (c_entries K)[unat i := new_entry name off sz]"
    and "find_spec name K = Inl (NotFound name)"
  shows "find_spec name K' = Inr \<lparr>rh_slot = i, rh_name = name, rh_offset = off, rh_size = sz\<rparr>"
    "other \<noteq> name \<Longrightarrow> find_spec other K = Inl (NotFound other) \<Longrightarrow> find_spec other K' = Inl (NotFound other)"
proof -
  have at: "entry_at K' j = (if j = i then new_entry name off sz else entry_at K j)" if "unat j < 256" for j
    using that assms(1-3) by (auto simp: entry_at_def word_unat_eq_iff)
  have none: "\<not> named n (entry_at K j)" if "find_spec n K = Inl (NotFound n)" "unat j < 256" for n j
    using find_spec_none [OF that(1), of "unat j"] that(2) by (auto simp: named_def entry_at_def)
  have "find (\<lambda>j. named name (entry_at K' j)) slots = Some i"
    by (rule find_some_unique)
      (use at slots_bound none [OF assms(4)] in_slots [OF assms(2)] assms(2) in \<open>auto simp: named_def new_entry_def split: if_splits\<close>)
  then show "find_spec name K' = Inr \<lparr>rh_slot = i, rh_name = name, rh_offset = off, rh_size = sz\<rparr>"
    using at [OF assms(2)] by (simp add: find_spec_def handle_of_def new_entry_def)
  assume o: "other \<noteq> name" "find_spec other K = Inl (NotFound other)"
  have "\<not> named other (entry_at K' j)" if "j \<in> set slots" for j
    using at [OF slots_bound [OF that]] none [OF o(2) slots_bound [OF that]] o(1)
    by (simp add: named_def new_entry_def)
  then have "find (\<lambda>j. named other (entry_at K' j)) slots = None" by (simp add: find_None_iff)
  then show "find_spec other K' = Inl (NotFound other)" by (simp add: find_spec_def)
qed

text \<open>
  C17: two hosts create regions with different names at the same time, on any reachable allocator
  on which either call alone would succeed. There is a schedule in which both calls return a
  handle, with the same catalog entry and the same offset, and afterwards only one of the two
  regions can be found: the other one was acknowledged and is gone, and its bytes belong to
  the first.
\<close>
theorem concurrent_creates_collide:
  assumes "alloc_reach ra m" "utf8_valid n1" "n1 \<noteq> n2"
    and "run (create_region ra n1 s1) m = Inr (Inr h1, m1)" "run (create_region ra n2 s2) m = Inr (Inr h2, m2)"
  shows "\<exists>m'. par_reach [create_region ra n1 s1, create_region ra n2 s2] m [Ret (Inr h1), Ret (Inr h2)] m' \<and>
    rh_slot h1 = rh_slot h2 \<and> rh_offset h1 = rh_offset h2 \<and>
    run (find_region ra n1) m' = Inr (Inr h1, m') \<and>
    run (find_region ra n2) m' = Inr (Inl (NotFound n2), m')"
proof -
  let ?B = "ra_base ra" and ?p = "create_region ra n1 s1" and ?q = "create_region ra n2 s2"
  define K where "K = abs_catalog ?B (cache m)"
  have region: "cat_region ?B m" "length (c_entries K) = 256"
    using alloc_reach_inv [OF assms(1)] by (simp_all add: K_def)
  have c1: "create_spec ra n1 s1 K = (Inr h1, abs_catalog ?B (cache m1))"
    using asim_result [OF asim_create_region [OF region(1) K_def [symmetric]] assms(4)] by (simp add: prod_eq_iff)
  have c2: "create_spec ra n2 s2 K = (Inr h2, abs_catalog ?B (cache m2))" and r2: "cat_region ?B m2"
    using asim_result [OF asim_create_region [OF region(1) K_def [symmetric]] assms(5)] by (simp_all add: prod_eq_iff)
  note 1 = create_spec_ok [OF c1] and 2 = create_spec_ok [OF c2]
  have same: "rh_slot h1 = rh_slot h2" "rh_offset h1 = rh_offset h2"
    using 1(3,5) 2(3,5) by (metis option.inject, metis region_handle.select_convs(3))
  note slot = free_slot_bound [OF 1(3), THEN conjunct1]
  let ?e2 = "\<lparr>ce_state = Active, ce_name = stored_name n2, ce_offset = next_offset_spec K, ce_size = s2, ce_epoch = 0\<rparr>"
  have "abs_catalog ?B (cache m2) = (set_entry (rh_slot h1) ?e2 K)\<lparr>c_count := c_count K + 1\<rparr>"
    using c2 2(1-4) same(1) by (auto simp: create_spec_def Let_def)
  then have K2: "c_entries (abs_catalog ?B (cache m2)) = (c_entries K)[unat (rh_slot h1) := ?e2]"
    by (simp del: abs_catalog_sel add: set_entry_def)
  from asim_commit_region [OF r2 slot refl, of n1 "rh_offset h1" s1] obtain m' where
    m': "run (commit_region ra (rh_slot h1) n1 (rh_offset h1) s1) m2 =
        Inr (Inr \<lparr>rh_slot = rh_slot h1, rh_name = n1, rh_offset = rh_offset h1, rh_size = s1\<rparr>, m')"
      "cat_region ?B m'" "abs_catalog ?B (cache m') = (set_entry (rh_slot h1) \<lparr>ce_state = Active,
         ce_name = stored_name n1, ce_offset = rh_offset h1, ce_size = s1, ce_epoch = 0\<rparr> (abs_catalog ?B (cache m2)))
         \<lparr>c_count := c_count (abs_catalog ?B (cache m2)) + 1\<rparr>"
    by (auto simp: refines_def)
  have h1: "\<lparr>rh_slot = rh_slot h1, rh_name = n1, rh_offset = rh_offset h1, rh_size = s1\<rparr> = h1"
    using 1(5) by (metis region_handle.select_convs(3))
  have "c_entries (abs_catalog ?B (cache m')) = (c_entries K)[unat (rh_slot h1) := new_entry n1 (rh_offset h1) s1]"
    using stored_name_valid [OF assms(2) 1(1)] by (simp add: m'(3) set_entry_def K2 new_entry_def del: abs_catalog_sel)
  from find_overwritten [OF region(2) slot this 1(2)] assms(3) 2(2)
  have find: "find_spec n1 (abs_catalog ?B (cache m')) = Inr h1" "find_spec n2 (abs_catalog ?B (cache m')) = Inl (NotFound n2)"
    by (simp_all add: h1)
  have "par_reach [?p, ?q] m [commit_region ra (rh_slot h1) n1 (rh_offset h1) s1, ?q] m"
    by (rule par_left [OF create_reads [OF region(1) K_def [symmetric] c1] par_refl])
  then have "par_reach [?p, ?q] m [commit_region ra (rh_slot h1) n1 (rh_offset h1) s1, Ret (Inr h2)] m2"
    by (rule par_right [OF run_steps [OF assms(5)]])
  then have "par_reach [?p, ?q] m [Ret (Inr h1), Ret (Inr h2)] m'"
    by (rule par_left [OF run_steps [OF m'(1) [unfolded h1]]])
  then show ?thesis using same find by (auto simp: run_find_region [OF m'(2)])
qed

theorem concurrent_creates_collide_witness:
  "\<exists>m h1 h2 m'. par_reach [create_region demo_alloc [97] 100, create_region demo_alloc [98] 200] m
      [Ret (Inr h1), Ret (Inr h2)] m' \<and>
    rh_offset h1 = 16448 \<and> rh_offset h2 = 16448 \<and>
    run (find_region demo_alloc [98]) m' = Inr (Inl (NotFound [98]), m')"
proof -
  from demo_create obtain m m1 where m: "alloc_reach demo_alloc m" "abs_catalog 0 (cache m) = demo_catalog"
    "run (create_region demo_alloc [97] 100) m =
      Inr (Inr \<lparr>rh_slot = 0, rh_name = [97], rh_offset = 16448, rh_size = 100\<rparr>, m1)" by blast
  have "fst (create_spec demo_alloc [98] 200 demo_catalog) =
      Inr \<lparr>rh_slot = 0, rh_name = [98], rh_offset = 16448, rh_size = 200\<rparr>"
    by (simp add: create_spec_def demo_find demo_slot demo_next Let_def demo_alloc_def)
  moreover have "cat_region 0 m" using alloc_reach_inv [OF m(1)] by simp
  ultimately obtain m2 where m2: "run (create_region demo_alloc [98] 200) m =
      Inr (Inr \<lparr>rh_slot = 0, rh_name = [98], rh_offset = 16448, rh_size = 200\<rparr>, m2)"
    using asim_create_region [of demo_alloc m demo_catalog "[98]" 200] m(2) by (auto simp: refines_def)
  have "utf8_valid [97]" by (rule utf8_valid_ascii) simp
  from concurrent_creates_collide [OF m(1) this _ m(3) m2] show ?thesis by fastforce
qed

end
