(* ===== verification/Config.thy ===== *)
theory Config
  imports Layout Errors Utf8
begin

text \<open>
  \<open>crates/fence-config/src/{config,defaults}.rs\<close>: the configuration, its defaults, where its
  file is looked for and its validation. Paths are the bytes of the \<open>OsString\<close>.

  The TOML parser is not part of the repository. What the \<open>derive(Deserialize)\<close> attributes
  of the structs say is modelled: a parsed document gives the fields it holds
  (\<open>raw_config\<close>), and \<open>fill\<close> gives every other field the default its attribute names. The
  parser itself, with its range and type checks, is the field \<open>toml_parse\<close> of \<open>env\<close>, as are
  the environment variable and the files.
\<close>

section \<open>Defaults\<close>

definition DEFAULT_CONFIG_PATH :: "u8 list" where "DEFAULT_CONFIG_PATH = str ''/etc/fence/conf.toml''"
definition DEFAULT_CAPACITY :: u32 where "DEFAULT_CAPACITY = 1000000"
definition DEFAULT_PAYLOAD_SIZE :: u32 where "DEFAULT_PAYLOAD_SIZE = 128"
definition DEFAULT_MAX_HOSTS :: u16 where "DEFAULT_MAX_HOSTS = 16"
definition DEFAULT_HOST_ID :: u16 where "DEFAULT_HOST_ID = 0"
definition DEFAULT_OVERFLOW_STRATEGY :: string where "DEFAULT_OVERFLOW_STRATEGY = ''error''"
definition DEFAULT_AUTO_RECOVER :: bool where "DEFAULT_AUTO_RECOVER = True"
definition DEFAULT_RECOVERY_TIMEOUT_MS :: u64 where "DEFAULT_RECOVERY_TIMEOUT_MS = 5000"
definition DEFAULT_LOG_LEVEL :: string where "DEFAULT_LOG_LEVEL = ''info''"

definition default_capacity :: u32 where "default_capacity = DEFAULT_CAPACITY"
definition default_payload_size :: u32 where "default_payload_size = DEFAULT_PAYLOAD_SIZE"
definition default_max_hosts :: u16 where "default_max_hosts = DEFAULT_MAX_HOSTS"
definition default_host_id :: u16 where "default_host_id = DEFAULT_HOST_ID"
definition default_overflow_strategy :: string where
  "default_overflow_strategy = DEFAULT_OVERFLOW_STRATEGY"
definition default_auto_recover :: bool where "default_auto_recover = DEFAULT_AUTO_RECOVER"
definition default_recovery_timeout_ms :: u64 where
  "default_recovery_timeout_ms = DEFAULT_RECOVERY_TIMEOUT_MS"

lemmas default_consts =
  DEFAULT_CAPACITY_def DEFAULT_PAYLOAD_SIZE_def DEFAULT_MAX_HOSTS_def DEFAULT_HOST_ID_def
  DEFAULT_OVERFLOW_STRATEGY_def DEFAULT_AUTO_RECOVER_def DEFAULT_RECOVERY_TIMEOUT_MS_def
  default_capacity_def default_payload_size_def default_max_hosts_def default_host_id_def
  default_overflow_strategy_def default_auto_recover_def default_recovery_timeout_ms_def

section \<open>The configuration\<close>

record pool_section =
  p_path :: "u8 list"
  p_capacity :: u32
  p_payload_size :: u32
  p_max_hosts :: u16

record host_section =
  h_host_id :: u16
  h_name :: "string option"

record overflow_section =
  o_strategy :: string
  o_max_segments :: "u32 option"
  o_backpressure :: "string option"

record recovery_section =
  r_auto_recover :: bool
  r_recovery_timeout_ms :: u64

record fence_config =
  fc_pool :: pool_section
  fc_host :: host_section
  fc_overflow :: overflow_section
  fc_recovery :: recovery_section

definition host_section_default :: host_section where
  "host_section_default = \<lparr>h_host_id = DEFAULT_HOST_ID, h_name = None\<rparr>"

definition overflow_section_default :: overflow_section where
  "overflow_section_default =
     \<lparr>o_strategy = DEFAULT_OVERFLOW_STRATEGY, o_max_segments = None, o_backpressure = None\<rparr>"

definition recovery_section_default :: recovery_section where
  "recovery_section_default =
     \<lparr>r_auto_recover = DEFAULT_AUTO_RECOVER, r_recovery_timeout_ms = DEFAULT_RECOVERY_TIMEOUT_MS\<rparr>"

text \<open>The fields a document holds: only \<open>pool\<close> and \<open>pool.path\<close> have no default.\<close>

record raw_pool =
  rp_path :: "u8 list"
  rp_capacity :: "u32 option"
  rp_payload_size :: "u32 option"
  rp_max_hosts :: "u16 option"

record raw_host =
  rh_host_id :: "u16 option"
  rh_host_name :: "string option"

record raw_overflow =
  ro_strategy :: "string option"
  ro_max_segments :: "u32 option"
  ro_backpressure :: "string option"

record raw_recovery =
  rr_auto_recover :: "bool option"
  rr_recovery_timeout_ms :: "u64 option"

record raw_config =
  raw_pool :: raw_pool
  raw_host :: "raw_host option"
  raw_overflow :: "raw_overflow option"
  raw_recovery :: "raw_recovery option"

definition or_default :: "'a option \<Rightarrow> 'a \<Rightarrow> 'a" where
  "or_default x d = (case x of Some v \<Rightarrow> v | None \<Rightarrow> d)"

definition fill_pool :: "raw_pool \<Rightarrow> pool_section" where
  "fill_pool r =
     \<lparr>p_path = rp_path r,
      p_capacity = or_default (rp_capacity r) default_capacity,
      p_payload_size = or_default (rp_payload_size r) default_payload_size,
      p_max_hosts = or_default (rp_max_hosts r) default_max_hosts\<rparr>"

definition fill_host :: "raw_host \<Rightarrow> host_section" where
  "fill_host r = \<lparr>h_host_id = or_default (rh_host_id r) default_host_id, h_name = rh_host_name r\<rparr>"

definition fill_overflow :: "raw_overflow \<Rightarrow> overflow_section" where
  "fill_overflow r =
     \<lparr>o_strategy = or_default (ro_strategy r) default_overflow_strategy,
      o_max_segments = ro_max_segments r, o_backpressure = ro_backpressure r\<rparr>"

definition fill_recovery :: "raw_recovery \<Rightarrow> recovery_section" where
  "fill_recovery r =
     \<lparr>r_auto_recover = or_default (rr_auto_recover r) default_auto_recover,
      r_recovery_timeout_ms = or_default (rr_recovery_timeout_ms r) default_recovery_timeout_ms\<rparr>"

definition fill :: "raw_config \<Rightarrow> fence_config" where
  "fill r =
     \<lparr>fc_pool = fill_pool (raw_pool r),
      fc_host = (case raw_host r of Some h \<Rightarrow> fill_host h | None \<Rightarrow> host_section_default),
      fc_overflow = (case raw_overflow r of Some x \<Rightarrow> fill_overflow x | None \<Rightarrow> overflow_section_default),
      fc_recovery = (case raw_recovery r of Some x \<Rightarrow> fill_recovery x | None \<Rightarrow> recovery_section_default)\<rparr>"

section \<open>Errors\<close>

datatype config_error =
    FileNotFound "u8 list"
  | ParseError "u8 list"
  | ValidationError string string

fun config_error_display :: "config_error \<Rightarrow> u8 list" where
  "config_error_display (FileNotFound path) = str ''config file not found: '' @ utf8_lossy path"
| "config_error_display (ParseError detail) = str ''config parse error: '' @ detail"
| "config_error_display (ValidationError field detail) =
     str (''invalid config: '' @ field @ '': '' @ detail)"

section \<open>Validation\<close>

definition valid_strategies :: "string list" where
  "valid_strategies = [''error'', ''segmented'', ''circular'']"

fun join :: "string \<Rightarrow> string list \<Rightarrow> string" where
  "join sep [] = []"
| "join sep [x] = x"
| "join sep (x # y # xs) = x @ sep @ join sep (y # xs)"

definition validate :: "fence_config \<Rightarrow> config_error + unit" where
  "validate c =
     (if p_capacity (fc_pool c) = 0 then Inl (ValidationError ''pool.capacity'' ''must be > 0'')
      else if p_payload_size (fc_pool c) = 0 then
        Inl (ValidationError ''pool.payload_size'' ''must be > 0'')
      else if p_payload_size (fc_pool c) > 65536 then
        Inl (ValidationError ''pool.payload_size'' ''must be <= 65536'')
      else if p_payload_size (fc_pool c) mod 8 \<noteq> 0 then
        Inl (ValidationError ''pool.payload_size'' ''must be a multiple of 8 (alignment)'')
      else if p_max_hosts (fc_pool c) = 0 \<or> p_max_hosts (fc_pool c) > 256 then
        Inl (ValidationError ''pool.max_hosts'' ''must be 1-256'')
      else if h_host_id (fc_host c) \<ge> p_max_hosts (fc_pool c) then
        Inl (ValidationError ''host.host_id''
          (''must be < max_hosts ('' @ show_word (p_max_hosts (fc_pool c)) @ '')''))
      else if o_strategy (fc_overflow c) \<notin> set valid_strategies then
        Inl (ValidationError ''overflow.strategy''
          (''must be one of: '' @ join '', '' valid_strategies))
      else Inr ())"

section \<open>Loading\<close>

text \<open>
  The surroundings of the process: the variable \<open>FENCE_CONFIG\<close>, the contents of the
  readable files, and the TOML parser (the text of its error, or the fields).
\<close>

record env =
  env_fence_config :: "u8 list option"
  env_read :: "u8 list \<Rightarrow> u8 list option"
  toml_parse :: "u8 list \<Rightarrow> u8 list + raw_config"

definition from_str :: "env \<Rightarrow> u8 list \<Rightarrow> config_error + fence_config" where
  "from_str E toml_str =
     (case toml_parse E toml_str of
        Inl e \<Rightarrow> Inl (ParseError e)
      | Inr raw \<Rightarrow>
          let config = fill raw in
          case validate config of Inl e \<Rightarrow> Inl e | Inr _ \<Rightarrow> Inr config)"

text \<open>\<open>read_to_string\<close> fails on a file that is not UTF-8 as on one it cannot read.\<close>

definition from_file :: "env \<Rightarrow> u8 list \<Rightarrow> config_error + fence_config" where
  "from_file E path =
     (case env_read E path of
        None \<Rightarrow> Inl (FileNotFound path)
      | Some content \<Rightarrow>
          if \<not> utf8_valid content then Inl (FileNotFound path) else from_str E content)"

text \<open>\<open>std::env::var\<close> is an error when the variable is unset or not Unicode.\<close>

definition resolve_path :: "env \<Rightarrow> u8 list option \<Rightarrow> u8 list" where
  "resolve_path E cli_path =
     (case cli_path of
        Some p \<Rightarrow> p
      | None \<Rightarrow>
          (case env_fence_config E of
             Some p \<Rightarrow> if utf8_valid p then p else DEFAULT_CONFIG_PATH
           | None \<Rightarrow> DEFAULT_CONFIG_PATH))"

section \<open>What validation promises\<close>

definition config_ok :: "fence_config \<Rightarrow> bool" where
  "config_ok c \<longleftrightarrow>
     0 < unat (p_capacity (fc_pool c)) \<and>
     0 < unat (p_payload_size (fc_pool c)) \<and> unat (p_payload_size (fc_pool c)) \<le> 65536 \<and>
     unat (p_payload_size (fc_pool c)) mod 8 = 0 \<and>
     0 < unat (p_max_hosts (fc_pool c)) \<and> unat (p_max_hosts (fc_pool c)) \<le> 256 \<and>
     unat (h_host_id (fc_host c)) < unat (p_max_hosts (fc_pool c)) \<and>
     o_strategy (fc_overflow c) \<in> {''error'', ''segmented'', ''circular''}"

lemma validate_ok: "validate c = Inr () \<longleftrightarrow> config_ok c"
proof -
  have [simp]: "(w :: 'a::len word) = 0 \<longleftrightarrow> unat w = 0" for w by (simp add: unat_eq_0)
  have m8: "unat (w mod 8) = unat w mod 8" for w :: u32 by (simp add: unat_mod_distrib)
  show ?thesis
    by (auto simp: validate_def config_ok_def valid_strategies_def word_less_nat_alt word_le_nat_alt m8
        not_less not_le)
qed

lemma from_str_ok: "from_str E s = Inr c \<Longrightarrow> config_ok c"
  by (auto simp: from_str_def Let_def validate_ok [symmetric] split: sum.splits)

lemma from_file_ok: "from_file E path = Inr c \<Longrightarrow> config_ok c"
  by (auto simp: from_file_def split: option.splits if_splits intro: from_str_ok)

lemma config_geometry:
  assumes "config_ok c"
  obtains g where
    "geometry_new (p_capacity (fc_pool c)) (p_payload_size (fc_pool c)) (p_max_hosts (fc_pool c)) = Inr g"
    "geom_ok g" "g_capacity g = p_capacity (fc_pool c)" "g_payload_size g = p_payload_size (fc_pool c)"
    "g_max_hosts g = p_max_hosts (fc_pool c)" "unat (h_host_id (fc_host c)) < hosts g"
proof -
  have nz: "p_capacity (fc_pool c) > 0" "p_payload_size (fc_pool c) > 0" "p_max_hosts (fc_pool c) > 0"
    using assms by (simp_all add: config_ok_def word_less_nat_alt)
  then obtain g where
    g: "geometry_new (p_capacity (fc_pool c)) (p_payload_size (fc_pool c)) (p_max_hosts (fc_pool c)) = Inr g"
    by (simp add: geometry_new_def Let_def)
  have "unat (p_payload_size (fc_pool c)) < 4294967232" using assms by (simp add: config_ok_def)
  note wf = geometry_new_wf [OF g this]
  show ?thesis
    by (rule that [OF g]) (use wf assms in \<open>simp_all add: geom_ok_def config_ok_def\<close>)
qed

end
