(* ===== verification/Machine.thy ===== *)
theory Machine
  imports Open Utf8
begin

text \<open>
  Opening and closing a pool file: \<open>MmapBackend::open\<close> and its \<open>Drop\<close> in
  \<open>crates/fence-core/src/mmap_backend.rs\<close>, \<open>open_mmap_backend\<close> in \<open>backend.rs\<close> and
  \<open>FenceRuntime::open\<close> in \<open>crates/fence-runtime/src/engine.rs\<close>.

  The operating system decides whether a call succeeds, which descriptor is new and where a
  mapping is placed (\<open>os\<close>, a parameter). What a successful call does to files and
  descriptors is the state \<open>machine\<close>: a file has a length and, like a region, contents in
  the page cache and contents on the media.
\<close>

record disk_file =
  f_len :: nat
  f_cache :: bytes
  f_media :: bytes

record machine =
  files :: "u8 list \<Rightarrow> disk_file option"
  fds :: "int \<Rightarrow> u8 list option"

record os =
  os_open :: "machine \<Rightarrow> u8 list \<Rightarrow> string + int"
  os_ftruncate :: "machine \<Rightarrow> int \<Rightarrow> usize \<Rightarrow> string option"
  os_mmap :: "machine \<Rightarrow> int \<Rightarrow> usize \<Rightarrow> string + usize"
  os_arch :: arch

record mmap_backend =
  mb_region :: mmap
  mb_fd :: int

section \<open>The calls\<close>

definition empty_file :: disk_file where
  "empty_file = \<lparr>f_len = 0, f_cache = (\<lambda>_. 0), f_media = (\<lambda>_. 0)\<rparr>"

text \<open>\<open>open(path, O_RDWR | O_CREAT)\<close> when it succeeds.\<close>

definition do_open :: "u8 list \<Rightarrow> int \<Rightarrow> machine \<Rightarrow> machine" where
  "do_open path fd w =
     w\<lparr>files := (files w)(path := Some (case files w path of Some f \<Rightarrow> f | None \<Rightarrow> empty_file)),
       fds := (fds w)(fd := Some path)\<rparr>"

text \<open>\<open>ftruncate\<close>: what lies behind the new or the old length is zero.\<close>

definition cut :: "nat \<Rightarrow> bytes \<Rightarrow> bytes" where
  "cut n c = (\<lambda>x. if x < n then c x else 0)"

definition resize :: "nat \<Rightarrow> disk_file \<Rightarrow> disk_file" where
  "resize n f = \<lparr>f_len = n, f_cache = cut (min n (f_len f)) (f_cache f),
                 f_media = cut (min n (f_len f)) (f_media f)\<rparr>"

definition set_file :: "int \<Rightarrow> (disk_file \<Rightarrow> disk_file) \<Rightarrow> machine \<Rightarrow> machine" where
  "set_file fd F w =
     (case fds w fd of
        Some path \<Rightarrow> w\<lparr>files := (files w)(path := map_option F (files w path))\<rparr>
      | None \<Rightarrow> w)"

definition do_close :: "int \<Rightarrow> machine \<Rightarrow> machine" where
  "do_close fd w = w\<lparr>fds := (fds w)(fd := None)\<rparr>"

text \<open>A mapping of a whole file at an address.\<close>

definition fd_file :: "int \<Rightarrow> machine \<Rightarrow> disk_file" where
  "fd_file fd w =
     (case fds w fd of
        Some path \<Rightarrow> (case files w path of Some f \<Rightarrow> f | None \<Rightarrow> empty_file)
      | None \<Rightarrow> empty_file)"

definition do_mmap :: "os \<Rightarrow> int \<Rightarrow> usize \<Rightarrow> usize \<Rightarrow> machine \<Rightarrow> mmap" where
  "do_mmap S fd sz addr w =
     \<lparr>mm_ptr = addr, mm_len = sz, mm_arch = os_arch S,
      cache = f_cache (fd_file fd w), media = f_media (fd_file fd w)\<rparr>"

section \<open>The backend\<close>

definition mmap_backend_open ::
    "os \<Rightarrow> u8 list \<Rightarrow> usize \<Rightarrow> machine \<Rightarrow> (fence_error + mmap_backend) \<times> machine" where
  "mmap_backend_open S path sz w =
     (if \<not> utf8_valid path then (Inl (MmapFailed ''path contains invalid UTF-8''), w)
      else if 0 \<in> set path then (Inl (MmapFailed ''path contains null byte''), w)
      else
        (case os_open S w path of
           Inl e \<Rightarrow> (Inl (MmapFailed (''open() failed: '' @ e)), w)
         | Inr fd \<Rightarrow>
             let w1 = do_open path fd w in
             (case os_ftruncate S w1 fd sz of
                Some e \<Rightarrow> (Inl (MmapFailed (''ftruncate() failed: '' @ e)), do_close fd w1)
              | None \<Rightarrow>
                  let w2 = set_file fd (resize (unat sz)) w1 in
                  (case os_mmap S w2 fd sz of
                     Inl e \<Rightarrow> (Inl (MmapFailed (''mmap() failed: '' @ e)), do_close fd w2)
                   | Inr addr \<Rightarrow>
                       (Inr \<lparr>mb_region = do_mmap S fd sz addr w2, mb_fd = fd\<rparr>, w2)))))"

definition open_mmap_backend ::
    "os \<Rightarrow> u8 list \<Rightarrow> usize \<Rightarrow> machine \<Rightarrow> (fence_error + mmap_backend) \<times> machine" where
  "open_mmap_backend S path sz w =
     (case mmap_backend_open S path sz w of
        (Inl e, w') \<Rightarrow> (Inl e, w')
      | (Inr backend, w') \<Rightarrow> (Inr backend, w'))"

text \<open>
  \<open>Drop\<close>: the mapping goes away and the descriptor is closed. The mapping is shared, so the
  file has the contents of the region.
\<close>

definition do_munmap :: "mmap_backend \<Rightarrow> machine \<Rightarrow> machine" where
  "do_munmap b w =
     set_file (mb_fd b) (\<lambda>f. f\<lparr>f_cache := cache (mb_region b), f_media := media (mb_region b)\<rparr>) w"

definition mmap_backend_drop :: "mmap_backend \<Rightarrow> machine \<Rightarrow> machine" where
  "mmap_backend_drop b w = do_close (mb_fd b) (do_munmap b w)"

section \<open>Opening a pool\<close>

text \<open>
  A runtime owns its backend. An early return drops the backend; a panic of
  \<open>PoolGeometry::new\<close> is a fault.
\<close>

definition runtime_open ::
    "os \<Rightarrow> pool_config \<Rightarrow> machine \<Rightarrow>
     fault + ((fence_error + (fence_runtime \<times> mmap_backend)) \<times> machine)" where
  "runtime_open S config w =
     (case geometry_new (pc_capacity config) (pc_payload_size config) (pc_max_hosts config) of
        Inl msg \<Rightarrow> Inl (Panic msg)
      | Inr g \<Rightarrow>
          (case open_mmap_backend S (pc_path config) (g_total_size g) w of
             (Inl e, w') \<Rightarrow> Inr (Inl e, w')
           | (Inr backend, w') \<Rightarrow>
               (case run (open_region config g) (mb_region backend) of
                  Inl flt \<Rightarrow> Inl flt
                | Inr (Inl e, m) \<Rightarrow> Inr (Inl e, mmap_backend_drop (backend\<lparr>mb_region := m\<rparr>) w')
                | Inr (Inr rt, m) \<Rightarrow> Inr (Inr (rt, backend\<lparr>mb_region := m\<rparr>), w'))))"

text \<open>\<open>Drop\<close> of the runtime does nothing itself; its fields are dropped.\<close>

definition runtime_drop :: "fence_runtime \<times> mmap_backend \<Rightarrow> machine \<Rightarrow> machine" where
  "runtime_drop rb w = mmap_backend_drop (snd rb) w"

text \<open>A program run through an open runtime.\<close>

definition on_region ::
    "'a prog \<Rightarrow> mmap_backend \<Rightarrow> fault + ('a \<times> mmap_backend)" where
  "on_region p b =
     (case run p (mb_region b) of
        Inl flt \<Rightarrow> Inl flt
      | Inr (x, m) \<Rightarrow> Inr (x, b\<lparr>mb_region := m\<rparr>))"

section \<open>What the operating system is assumed to do\<close>

text \<open>
  The documented behaviour the properties rely on: a new descriptor is not in use, and a
  mapping lies at a page boundary within the address space.
\<close>

definition fresh_fds :: "os \<Rightarrow> bool" where
  "fresh_fds S \<longleftrightarrow> (\<forall>w path fd. os_open S w path = Inr fd \<longrightarrow> fds w fd = None)"

definition page_mapped :: "os \<Rightarrow> bool" where
  "page_mapped S \<longleftrightarrow> (\<forall>w fd sz addr. os_mmap S w fd sz = Inr addr \<longrightarrow>
     unat addr mod 4096 = 0 \<and> unat addr + unat sz \<le> 2 ^ 64 - 4096)"

section \<open>Opening and dropping\<close>

lemma set_file_fds [simp]: "fds (set_file fd F w) = fds w"
  by (simp add: set_file_def split: option.split)

lemma open_error_fds:
  assumes "fresh_fds S" "mmap_backend_open S path sz w = (Inl e, w')"
  shows "fds w' = fds w"
  using assms
  by (auto simp: mmap_backend_open_def do_open_def do_close_def Let_def fresh_fds_def fun_eq_iff
      split: if_splits sum.splits option.splits)

lemma open_mmap_backend_open: "open_mmap_backend S path sz w = mmap_backend_open S path sz w"
  by (simp add: open_mmap_backend_def split: prod.split sum.split)

lemma open_ok:
  assumes "mmap_backend_open S path sz w = (Inr b, w')"
  shows "mm_len (mb_region b) = sz" "mm_arch (mb_region b) = os_arch S"
    "fds w' = (fds w)(mb_fd b := Some path)"
    "files w' path = Some \<lparr>f_len = unat sz, f_cache = cache (mb_region b), f_media = media (mb_region b)\<rparr>"
    "\<And>p. p \<noteq> path \<Longrightarrow> files w' p = files w p"
    "cache (mb_region b) = (case files w path of None \<Rightarrow> (\<lambda>_. 0)
       | Some f \<Rightarrow> cut (min (unat sz) (f_len f)) (f_cache f))"
    "media (mb_region b) = (case files w path of None \<Rightarrow> (\<lambda>_. 0)
       | Some f \<Rightarrow> cut (min (unat sz) (f_len f)) (f_media f))"
  using assms
  by (auto simp: mmap_backend_open_def do_open_def do_close_def do_mmap_def Let_def fd_file_def
      set_file_def resize_def empty_file_def cut_def fun_eq_iff
      split: if_splits sum.splits option.splits)

lemma open_mapped:
  assumes "mmap_backend_open S path sz w = (Inr b, w')" "page_mapped S"
  shows "mapped (mb_region b)" "unat (mm_ptr (mb_region b)) mod 4096 = 0"
  using assms
  by (fastforce simp: mmap_backend_open_def Let_def do_mmap_def page_mapped_def mapped_def
      split: if_splits sum.splits option.splits)+

lemma open_pool:
  assumes "mmap_backend_open S path (g_total_size g) w = (Inr b, w')" "page_mapped S" "geom_ok g"
  shows "pool g (mb_region b)"
  using open_ok(1) [OF assms(1)] open_mapped(1) [OF assms(1,2)] assms(3) by (simp add: pool_def)

lemma drop_fds [simp]: "fds (mmap_backend_drop b w) = (fds w)(mb_fd b := None)"
  by (simp add: mmap_backend_drop_def do_munmap_def do_close_def)

lemma drop_files:
  assumes "fds w (mb_fd b) = Some path" "files w path = Some f"
  shows "files (mmap_backend_drop b w) =
    (files w)(path := Some (f\<lparr>f_cache := cache (mb_region b), f_media := media (mb_region b)\<rparr>))"
  using assms by (simp add: mmap_backend_drop_def do_munmap_def do_close_def set_file_def)

text \<open>The log of a pool does not depend on the bytes behind its end.\<close>

lemma abs_log_cong:
  assumes "geom_ok g" "\<And>x. x < unat (g_total_size g) \<Longrightarrow> c' x = c x"
  shows "abs_log H g c' = abs_log H g c"
proof -
  have wf: "geom_wf g" using assms(1) by (simp add: geom_ok_def)
  then have tot: "64 \<le> unat (g_total_size g)" by (simp add: geom_wf_def)
  have slots: "slot_view H g c' s = slot_view H g c s" if "s < cap g" for s
    by (rule slot_view_cong [OF geom_okD(4) [OF assms(1)]], rule assms(2))
      (use rec_end_le_total [OF wf that] in linarith)
  have met: "get64 c' (met_base g h + 8 * i) = get64 c (met_base g h + 8 * i)"
    if "h < hosts g" "i < 7" for h i
    by (rule get64_cong, rule assms(2)) (use met_end_le_total [OF wf that(1)] that(2) in linarith)
  have hdr: "get64 c' a = get64 c a" if "a + 8 \<le> 64" for a
    by (rule get64_cong, rule assms(2)) (use that tot in linarith)
  show ?thesis
    by (simp add: abs_log_def slots met hdr fun_eq_iff cong: map_cong)
qed

section \<open>Opening a runtime\<close>

text \<open>With a valid geometry \<open>open\<close> has no panic, and its three endings are these.\<close>

lemma runtime_open_cases:
  assumes "geometry_new (pc_capacity config) (pc_payload_size config) (pc_max_hosts config) = Inr g"
    and "geom_ok g" "page_mapped S"
  shows "runtime_open S config w =
    (case mmap_backend_open S (pc_path config) (g_total_size g) w of
       (Inl e, w') \<Rightarrow> Inr (Inl e, w')
     | (Inr b, w') \<Rightarrow>
         if pc_create config then
           Inr (Inr (\<lparr>rt_geometry = g, rt_host_id = pc_host_id config\<rparr>,
                     b\<lparr>mb_region := flushed ((mb_region b)\<lparr>cache := fresh_header config g (cache (mb_region b))\<rparr>) 0 64\<rparr>), w')
         else if get64 (cache (mb_region b)) 0 = MAGIC then
           Inr (Inr (\<lparr>rt_geometry = g, rt_host_id = pc_host_id config\<rparr>, b), w')
         else Inr (Inl (InvalidMagic MAGIC (get64 (cache (mb_region b)) 0)), mmap_backend_drop b w'))"
proof (cases "mmap_backend_open S (pc_path config) (g_total_size g) w")
  case (Pair r w')
  show ?thesis
  proof (cases r)
    case (Inl e)
    with Pair assms(1) show ?thesis by (simp add: runtime_open_def open_mmap_backend_open)
  next
    case (Inr b)
    with Pair have p: "pool g (mb_region b)" using open_pool [OF _ assms(3,2)] by blast
    show ?thesis
      using assms(1) Pair Inr run_create [OF p, of config] run_open_existing [OF p, of config]
      by (cases "pc_create config") (simp_all add: runtime_open_def open_mmap_backend_open)
  qed
qed

lemma runtime_open_fds:
  assumes "geometry_new (pc_capacity config) (pc_payload_size config) (pc_max_hosts config) = Inr g"
    and "geom_ok g" "page_mapped S" "fresh_fds S"
    and "runtime_open S config w = Inr (r, w')"
  shows "case r of Inl e \<Rightarrow> fds w' = fds w
     | Inr (rt, b) \<Rightarrow> pool g (mb_region b) \<and> fds w (mb_fd b) = None \<and> fds w' = (fds w)(mb_fd b := Some (pc_path config))"
proof (cases "mmap_backend_open S (pc_path config) (g_total_size g) w")
  case (Pair x w1)
  note C = runtime_open_cases [OF assms(1-3), of w, unfolded Pair]
  show ?thesis
  proof (cases x)
    case (Inl e)
    then show ?thesis using C assms(5) open_error_fds [OF assms(4) Pair [unfolded Inl]] by auto
  next
    case (Inr b)
    note o = Pair [unfolded Inr]
    have f: "fds w (mb_fd b) = None"
      using o assms(4)
      by (auto simp: mmap_backend_open_def Let_def fresh_fds_def split: if_splits sum.splits option.splits)
    show ?thesis
      using C assms(5) Inr f open_ok(3) [OF o] open_pool [OF o assms(3,2)]
      by (auto simp: fun_eq_iff split: if_splits)
  qed
qed

end
