(* ===== verification/Reopen.thy ===== *)
theory Reopen
  imports Machine LogContract
begin

text \<open>
  What survives closing and opening a pool file: the runtime never writes the first 32 bytes
  of the header, so a pool that was created can be opened again, and shows the same log.
\<close>

section \<open>The static header\<close>

abbreviation behind_header :: "nat set" where "behind_header \<equiv> {32..}"

lemma behindD [dest]:
  "x \<in> metrics_bytes g h \<Longrightarrow> 32 \<le> x" "x \<in> state_bytes g \<Longrightarrow> 32 \<le> x"
  using met_base_ge [of g "unat h"]
  by (auto simp: metrics_bytes_def state_bytes_def intro: order_trans [OF _ rec_base_ge])

lemma record_behind [dest]: "rec_base g s + k \<le> x \<Longrightarrow> 32 \<le> x" "rec_base g s \<le> x \<Longrightarrow> 32 \<le> x"
  using rec_base_ge [of g s] by linarith+

lemma append_footprint: "writes_within behind_header (append H rt term data)"
proof -
  have rec: "writes_within behind_header (append_record H rt term data slot)" for slot
    by (auto simp: append_record_def Let_def unat_record_offset_plus unat_record_offset
        intro!: writes_within_bind advance_footprint increments_footprint
        intro: le_trans [OF _ rec_base_ge])
  show ?thesis
    unfolding append_def Let_def
    by (auto intro!: writes_within_bind increments_footprint rec)
qed

lemma read_range_footprint: "writes_within behind_header (read_range H rt a b)"
proof -
  have "writes_within behind_header (read_loop H rt is rs)" for "is" rs
    by (induction "is" arbitrary: rs)
      (auto intro!: writes_within_bind read_footprint split: sum.split option.split)
  then show ?thesis by (simp add: read_range_def)
qed

lemma stats_footprint: "writes_within B (stats rt)"
proof -
  have "writes_within B (read_stats_loop g hs st)" for g hs st
    by (induction hs arbitrary: st) (simp_all add: Let_def)
  then show ?thesis by (simp add: stats_def read_stats_def)
qed

lemma runtime_recover_footprint: "writes_within behind_header (runtime_recover H rt)"
  unfolding runtime_recover_def
  by (auto intro!: writes_within_bind recover_footprint increments_footprint)

lemma op_footprint: "writes_within behind_header (op_prog H rt op)"
  by (cases op)
    (auto intro!: writes_within_bind append_footprint read_footprint read_range_footprint
      trim_footprint runtime_recover_footprint stats_footprint
      simp: runtime_trim_def committed_tail_def reserve_tail_def)

lemma session_footprint: "writes_within behind_header (session H g ops)"
  by (induction ops rule: session.induct) (auto intro!: writes_within_bind op_footprint)

lemma run_frame:
  assumes "run p m = Inr (x, m')" "writes_within B p" "mapped m"
  shows "frame B m m'"
  using crash_reach_frame [OF run_crash_reach [OF assms(1)] assms(2,3)] by simp

lemma session_magic:
  assumes "run (session H g ops) m = Inr (x, m')" "mapped m"
  shows "get64 (cache m') 0 = get64 (cache m) 0"
  using run_frame [OF assms(1) session_footprint assms(2)]
  by (intro get64_cong) (auto simp: frame_def)

section \<open>Opening again\<close>

text \<open>
  A pool in use: a file mapped through descriptor \<open>mb_fd b\<close>, whose region holds the pool.
\<close>

definition in_use :: "pool_geometry \<Rightarrow> u8 list \<Rightarrow> mmap_backend \<Rightarrow> machine \<Rightarrow> bool" where
  "in_use g path b w \<longleftrightarrow> pool g (mb_region b) \<and> fds w (mb_fd b) = Some path \<and>
     (\<exists>f. files w path = Some f \<and> f_len f = unat (g_total_size g))"

lemma in_use_region: "in_use g path b w \<Longrightarrow> pool g m \<Longrightarrow> in_use g path (b\<lparr>mb_region := m\<rparr>) w"
  by (simp add: in_use_def)

lemma created_in_use:
  assumes "geometry_new (pc_capacity config) (pc_payload_size config) (pc_max_hosts config) = Inr g"
    and "geom_ok g" "page_mapped S" "pc_create config"
    and "runtime_open S config w = Inr (Inr (rt, b), w1)"
  shows "rt = \<lparr>rt_geometry = g, rt_host_id = pc_host_id config\<rparr>" "in_use g (pc_path config) b w1"
    "get64 (cache (mb_region b)) 0 = MAGIC" "unat (mm_ptr (mb_region b)) mod 4096 = 0"
    "\<exists>b0. mmap_backend_open S (pc_path config) (g_total_size g) w = (Inr b0, w1) \<and>
       mb_region b = flushed ((mb_region b0)\<lparr>cache := fresh_header config g (cache (mb_region b0))\<rparr>) 0 64"
proof -
  obtain x w' where x: "mmap_backend_open S (pc_path config) (g_total_size g) w = (x, w')" by fastforce
  then obtain b0 where b0: "x = Inr b0" "w' = w1" "rt = \<lparr>rt_geometry = g, rt_host_id = pc_host_id config\<rparr>"
    "b = b0\<lparr>mb_region := flushed ((mb_region b0)\<lparr>cache := fresh_header config g (cache (mb_region b0))\<rparr>) 0 64\<rparr>"
    using assms(4,5) by (auto simp: runtime_open_cases [OF assms(1-3)] split: sum.splits)
  note o = x [unfolded b0(1,2)]
  show "rt = \<lparr>rt_geometry = g, rt_host_id = pc_host_id config\<rparr>" by (rule b0(3))
  show "in_use g (pc_path config) b w1"
    using open_ok [OF o] open_pool [OF o assms(3,2)] by (simp add: in_use_def b0(4))
  show "get64 (cache (mb_region b)) 0 = MAGIC" by (simp add: b0(4) fresh_header_fields)
  show "unat (mm_ptr (mb_region b)) mod 4096 = 0" using open_mapped(2) [OF o assms(3)] by (simp add: b0(4))
  show "\<exists>b0. mmap_backend_open S (pc_path config) (g_total_size g) w = (Inr b0, w1) \<and>
       mb_region b = flushed ((mb_region b0)\<lparr>cache := fresh_header config g (cache (mb_region b0))\<rparr>) 0 64"
    using o by (auto simp: b0(4))
qed

text \<open>Dropping a pool in use and opening its file again maps the same bytes.\<close>

lemma reopen_region:
  assumes "in_use g path b w" "mmap_backend_open S path (g_total_size g) (mmap_backend_drop b w) = (Inr b', w')"
    and "x < unat (g_total_size g)"
  shows "cache (mb_region b') x = cache (mb_region b) x \<and> media (mb_region b') x = media (mb_region b) x"
proof -
  from assms(1) obtain f where f: "fds w (mb_fd b) = Some path" "files w path = Some f"
    "f_len f = unat (g_total_size g)"
    by (auto simp: in_use_def)
  show ?thesis
    using open_ok(6,7) [OF assms(2)] assms(3) f(3) by (simp add: drop_files [OF f(1,2)] cut_def)
qed

lemma reopen_log:
  assumes "in_use g path b w" "mmap_backend_open S path (g_total_size g) (mmap_backend_drop b w) = (Inr b', w')"
  shows "abs_log H g (cache (mb_region b')) = abs_log H g (cache (mb_region b))"
    "get64 (cache (mb_region b')) 0 = get64 (cache (mb_region b)) 0"
proof -
  have ok: "geom_ok g" using assms(1) by (simp add: in_use_def pool_def)
  then have tot: "64 \<le> unat (g_total_size g)" by (simp add: geom_ok_def geom_wf_def)
  show "abs_log H g (cache (mb_region b')) = abs_log H g (cache (mb_region b))"
    by (rule abs_log_cong [OF ok]) (use reopen_region [OF assms] in blast)
  show "get64 (cache (mb_region b')) 0 = get64 (cache (mb_region b)) 0"
    by (rule get64_cong) (use reopen_region [OF assms] tot in auto)
qed

section \<open>Power loss\<close>

text \<open>
  Power is lost while a pool is in use: the mapped region and every file keep what is on the
  media, and all descriptors are gone.
\<close>

definition power_loss :: "mmap_backend \<Rightarrow> machine \<Rightarrow> machine" where
  "power_loss b w =
     (let w' = do_munmap b w in
      \<lparr>files = (\<lambda>p. map_option (\<lambda>f. f\<lparr>f_cache := f_media f\<rparr>) (files w' p)), fds = (\<lambda>_. None)\<rparr>)"

lemma power_loss_region:
  assumes "in_use g path b w" "mmap_backend_open S path (g_total_size g) (power_loss b w) = (Inr b', w')"
    and "x < unat (g_total_size g)"
  shows "cache (mb_region b') x = media (mb_region b) x \<and> media (mb_region b') x = media (mb_region b) x"
proof -
  from assms(1) obtain f where f: "fds w (mb_fd b) = Some path" "files w path = Some f"
    "f_len f = unat (g_total_size g)"
    by (auto simp: in_use_def)
  show ?thesis
    using open_ok(6,7) [OF assms(2)] assms(3) f
    by (simp add: power_loss_def Let_def do_munmap_def set_file_def cut_def)
qed

end
