(* ===== verification/Fenced.thy ===== *)
theory Fenced
  imports Config Reopen
begin

text \<open>
  \<open>crates/fenced/src/main.rs\<close>: the commands of the binary. Their effect is what they print
  (lines on standard output and standard error, as bytes), the exit status and the machine
  they leave; a panic is a fault. Parsing the command line is \<open>clap\<close>'s, so \<open>main\<close> starts from
  the parsed arguments.
\<close>

datatype command = Init | Status | Recover | Validate

record cli =
  cli_config :: "u8 list option"
  cli_command :: "command option"

record cli_output =
  out_lines :: "u8 list list"
  err_lines :: "u8 list list"
  exit_code :: int

definition ok_output :: "u8 list list \<Rightarrow> cli_output" where
  "ok_output ls = \<lparr>out_lines = ls, err_lines = [], exit_code = 0\<rparr>"

definition error_output :: "u8 list \<Rightarrow> cli_output" where
  "error_output l = \<lparr>out_lines = [], err_lines = [l], exit_code = 1\<rparr>"

definition print_word :: "string \<Rightarrow> 'a::len word \<Rightarrow> u8 list" where
  "print_word label w = str (label @ show_word w)"

text \<open>\<open>load_config\<close> ends the process with status 1 when there is no valid configuration.\<close>

definition load_config :: "env \<Rightarrow> u8 list \<Rightarrow> cli_output + fence_config" where
  "load_config E config_path =
     (case from_file E config_path of
        Inr cfg \<Rightarrow> Inr cfg
      | Inl e \<Rightarrow> Inl (error_output (str ''error: '' @ config_error_display e)))"

definition pool_config_of :: "fence_config \<Rightarrow> bool \<Rightarrow> pool_config" where
  "pool_config_of config create =
     \<lparr>pc_path = p_path (fc_pool config), pc_capacity = p_capacity (fc_pool config),
      pc_payload_size = p_payload_size (fc_pool config), pc_max_hosts = p_max_hosts (fc_pool config),
      pc_host_id = h_host_id (fc_host config), pc_create = create\<rparr>"

definition cmd_validate :: "env \<Rightarrow> u8 list \<Rightarrow> machine \<Rightarrow> fault + (cli_output \<times> machine)" where
  "cmd_validate E config_path w =
     (case load_config E config_path of
        Inl out \<Rightarrow> Inr (out, w)
      | Inr _ \<Rightarrow> Inr (ok_output [str ''configuration valid: '' @ utf8_lossy config_path], w))"

definition init_report :: "fence_config \<Rightarrow> pool_geometry \<Rightarrow> u8 list list" where
  "init_report config g =
     [str ''pool initialized: '' @ utf8_lossy (p_path (fc_pool config)),
      print_word ''  capacity:     '' (p_capacity (fc_pool config)),
      print_word ''  payload_size: '' (p_payload_size (fc_pool config)),
      print_word ''  max_hosts:    '' (p_max_hosts (fc_pool config)),
      print_word ''  record_size:  '' (g_record_size g),
      print_word ''  total_size:   '' (g_total_size g) @ str '' bytes'']"

definition cmd_init :: "env \<Rightarrow> os \<Rightarrow> u8 list \<Rightarrow> machine \<Rightarrow> fault + (cli_output \<times> machine)" where
  "cmd_init E S config_path w =
     (case load_config E config_path of
        Inl out \<Rightarrow> Inr (out, w)
      | Inr config \<Rightarrow>
          (case runtime_open S (pool_config_of config True) w of
             Inl flt \<Rightarrow> Inl flt
           | Inr (Inr (rt, b), w') \<Rightarrow>
               Inr (ok_output (init_report config (rt_geometry rt)), runtime_drop (rt, b) w')
           | Inr (Inl e, w') \<Rightarrow>
               Inr (error_output (str (''error initializing pool: '' @ fence_error_display e)), w')))"

definition status_report :: "fence_config \<Rightarrow> u32 \<Rightarrow> pool_stats \<Rightarrow> u64 \<Rightarrow> u64 \<Rightarrow> u8 list list" where
  "status_report config capacity st committed reserve =
     [str ''pool: '' @ utf8_lossy (p_path (fc_pool config)),
      print_word ''  committed_tail: '' committed,
      print_word ''  reserve_tail:   '' reserve,
      print_word ''  capacity:       '' capacity,
      str ''  metrics:'',
      print_word ''    appends_total:      '' (ps_appends_total st),
      print_word ''    appends_failed:     '' (ps_appends_failed st),
      print_word ''    bytes_written:      '' (ps_bytes_written st),
      print_word ''    reads_total:        '' (ps_reads_total st),
      print_word ''    checksum_failures:  '' (ps_checksum_failures st),
      print_word ''    recovery_runs:      '' (ps_recovery_runs st),
      print_word ''    abandoned_found:    '' (ps_abandoned_found st)]"

text \<open>The calls of the command, in the order they are made between the prints.\<close>

definition status_prog :: "fence_config \<Rightarrow> fence_runtime \<Rightarrow> u8 list list prog" where
  "status_prog config rt =
     prog_bind (stats rt) (\<lambda>st.
     prog_bind committed_tail (\<lambda>committed.
     prog_bind reserve_tail (\<lambda>reserve.
     Ret (status_report config (g_capacity (rt_geometry rt)) st committed reserve))))"

definition with_runtime ::
    "os \<Rightarrow> fence_config \<Rightarrow> (fence_runtime \<Rightarrow> u8 list list prog) \<Rightarrow> machine \<Rightarrow>
     fault + (cli_output \<times> machine)" where
  "with_runtime S config body w =
     (case runtime_open S (pool_config_of config False) w of
        Inl flt \<Rightarrow> Inl flt
      | Inr (Inr (rt, b), w') \<Rightarrow>
          (case on_region (body rt) b of
             Inl flt \<Rightarrow> Inl flt
           | Inr (ls, b') \<Rightarrow> Inr (ok_output ls, runtime_drop (rt, b') w'))
      | Inr (Inl e, w') \<Rightarrow>
          Inr (error_output (str (''error opening pool: '' @ fence_error_display e)), w'))"

definition cmd_status :: "env \<Rightarrow> os \<Rightarrow> u8 list \<Rightarrow> machine \<Rightarrow> fault + (cli_output \<times> machine)" where
  "cmd_status E S config_path w =
     (case load_config E config_path of
        Inl out \<Rightarrow> Inr (out, w)
      | Inr config \<Rightarrow> with_runtime S config (status_prog config) w)"

definition recover_report :: "recovery_report \<Rightarrow> u8 list list" where
  "recover_report report =
     [str ''recovery complete:'',
      print_word ''  slots_scanned:   '' (rr_slots_scanned report),
      print_word ''  abandoned_count: '' (rr_abandoned_count report),
      print_word ''  committed_tail:  '' (rr_committed_tail report)]"

definition cmd_recover ::
    "'h hasher \<Rightarrow> env \<Rightarrow> os \<Rightarrow> u8 list \<Rightarrow> machine \<Rightarrow> fault + (cli_output \<times> machine)" where
  "cmd_recover H E S config_path w =
     (case load_config E config_path of
        Inl out \<Rightarrow> Inr (out, w)
      | Inr config \<Rightarrow>
          with_runtime S config
            (\<lambda>rt. prog_bind (runtime_recover H rt) (\<lambda>report. Ret (recover_report report))) w)"

definition fenced_main ::
    "'h hasher \<Rightarrow> env \<Rightarrow> os \<Rightarrow> cli \<Rightarrow> machine \<Rightarrow> fault + (cli_output \<times> machine)" where
  "fenced_main H E S cli w =
     (let config_path = resolve_path E (cli_config cli) in
      case cli_command cli of
        Some Validate \<Rightarrow> cmd_validate E config_path w
      | Some Init \<Rightarrow> cmd_init E S config_path w
      | Some Status \<Rightarrow> cmd_status E S config_path w
      | Some Recover \<Rightarrow> cmd_recover H E S config_path w
      | None \<Rightarrow> cmd_status E S config_path w)"

section \<open>No command panics or leaks a descriptor\<close>

lemma pool_config_of_sel [simp]:
  "pc_path (pool_config_of c b) = p_path (fc_pool c)"
  "pc_capacity (pool_config_of c b) = p_capacity (fc_pool c)"
  "pc_payload_size (pool_config_of c b) = p_payload_size (fc_pool c)"
  "pc_max_hosts (pool_config_of c b) = p_max_hosts (fc_pool c)"
  "pc_host_id (pool_config_of c b) = h_host_id (fc_host c)"
  "pc_create (pool_config_of c b) = b"
  by (simp_all add: pool_config_of_def)

lemma load_config_ok: "load_config E path = Inr c \<Longrightarrow> config_ok c"
  by (auto simp: load_config_def split: sum.splits intro: from_file_ok)

lemma load_config_error: "load_config E path = Inl out \<Longrightarrow> exit_code out = 1 \<and> out_lines out = []"
  by (auto simp: load_config_def error_output_def split: sum.splits)

lemma runs_status:
  assumes "pool g m" "rt_geometry rt = g"
  shows "run (status_prog config rt) m =
    Inr (status_report config (g_capacity g) (stats_spec g (abs_log H g (cache m))) (get64 (cache m) 32) (get64 (cache m) 40), m)"
  using assms run_stats [OF assms(1,2), of H]
proof -
  have "run committed_tail m = Inr (get64 (cache m) 32, m)" "run reserve_tail m = Inr (get64 (cache m) 40, m)"
    using assms(1) by (simp_all add: committed_tail_def reserve_tail_def run_load_header)
  then show ?thesis using run_stats [OF assms, of H] assms(2) by (simp add: status_prog_def run_bind)
qed

text \<open>
  The ways a command that uses the pool can end: the operating system refuses, the file is
  not a pool, or the body runs on the pool.
\<close>

lemma with_runtime_cases:
  assumes "config_ok c" "page_mapped S"
    and "geometry_new (p_capacity (fc_pool c)) (p_payload_size (fc_pool c)) (p_max_hosts (fc_pool c)) = Inr g"
    and "geom_ok g" "rt = \<lparr>rt_geometry = g, rt_host_id = h_host_id (fc_host c)\<rparr>"
  shows "with_runtime S c body w =
    (case mmap_backend_open S (p_path (fc_pool c)) (g_total_size g) w of
       (Inl e, w') \<Rightarrow> Inr (error_output (str (''error opening pool: '' @ fence_error_display e)), w')
     | (Inr b, w') \<Rightarrow>
         if get64 (cache (mb_region b)) 0 = MAGIC then
           (case run (body rt) (mb_region b) of
              Inl flt \<Rightarrow> Inl flt
            | Inr (ls, m) \<Rightarrow> Inr (ok_output ls, mmap_backend_drop (b\<lparr>mb_region := m\<rparr>) w'))
         else Inr (error_output (str (''error opening pool: '' @
                     fence_error_display (InvalidMagic MAGIC (get64 (cache (mb_region b)) 0)))),
                   mmap_backend_drop b w'))"
  using runtime_open_cases [of "pool_config_of c False" g S w] assms
  by (simp add: with_runtime_def on_region_def runtime_drop_def split: prod.split sum.split)

lemma open_close_fds:
  assumes "mmap_backend_open S path sz w = (Inr b, w')" "fresh_fds S"
  shows "(fds w')(mb_fd b := None) = fds w"
  using assms open_ok(3) [OF assms(1)]
  by (auto simp: mmap_backend_open_def Let_def fresh_fds_def fun_eq_iff
      split: if_splits sum.splits option.splits)

lemma with_runtime_total:
  assumes "config_ok c" "page_mapped S" "fresh_fds S"
    and "\<And>g m rt. pool g m \<Longrightarrow> rt_geometry rt = g \<Longrightarrow> unat (rt_host_id rt) < hosts g \<Longrightarrow>
      \<exists>ls m'. run (body rt) m = Inr (ls, m')"
  shows "\<exists>out w'. with_runtime S c body w = Inr (out, w') \<and> fds w' = fds w"
proof -
  obtain g where
    g: "geometry_new (p_capacity (fc_pool c)) (p_payload_size (fc_pool c)) (p_max_hosts (fc_pool c)) = Inr g"
    "geom_ok g" "unat (h_host_id (fc_host c)) < hosts g"
    using config_geometry [OF assms(1)] by metis
  note C = with_runtime_cases [OF assms(1,2) g(1,2) refl, of body w]
  obtain x w1 where x: "mmap_backend_open S (p_path (fc_pool c)) (g_total_size g) w = (x, w1)" by fastforce
  show ?thesis
  proof (cases x)
    case (Inl e)
    with C x open_error_fds [OF assms(3) x [unfolded Inl]] show ?thesis by simp
  next
    case (Inr b)
    note o = x [unfolded Inr]
    have "pool g (mb_region b)" by (rule open_pool [OF o assms(2) g(2)])
    then obtain ls m' where
      "run (body \<lparr>rt_geometry = g, rt_host_id = h_host_id (fc_host c)\<rparr>) (mb_region b) = Inr (ls, m')"
      using assms(4) [of g "mb_region b" "\<lparr>rt_geometry = g, rt_host_id = h_host_id (fc_host c)\<rparr>"] g(3)
      by auto
    with C x Inr open_close_fds [OF o assms(3)] show ?thesis by simp
  qed
qed

lemma cmd_init_total:
  assumes "page_mapped S" "fresh_fds S"
  shows "\<exists>out w'. cmd_init E S path w = Inr (out, w') \<and> fds w' = fds w"
proof (cases "load_config E path")
  case (Inl out)
  then show ?thesis by (simp add: cmd_init_def)
next
  case (Inr c)
  obtain g where
    g: "geometry_new (p_capacity (fc_pool c)) (p_payload_size (fc_pool c)) (p_max_hosts (fc_pool c)) = Inr g" "geom_ok g"
    using config_geometry [OF load_config_ok [OF Inr]] by metis
  note C = runtime_open_cases [of "pool_config_of c True" g S w, simplified, OF g assms(1)]
  obtain x w1 where x: "mmap_backend_open S (p_path (fc_pool c)) (g_total_size g) w = (x, w1)" by fastforce
  show ?thesis
  proof (cases x)
    case Inl': (Inl e)
    with Inr C x open_error_fds [OF assms(2) x [unfolded Inl']] show ?thesis by (simp add: cmd_init_def)
  next
    case Inr': (Inr b)
    with Inr C x open_close_fds [OF x [unfolded Inr'] assms(2)] show ?thesis
      by (simp add: cmd_init_def runtime_drop_def)
  qed
qed

lemma cmd_recover_total:
  assumes "page_mapped S" "fresh_fds S"
  shows "\<exists>out w'. cmd_recover H E S path w = Inr (out, w') \<and> fds w' = fds w"
proof (cases "load_config E path")
  case (Inl out)
  then show ?thesis by (simp add: cmd_recover_def)
next
  case (Inr c)
  have "\<exists>ls m'. run (prog_bind (runtime_recover H rt) (\<lambda>report. Ret (recover_report report))) m = Inr (ls, m')"
    if "pool g m" "rt_geometry rt = g" "unat (rt_host_id rt) < hosts g" for g m rt
    using sim_runtime_recover [OF that refl, of H] by (auto simp: sim_def run_bind)
  from with_runtime_total [OF load_config_ok [OF Inr] assms this] Inr show ?thesis
    by (simp add: cmd_recover_def)
qed

lemma cmd_status_total:
  assumes "page_mapped S" "fresh_fds S"
  shows "\<exists>out w'. cmd_status E S path w = Inr (out, w') \<and> fds w' = fds w"
proof (cases "load_config E path")
  case (Inl out)
  then show ?thesis by (simp add: cmd_status_def)
next
  case (Inr c)
  have "\<exists>ls m'. run (status_prog c rt) m = Inr (ls, m')" if "pool g m" "rt_geometry rt = g" for g m rt
    using runs_status [OF that] by blast
  from with_runtime_total [OF load_config_ok [OF Inr] assms this] Inr show ?thesis
    by (simp add: cmd_status_def)
qed

lemma cmd_validate_total: "\<exists>out. cmd_validate E path w = Inr (out, w)"
  by (simp add: cmd_validate_def split: sum.split)

lemma fenced_main_total:
  assumes "page_mapped S" "fresh_fds S"
  shows "\<exists>out w'. fenced_main H E S cli w = Inr (out, w') \<and> fds w' = fds w"
proof -
  note total = cmd_init_total [OF assms] cmd_recover_total [OF assms] cmd_status_total [OF assms]
  show ?thesis
  proof (cases "cli_command cli")
    case None
    then show ?thesis by (simp add: fenced_main_def total)
  next
    case (Some cmd)
    then show ?thesis
      using cmd_validate_total [of E "resolve_path E (cli_config cli)" w]
      by (cases cmd) (auto simp: fenced_main_def total)
  qed
qed

section \<open>A new pool and its status\<close>

lemma open_error_kind: "mmap_backend_open S path sz w = (Inl e, w') \<Longrightarrow> \<exists>d. e = MmapFailed d"
  by (auto simp: mmap_backend_open_def Let_def split: if_splits sum.splits option.splits)

lemma stats_zero:
  assumes "\<And>h i. h < hosts g \<Longrightarrow> i < 7 \<Longrightarrow> l_metrics L h i = 0"
  shows "stats_spec g L = pool_stats_default"
proof -
  have "add_block pool_stats_default f = pool_stats_default" if "\<And>i. i < 7 \<Longrightarrow> f i = 0" for f
    using that by (simp add: add_block_def pool_stats_default_def)
  moreover have "sum_metric L [0..<hosts g] i = 0" if "i < 7" for i
  proof -
    have "(\<Sum>h\<leftarrow>hs. l_metrics L h i) = 0" if "\<forall>h\<in>set hs. h < hosts g" for hs
      using that assms [OF _ \<open>i < 7\<close>] by (induction hs) simp_all
    then show ?thesis by (simp add: sum_metric_def)
  qed
  ultimately show ?thesis unfolding stats_spec_def by blast
qed

lemma init_status:
  assumes "load_config E path = Inr c" "page_mapped S"
    and "files w (p_path (fc_pool c)) = None"
    and "cmd_init E S path w = Inr (out, w1)" "exit_code out = 0"
    and "cmd_status E S path w1 = Inr (out2, w2)"
  shows "(\<exists>d. out2 = error_output (str (''error opening pool: '' @ fence_error_display (MmapFailed d)))) \<or>
    out2 = ok_output (status_report c (p_capacity (fc_pool c)) pool_stats_default 0 0)"
proof -
  note cok = load_config_ok [OF assms(1)]
  obtain g where
    g: "geometry_new (p_capacity (fc_pool c)) (p_payload_size (fc_pool c)) (p_max_hosts (fc_pool c)) = Inr g"
    "geom_ok g" "g_capacity g = p_capacity (fc_pool c)"
    using config_geometry [OF cok] by metis
  let ?p = "p_path (fc_pool c)"
  let ?rt = "\<lparr>rt_geometry = g, rt_host_id = h_host_id (fc_host c)\<rparr>" and ?H = "undefined :: unit hasher"
  obtain rt b w' where o: "runtime_open S (pool_config_of c True) w = Inr (Inr (rt, b), w')"
    "w1 = runtime_drop (rt, b) w'"
    using assms(1,4,5) by (auto simp: cmd_init_def error_output_def split: sum.splits prod.splits)
  note cr = created_in_use [of "pool_config_of c True" g S w, simplified, OF g(1,2) assms(2) o(1)]
  then obtain b0 where b0: "mmap_backend_open S ?p (g_total_size g) w = (Inr b0, w')"
    "mb_region b = flushed ((mb_region b0)\<lparr>cache := fresh_header (pool_config_of c True) g (cache (mb_region b0))\<rparr>) 0 64"
    by blast
  have zero: "cache (mb_region b0) = (\<lambda>_. 0)" using open_ok(6) [OF b0(1)] assms(3) by simp
  let ?L = "abs_log ?H g (cache (mb_region b))"
  have L: "?L = (abs_log ?H g (\<lambda>_. 0))\<lparr>l_tail := 0, l_reserve := 0\<rparr>"
    using g(2) by (simp add: b0(2) zero abs_log_fresh)
  have z64: "get64 (\<lambda>_. 0) a = 0" for a
  proof -
    have "from_le (replicate n 0) = (0 :: u64)" for n by (induction n) simp_all
    then show ?thesis by (simp add: get64_def peek_def map_replicate_const)
  qed
  have st: "stats_spec g ?L = pool_stats_default"
    by (rule stats_zero, unfold L) (simp add: abs_log_def z64)
  have "l_tail ?L = 0" "l_reserve ?L = 0" unfolding L by simp_all
  then have tails: "get64 (cache (mb_region b)) 32 = 0" "get64 (cache (mb_region b)) 40 = 0" by simp_all
  have iu: "in_use g ?p b w'" using cr(2) by simp
  obtain x w3 where x: "mmap_backend_open S ?p (g_total_size g) w1 = (x, w3)" by fastforce
  note C = with_runtime_cases [OF cok assms(2) g(1,2) refl, of "status_prog c" w1]
  have status: "cmd_status E S path w1 = with_runtime S c (status_prog c) w1"
    using assms(1) by (simp add: cmd_status_def)
  show ?thesis
  proof (cases x)
    case (Inl e)
    with open_error_kind [of S ?p "g_total_size g" w1] x obtain d where "e = MmapFailed d" by blast
    with C x Inl status assms(6) show ?thesis by auto
  next
    case (Inr b')
    note x' = x [unfolded Inr o(2) runtime_drop_def snd_conv]
    have "get64 (cache (mb_region b')) 0 = MAGIC" using reopen_log(2) [OF iu x'] cr(3) by simp
    moreover have L': "abs_log ?H g (cache (mb_region b')) = ?L" by (rule reopen_log(1) [OF iu x'])
    moreover have "get64 (cache (mb_region b')) 32 = 0" "get64 (cache (mb_region b')) 40 = 0"
      using arg_cong [OF L', of l_tail] arg_cong [OF L', of l_reserve] tails by simp_all
    ultimately show ?thesis
      using C x Inr status assms(6) g(3) st
        runs_status [OF open_pool [OF x [unfolded Inr] assms(2) g(2)], of ?rt c ?H]
      by auto
  qed
qed

end
