(* ===== verification/SystemProps.thy ===== *)
theory SystemProps
  imports Fenced Demo
begin

text \<open>
  The properties of the configuration, of opening and closing pool files and of the daemon's
  commands, with witnesses on a small machine: no file, no open descriptor, calls that
  succeed, and a configuration that asks for the pool of theory Demo.
\<close>

definition demo_os :: os where
  "demo_os =
     \<lparr>os_open = (\<lambda>w path. if fds w 3 = None then Inr 3 else Inl ''Too many open files''),
      os_ftruncate = (\<lambda>w fd sz. None),
      os_mmap = (\<lambda>w fd sz. if unat sz \<le> 1048576 then Inr 4096 else Inl ''Cannot allocate memory''),
      os_arch = X86_64\<rparr>"

definition demo_machine :: machine where
  "demo_machine = \<lparr>files = (\<lambda>_. None), fds = (\<lambda>_. None)\<rparr>"

definition demo_raw :: raw_config where
  "demo_raw =
     \<lparr>raw_pool = \<lparr>rp_path = str ''/p'', rp_capacity = Some 4, rp_payload_size = Some 16,
                  rp_max_hosts = Some 2\<rparr>,
      raw_host = None, raw_overflow = None, raw_recovery = None\<rparr>"

definition demo_env :: env where
  "demo_env = \<lparr>env_fence_config = None, env_read = (\<lambda>_. Some []), toml_parse = (\<lambda>_. Inr demo_raw)\<rparr>"

lemma demo_os_ok [simp]: "page_mapped demo_os" "fresh_fds demo_os"
  by (auto simp: page_mapped_def fresh_fds_def demo_os_def split: if_splits)

lemma utf8_Nil_valid [simp]: "utf8_valid []"
  by (subst utf8_valid.simps) simp

lemma demo_load: "load_config demo_env path = Inr (fill demo_raw)"
  by (simp add: load_config_def from_file_def from_str_def demo_env_def Let_def validate_def fill_def
      fill_pool_def demo_raw_def or_default_def host_section_default_def overflow_section_default_def
      default_consts valid_strategies_def)

lemma demo_fill [simp]:
  "p_path (fc_pool (fill demo_raw)) = str ''/p''" "p_capacity (fc_pool (fill demo_raw)) = 4"
  "p_payload_size (fc_pool (fill demo_raw)) = 16" "p_max_hosts (fc_pool (fill demo_raw)) = 2"
  "h_host_id (fc_host (fill demo_raw)) = 0"
  by (simp_all add: fill_def fill_pool_def demo_raw_def or_default_def host_section_default_def default_consts)

lemma demo_pool_config: "pool_config_of (fill demo_raw) b = (demo_config b)"
  by (simp add: pool_config_of_def demo_config_def str_def)

lemma demo_open:
  assumes "fds w 3 = None"
  shows "\<exists>b. mmap_backend_open demo_os (str ''/p'') 512 w =
    (Inr b, set_file 3 (resize 512) (do_open (str ''/p'') 3 w)) \<and> mb_fd b = 3"
proof -
  have "utf8_valid (str ''/p'')" "0 \<notin> set (str ''/p'')"
    by (simp_all add: str_def utf8_valid_ascii)
  then show ?thesis using assms by (simp add: mmap_backend_open_def demo_os_def Let_def)
qed

text \<open>On this machine opening is never refused.\<close>

lemma demo_runtime_open:
  assumes "fds w 3 = None"
  obtains r w' where "runtime_open demo_os (demo_config create) w = Inr (r, w')"
    "\<And>d. r \<noteq> Inl (MmapFailed d)" "create \<Longrightarrow> \<exists>b. r = Inr (demo_runtime, b)"
proof -
  obtain b where b: "mmap_backend_open demo_os (str ''/p'') 512 w =
      (Inr b, set_file 3 (resize 512) (do_open (str ''/p'') 3 w))"
    using demo_open [OF assms] by blast
  have g: "geometry_new (pc_capacity (demo_config create)) (pc_payload_size (demo_config create))
      (pc_max_hosts (demo_config create)) = Inr demo_geometry"
    using demo_geometry_new by (simp add: demo_config_def)
  have path: "pc_path (demo_config create) = str ''/p''" by (simp add: demo_config_def str_def)
  have c: "pc_create (demo_config create) = create" "pc_host_id (demo_config create) = 0"
    by (simp_all add: demo_config_def)
  note C = runtime_open_cases [OF g demo_pool(3) demo_os_ok(1), of w, unfolded path demo_sel b prod.case sum.case c]
  have "\<exists>r w'. runtime_open demo_os (demo_config create) w = Inr (r, w') \<and>
      (\<forall>d. r \<noteq> Inl (MmapFailed d)) \<and> (create \<longrightarrow> (\<exists>b. r = Inr (demo_runtime, b)))"
    unfolding C by (simp add: demo_runtime_def)
  then show thesis using that by blast
qed

lemma demo_created:
  obtains b w1 where "runtime_open demo_os (demo_config True) demo_machine = Inr (Inr (demo_runtime, b), w1)"
    "pool demo_geometry (mb_region b)"
    "\<forall>m. fds (runtime_drop (demo_runtime, b\<lparr>mb_region := m\<rparr>) w1) 3 = None"
proof -
  have "fds demo_machine 3 = None" by (simp add: demo_machine_def)
  then obtain b w1 where b: "runtime_open demo_os (demo_config True) demo_machine = Inr (Inr (demo_runtime, b), w1)"
    by (rule demo_runtime_open [where create = True]) (use that in blast)
  have g: "geometry_new (pc_capacity (demo_config True)) (pc_payload_size (demo_config True))
      (pc_max_hosts (demo_config True)) = Inr demo_geometry"
    using demo_geometry_new by (simp add: demo_config_def)
  from runtime_open_fds [OF g demo_pool(3) demo_os_ok b] show thesis
    by (intro that [OF b]) (auto simp: runtime_drop_def demo_machine_def)
qed

section \<open>Configuration\<close>

text \<open>
  \<open>validate\<close> accepts exactly the configurations with a positive capacity, a positive
  payload size of at most 65536 that is a multiple of 8, between 1 and 256 hosts, a host id
  below that, and one of the three overflow strategies.
\<close>
theorem validate_accepts:
  "validate c = Inr () \<longleftrightarrow>
     0 < unat (p_capacity (fc_pool c)) \<and>
     0 < unat (p_payload_size (fc_pool c)) \<and> unat (p_payload_size (fc_pool c)) \<le> 65536 \<and>
     unat (p_payload_size (fc_pool c)) mod 8 = 0 \<and>
     0 < unat (p_max_hosts (fc_pool c)) \<and> unat (p_max_hosts (fc_pool c)) \<le> 256 \<and>
     unat (h_host_id (fc_host c)) < unat (p_max_hosts (fc_pool c)) \<and>
     o_strategy (fc_overflow c) \<in> {''error'', ''segmented'', ''circular''}"
  by (simp add: validate_ok config_ok_def)



section \<open>Pool files\<close>

text \<open>
  C27: what a runtime left in a pool file is what the next one finds: after creating a pool,
  any session of operations and closing it, opening the file again either is refused by the
  operating system or gives the same geometry and the same log, counters included.
\<close>
theorem reopen_same_log:
  assumes "geometry_new (pc_capacity config) (pc_payload_size config) (pc_max_hosts config) = Inr g"
    and "geom_ok g" "page_mapped S" "pc_create config"
    and "runtime_open S config w = Inr (Inr (rt, b), w1)"
    and "run (session H g ops) (mb_region b) = Inr (outs, m)"
    and "runtime_open S (config\<lparr>pc_create := False\<rparr>) (runtime_drop (rt, b\<lparr>mb_region := m\<rparr>) w1) = Inr (r, w2)"
  shows "(\<exists>d. r = Inl (MmapFailed d)) \<or>
    (\<exists>b'. r = Inr (rt, b') \<and> abs_log H g (cache (mb_region b')) = abs_log H g (cache m))"
proof -
  note cr = created_in_use [OF assms(1-5)]
  let ?b = "b\<lparr>mb_region := m\<rparr>" and ?c = "config\<lparr>pc_create := False\<rparr>"
  have p: "pool g (mb_region b)" "mapped (mb_region b)" using cr(2) by (simp_all add: in_use_def pool_def)
  have "pool g m" by (rule crash_reach_pool [OF run_crash_reach [OF assms(6)] p(1)])
  then have iu: "in_use g (pc_path config) ?b w1" by (rule in_use_region [OF cr(2)])
  then have magic: "get64 (cache m) 0 = MAGIC" using session_magic [OF assms(6) p(2)] cr(3) by simp
  have g': "geometry_new (pc_capacity ?c) (pc_payload_size ?c) (pc_max_hosts ?c) = Inr g"
    using assms(1) by simp
  obtain x w3 where x: "mmap_backend_open S (pc_path config) (g_total_size g)
      (mmap_backend_drop ?b w1) = (x, w3)" by fastforce
  note C = runtime_open_cases [OF g' assms(2,3), of "mmap_backend_drop ?b w1", simplified, unfolded x]
  show ?thesis
  proof (cases x)
    case (Inl e)
    with open_error_kind x C assms(7) show ?thesis by (fastforce simp: runtime_drop_def)
  next
    case (Inr b')
    note x' = x [unfolded Inr]
    have "get64 (cache (mb_region b')) 0 = MAGIC" using reopen_log(2) [OF iu x'] magic by simp
    with C Inr assms(7) reopen_log(1) [OF iu x', of H] cr(1) show ?thesis
      by (auto simp: runtime_drop_def)
  qed
qed

theorem reopen_same_log_witness:
  "\<exists>b w1 b' w2. runtime_open demo_os (demo_config True) demo_machine = Inr (Inr (demo_runtime, b), w1) \<and>
     runtime_open demo_os (demo_config False) (runtime_drop (demo_runtime, b) w1) =
       Inr (Inr (demo_runtime, b'), w2) \<and>
     abs_log demo_hasher demo_geometry (cache (mb_region b')) =
     abs_log demo_hasher demo_geometry (cache (mb_region b))"
proof -
  obtain b w1 where b: "runtime_open demo_os (demo_config True) demo_machine = Inr (Inr (demo_runtime, b), w1)"
    "pool demo_geometry (mb_region b)" "\<forall>m. fds (runtime_drop (demo_runtime, b\<lparr>mb_region := m\<rparr>) w1) 3 = None"
    by (rule demo_created)
  have c: "(demo_config True)\<lparr>pc_create := False\<rparr> = demo_config False" "pc_create (demo_config True)"
    "geometry_new (pc_capacity (demo_config True)) (pc_payload_size (demo_config True))
      (pc_max_hosts (demo_config True)) = Inr demo_geometry"
    using demo_geometry_new by (simp_all add: demo_config_def)
  obtain r w2 where r: "runtime_open demo_os (demo_config False)
      (runtime_drop (demo_runtime, b\<lparr>mb_region := mb_region b\<rparr>) w1) = Inr (r, w2)"
    "\<And>d. r \<noteq> Inl (MmapFailed d)"
    by (rule demo_runtime_open [where create = False, OF spec [OF b(3), of "mb_region b"]]) blast
  have s: "run (session demo_hasher demo_geometry []) (mb_region b) = Inr ([], mb_region b)" by simp
  from reopen_same_log [OF c(3) demo_pool(3) demo_os_ok(1) c(2) b(1) s, of r w2] r b(1) show ?thesis
    by (auto simp: c(1))
qed

section \<open>The daemon\<close>



text \<open>
  C29: after \<open>fenced init\<close> succeeded on a file that did not exist, \<open>fenced status\<close> prints a
  committed tail and a reserve tail of zero, the configured capacity and seven counters of
  zero, unless the operating system refuses to open the file.
\<close>
theorem init_then_status:
  assumes "load_config E path = Inr c" "page_mapped S" "files w (p_path (fc_pool c)) = None"
    and "cmd_init E S path w = Inr (out, w1)" "exit_code out = 0"
    and "cmd_status E S path w1 = Inr (out2, w2)"
  shows "(\<exists>d. out2 = error_output (str (''error opening pool: '' @ fence_error_display (MmapFailed d)))) \<or>
    out2 = ok_output (status_report c (p_capacity (fc_pool c)) pool_stats_default 0 0)"
  using assms by (rule init_status)

theorem init_then_status_witness:
  "\<exists>out w1 out2 w2. cmd_init demo_env demo_os [] demo_machine = Inr (out, w1) \<and>
     cmd_status demo_env demo_os [] w1 = Inr (out2, w2) \<and>
     (exit_code out2 = 1 \<or> out_lines out2 ! 1 = print_word ''  committed_tail: '' (0 :: u64))"
proof -
  obtain b w1 where b: "runtime_open demo_os (demo_config True) demo_machine = Inr (Inr (demo_runtime, b), w1)"
    "pool demo_geometry (mb_region b)" "\<forall>m. fds (runtime_drop (demo_runtime, b\<lparr>mb_region := m\<rparr>) w1) 3 = None"
    by (rule demo_created)
  then have init: "cmd_init demo_env demo_os [] demo_machine =
      Inr (ok_output (init_report (fill demo_raw) demo_geometry), runtime_drop (demo_runtime, b) w1)"
    by (simp add: cmd_init_def demo_load demo_pool_config)
  obtain out2 w2 where st: "cmd_status demo_env demo_os [] (runtime_drop (demo_runtime, b) w1) = Inr (out2, w2)"
    using cmd_status_total [OF demo_os_ok] by blast
  from init_then_status [OF demo_load demo_os_ok(1) _ init _ st] init st show ?thesis
    by (auto simp: demo_machine_def ok_output_def error_output_def status_report_def)
qed

text \<open>
  C30: \<open>fenced status\<close> on a path where there is no file does not just report an error: it
  creates the file with the full size of the pool (unless the operating system refuses), and
  what it reports is that a file of zeros is not a pool.
\<close>
theorem status_creates_missing_file:
  assumes "load_config E path = Inr c" "page_mapped S" "files w (p_path (fc_pool c)) = None"
    and "geometry_new (p_capacity (fc_pool c)) (p_payload_size (fc_pool c)) (p_max_hosts (fc_pool c)) = Inr g"
    and "cmd_status E S path w = Inr (out, w')"
  shows "exit_code out = 1 \<and>
    ((\<exists>d. err_lines out = [str (''error opening pool: '' @ fence_error_display (MmapFailed d))]) \<or>
     (err_lines out = [str (''error opening pool: '' @ fence_error_display (InvalidMagic MAGIC 0))] \<and>
      (\<exists>f. files w' (p_path (fc_pool c)) = Some f \<and> f_len f = unat (g_total_size g))))"
proof -
  note cok = load_config_ok [OF assms(1)]
  have g: "geom_ok g" using config_geometry [OF cok] assms(4) by (metis sum.inject(2))
  let ?p = "p_path (fc_pool c)"
  obtain x w1 where x: "mmap_backend_open S ?p (g_total_size g) w = (x, w1)" by fastforce
  note C = with_runtime_cases [OF cok assms(2,4) g refl, of "status_prog c" w, unfolded x]
  have st: "with_runtime S c (status_prog c) w = Inr (out, w')" using assms(1,5) by (simp add: cmd_status_def)
  show ?thesis
  proof (cases x)
    case (Inl e)
    with open_error_kind x obtain d where "e = MmapFailed d" by blast
    with C Inl st show ?thesis by (auto simp: error_output_def)
  next
    case (Inr b)
    note o = x [unfolded Inr]
    have "cache (mb_region b) = zeros" using open_ok(6) [OF o] assms(3) by simp
    with C Inr st have out: "out = error_output (str (''error opening pool: '' @ fence_error_display (InvalidMagic MAGIC 0)))"
      "w' = mmap_backend_drop b w1"
      by (simp_all add: MAGIC_def)
    from open_ok(3,4) [OF o] show ?thesis
      by (simp add: out error_output_def drop_files)
  qed
qed

theorem status_creates_missing_file_witness:
  "\<exists>out w'. cmd_status demo_env demo_os [] demo_machine = Inr (out, w') \<and> exit_code out = 1"
proof -
  obtain out w' where st: "cmd_status demo_env demo_os [] demo_machine = Inr (out, w')"
    using cmd_status_total [OF demo_os_ok] by blast
  from status_creates_missing_file [OF demo_load demo_os_ok(1) _ _ st, of demo_geometry] st show ?thesis
    by (auto simp: demo_machine_def demo_geometry_new)
qed

end
