(* ===== verification/PowerLoss.thy ===== *)
theory PowerLoss
  imports Reopen Batch
begin

text \<open>
  The whole way: a pool is created in a new file, hosts append, the power fails, the file is
  opened again and recovered.
\<close>

lemma fresh_header_behind: "64 \<le> x \<Longrightarrow> fresh_header config g c x = c x"
  by (simp add: fresh_header_def put64_out)

text \<open>A pool created in a new file is a stable empty log, and its header is on the media.\<close>

lemma created_stable:
  assumes "geometry_new (pc_capacity config) (pc_payload_size config) (pc_max_hosts config) = Inr g"
    and "geom_ok g" "page_mapped S" "pc_create config" "os_arch S = X86_64" "files w (pc_path config) = None"
    and "runtime_open S config w = Inr (Inr (rt, b), w1)"
  shows "stable H g 0 (abs_log H g (cache (mb_region b))) (mb_region b)"
    and "l_tail (abs_log H g (cache (mb_region b))) = 0"
    and "x < 64 \<Longrightarrow> media (mb_region b) x = cache (mb_region b) x"
proof -
  note cr = created_in_use [OF assms(1-4,7)]
  obtain b0 where b0: "mmap_backend_open S (pc_path config) (g_total_size g) w = (Inr b0, w1)"
    "mb_region b = flushed ((mb_region b0)\<lparr>cache := fresh_header config g (cache (mb_region b0))\<rparr>) 0 64"
    using cr(5) by blast
  let ?m = "(mb_region b0)\<lparr>cache := fresh_header config g (cache (mb_region b0))\<rparr>"
  have zero: "cache (mb_region b0) = (\<lambda>_. 0)" "media (mb_region b0) = (\<lambda>_. 0)"
    using open_ok(6,7) [OF b0(1)] assms(6) by simp_all
  have p: "pool g ?m" using open_pool [OF b0(1) assms(3,2)] by simp
  have arch: "mm_arch ?m = X86_64" using open_ok(2) [OF b0(1)] assms(5) by simp
  have len: "unat (0 :: usize) + unat (64 :: usize) \<le> unat (mm_len ?m)"
    using pool_header_bounds [OF p] by simp
  show hdr: "media (mb_region b) x = cache (mb_region b) x" if "x < 64" for x
    using media_flush_covers [OF arch poolD(4) [OF p] len, of x] that by (simp add: b0(2) flushed_def)
  show tail: "l_tail (abs_log H g (cache (mb_region b))) = 0"
    by (simp add: b0(2) fresh_header_fields)
  have inv: "settled g (abs_log H g (cache (mb_region b)))"
    using fresh_log_inv [OF assms(2), of "cache (mb_region b0)" H config] zero(1)
    by (simp add: settled_def b0(2) fresh_header_fields)
  have "media (mb_region b) (rec_base g s) \<noteq> STATE_COMMITTED" for s
  proof -
    have "media (flushed ?m 0 64) (rec_base g s) \<in> {cache ?m (rec_base g s), media ?m (rec_base g s)}"
      unfolding flushed_def by (rule media_flush_either [OF poolD(4) [OF p] len])
    then have "media (mb_region b) (rec_base g s) = 0"
      using rec_base_ge [of g s] by (auto simp: b0(2) zero fresh_header_behind)
    then show ?thesis by (simp add: STATE_COMMITTED_def)
  qed
  moreover have "line_aligned (mb_region b)"
  proof -
    have "4096 dvd unat (mm_ptr (mb_region b))" using cr(4) by (simp add: mod_eq_0_iff_dvd)
    then have "64 dvd unat (mm_ptr (mb_region b))" by (rule dvd_trans [rotated]) simp
    moreover have "mapped (mb_region b)" using p by (simp add: b0(2) pool_def)
    ultimately show ?thesis by (simp add: line_aligned_def mod_eq_0_iff_dvd)
  qed
  moreover have "pool g (mb_region b)" "mm_arch (mb_region b) = X86_64"
    using p arch by (simp_all add: b0(2))
  ultimately show "stable H g 0 (abs_log H g (cache (mb_region b))) (mb_region b)"
    using inv tail by (simp add: stable_def tail_from_def)
qed

lemma session_header_media:
  assumes "crash_reach (session H g ops) m p' m'" "mapped m" "\<And>x. x < 64 \<Longrightarrow> media m x = cache m x"
  shows "get64 (media m') 0 = get64 (cache m) 0"
  using crash_reach_frame [OF assms(1) session_footprint assms(2)] assms(3)
  by (intro get64_cong) (auto simp: frame_def)

lemma batch_reopened:
  assumes "geometry_new (pc_capacity config) (pc_payload_size config) (pc_max_hosts config) = Inr g"
    and "geom_ok g" "page_mapped S" "pc_create config" "os_arch S = X86_64" "files w (pc_path config) = None"
    and "runtime_open S config w = Inr (Inr (rt, b), w1)" "unat (pc_host_id config) < hosts g"
    and "list_all (entry_fits g) as" "length as \<le> cap g" "list_all (\<lambda>(h, _). unat h < hosts g) as"
    and "crash_reach (session H g (map append_op as)) (mb_region b) (Ret rs) m'"
    and "runtime_open S (config\<lparr>pc_create := False\<rparr>) (power_loss (b\<lparr>mb_region := m'\<rparr>) w1) = Inr (r, w2)"
    and "i < length as"
  shows "rs ! i = RAppend (Inr (word_of_nat (i + 1))) \<and>
    ((\<exists>d. r = Inl (MmapFailed d)) \<or>
     (\<exists>b' rep m1 m2. r = Inr (rt, b') \<and>
        run (runtime_recover H rt) (mb_region b') = Inr (rep, m1) \<and>
        run (read H rt (word_of_nat (i + 1))) m1 = Inr (Inr (Some (entry_record (as ! i) i)), m2)))"
proof -
  note cr = created_in_use [OF assms(1-4,7)]
  note st = created_stable(1) [OF assms(1-7), where H = H] created_stable(2) [OF assms(1-7), where H = H]
    created_stable(3) [OF assms(1-7)]
  let ?L = "abs_log H g (cache (mb_region b))" and ?b = "b\<lparr>mb_region := m'\<rparr>" and ?c = "config\<lparr>pc_create := False\<rparr>"
  let ?R = "fold (log_add g) as ?L"
  have st0: "stable H g (unat (l_tail ?L)) ?L (mb_region b)" using st(1,2) by simp
  have fit: "unat (l_tail ?L) + length as \<le> cap g" using assms(10) st(2) by simp
  have rt: "rt_geometry rt = g" "unat (rt_host_id rt) < hosts g" using cr(1) assms(8) by simp_all
  have ack: "rs ! i = RAppend (Inr (word_of_nat (i + 1)))"
    using batch_recovered(1) [OF st0 assms(9) fit assms(11) rt assms(12,14)] st(2) by simp
  have end_st: "stable H g 0 ?R m'"
    using crash_specD(2) [OF stable_session [OF st(1) assms(9) fit assms(11)] refl assms(12)] by simp
  have L: "settled g ?L" using st(1) by (simp add: stable_def)
  have tailR: "unat (l_tail ?R) = length as"
    using log_store.add_all_inv [OF L assms(9) fit] st(2) by simp
  have p: "mapped (mb_region b)" "pool g m'" using st(1) end_st by (simp_all add: stable_def pool_def)
  have iu: "in_use g (pc_path config) ?b w1" by (rule in_use_region [OF cr(2) p(2)])
  have tot: "64 \<le> unat (g_total_size g)" using assms(2) by (simp add: geom_ok_def geom_wf_def)
  obtain x w3 where x: "mmap_backend_open S (pc_path config) (g_total_size g) (power_loss ?b w1) = (x, w3)"
    by fastforce
  have g': "geometry_new (pc_capacity ?c) (pc_payload_size ?c) (pc_max_hosts ?c) = Inr g"
    using assms(1) by simp
  note C = runtime_open_cases [OF g' assms(2,3), of "power_loss ?b w1", simplified, unfolded x]
  show ?thesis
  proof (cases x)
    case (Inl e)
    then obtain d where "e = MmapFailed d"
      using x by (auto simp: mmap_backend_open_def Let_def split: if_splits sum.splits option.splits)
    with C Inl assms(13) ack show ?thesis by auto
  next
    case (Inr b')
    note x' = x [unfolded Inr]
    note reg = power_loss_region [OF iu x', simplified]
    have "get64 (cache (mb_region b')) 0 = get64 (media m') 0"
      by (rule get64_cong) (use reg tot in simp)
    then have magic: "get64 (cache (mb_region b')) 0 = MAGIC"
      using session_header_media [OF assms(12) p(1) st(3)] cr(3) by simp
    have pb: "pool g (mb_region b')" by (rule open_pool [OF x' assms(3,2)])
    have "slot_view H g (cache (mb_region b')) s = SCommitted (entry_record (as ! s) s)" if "s < length as" for s
    proof -
      have s: "s < cap g" using that assms(10) by simp
      have wf: "geom_wf g" using assms(2) by (simp add: geom_ok_def)
      have "slot_view H g (cache (mb_region b')) s = slot_view H g (media m') s"
        by (rule slot_view_cong [OF geom_okD(4) [OF assms(2)]])
          (use reg rec_end_le_total [OF wf s] in auto)
      also have "\<dots> = l_slots ?R ! s" using stable_media [OF end_st s] that tailR by simp
      also have "\<dots> = SCommitted (entry_record (as ! s) s)"
        using log_store.add_all_new [OF L assms(9) fit that] st(2)
        by (simp add: log_lookup_def split: slot_view.splits)
      finally show ?thesis .
    qed
    then obtain rep m1 m2 where "run (runtime_recover H rt) (mb_region b') = Inr (rep, m1)"
      "run (read H rt (word_of_nat (i + 1))) m1 = Inr (Inr (Some (entry_record (as ! i) i)), m2)"
      using recover_reads [OF pb rt, of 0 "length as" H "\<lambda>s. entry_record (as ! s) s" i] assms(10,14)
      by auto
    moreover have "r = Inr (rt, b')"
      using C Inr assms(13) magic cr(1) by simp
    ultimately show ?thesis using ack by blast
  qed
qed

end
