(* ===== verification/DurableProps.thy ===== *)
theory DurableProps
  imports PowerLoss SystemProps
begin








end
