(* ===== verification/ConcSteps.thy ===== *)
theory ConcSteps
  imports ConcState
begin

text \<open>
  What a thread relies on and the steps it takes: for each kind of backend call, the shared
  state after it satisfies the invariant and is one the other threads rely on.
\<close>

section \<open>Relies\<close>

text \<open>The bytes of slot \<open>w\<close> are kept, and those that are on the media stay there.\<close>

definition kept :: "pool_geometry \<Rightarrow> nat \<Rightarrow> mmap \<Rightarrow> mmap \<Rightarrow> bool" where
  "kept g w m n \<longleftrightarrow> (\<forall>x\<in>insert (rec_base g w) (rec_region g w).
     cache n x = cache m x \<and> (media m x = cache m x \<longrightarrow> media n x = cache m x))"

definition evolve :: "pool_geometry \<Rightarrow> ghost \<Rightarrow> ghost \<Rightarrow> bool" where
  "evolve g s t \<longleftrightarrow> g_own s \<subseteq>\<^sub>m g_own t \<and> tail_at (gc s) \<le> tail_at (gc t) \<and>
     (\<forall>w<cap g. done_at g (gc s) w \<longrightarrow> kept g w (g_mem s) (g_mem t))"

definition rely :: "pool_geometry \<Rightarrow> nat \<Rightarrow> ghost \<Rightarrow> ghost \<Rightarrow> bool" where
  "rely g i s t \<longleftrightarrow> evolve g s t \<and>
     (\<forall>w k. g_own t w = Some (i, k) \<longrightarrow> g_own s w = Some (i, k)) \<and>
     (\<forall>w<cap g. \<forall>k. g_own s w = Some (i, k) \<longrightarrow> kept g w (g_mem s) (g_mem t)) \<and>
     (i \<in> g_undo t \<longleftrightarrow> i \<in> g_undo s) \<and> g_adv t i = g_adv s i"

lemma kept_refl [simp]: "kept g w m m"
  by (simp add: kept_def)

lemma kept_trans: "kept g w m n \<Longrightarrow> kept g w n k \<Longrightarrow> kept g w m k"
  by (simp add: kept_def)

lemma kept_done: "kept g w m n \<Longrightarrow> done_at g (cache n) w = done_at g (cache m) w"
  by (simp add: kept_def done_at_def)

lemma kept_same: "kept g w m n \<Longrightarrow> same_rec g w (cache m) (cache n)"
  by (simp add: kept_def same_rec_def)

lemma kept_synced: "kept g w m n \<Longrightarrow> synced g m w \<Longrightarrow> synced g n w"
  by (simp add: kept_def synced_def)

lemma base_in_region: "geom_ok g \<Longrightarrow> rec_base g w \<in> rec_region g w"
  using geom_okD(4) [of g] by (simp add: rec_region_def)

lemma kept_off:
  assumes "geom_ok g" "agree_off B (cache m) (cache n)" "rec_region g w \<inter> B = {}" "media n = media m"
  shows "kept g w m n"
  using assms base_in_region [OF assms(1), of w] by (auto simp: kept_def agree_off_def)

lemma kept_media:
  assumes "cache n = cache m" "\<And>x. media n x = media m x \<or> media n x = cache m x"
  shows "kept g w m n"
  using assms by (auto simp: kept_def) metis+

lemma evolve_refl: "evolve g s s"
  by (simp add: evolve_def)

lemma evolve_trans: "evolve g s t \<Longrightarrow> evolve g t u \<Longrightarrow> evolve g s u"
  unfolding evolve_def by (meson kept_done kept_trans le_trans map_le_trans)

lemma rely_trans:
  assumes "rely g i s t" "rely g i t u"
  shows "rely g i s u"
proof -
  have own: "g_own t w = Some (i, k)" if "g_own s w = Some (i, k)" for w k
    using assms(1) that unfolding rely_def evolve_def map_le_def by (metis domI)
  have "kept g w (g_mem s) (g_mem u)" if w: "w < cap g" "g_own s w = Some (i, k)" for w k
    by (rule kept_trans [of _ _ _ "g_mem t"]) (use assms w own [OF w(2)] in \<open>auto simp: rely_def\<close>)
  moreover have "evolve g s u" using assms evolve_trans by (simp add: rely_def) blast
  ultimately show ?thesis using assms by (simp add: rely_def)
qed

lemma pool_same_map: "same_map m n \<Longrightarrow> pool g n = pool g m"
  by (simp add: pool_def mapped_def same_map_def)

lemma conc_inv_evict:
  assumes "conc_inv H g b N s"
  shows "conc_inv H g b N (s\<lparr>g_mem := write_back l (g_mem s)\<rparr>)"
  using assms pool_same_map [of "g_mem s" "write_back l (g_mem s)" g]
  by (simp add: conc_inv_def same_map_def)

lemma rely_media:
  assumes "cache n = gc s" "\<And>x. media n x = media (g_mem s) x \<or> media n x = gc s x"
  shows "rely g i s (s\<lparr>g_mem := n\<rparr>)"
  using kept_media [OF assms] assms(1) by (simp add: rely_def evolve_def)

interpretation conc: interference g_mem "conc_inv H g b N" "rely g" "evolve g" for H g b N
proof unfold_locales
  fix i s t u l
  show "rely g i s s" by (simp add: rely_def evolve_refl)
  show "rely g i s t \<Longrightarrow> rely g i t u \<Longrightarrow> rely g i s u" by (rule rely_trans)
  show "rely g i s t \<Longrightarrow> evolve g s t" by (simp add: rely_def)
  show "\<exists>t. g_mem t = write_back l (g_mem s) \<and> conc_inv H g b N t \<and> (\<forall>i. rely g i s t)"
    if "conc_inv H g b N s"
    by (rule exI [of _ "s\<lparr>g_mem := write_back l (g_mem s)\<rparr>"])
      (use conc_inv_evict [OF that] in \<open>auto simp: write_back_def intro!: rely_media\<close>)
qed

abbreviation ctriple ::
    "'h hasher \<Rightarrow> pool_geometry \<Rightarrow> bytes \<Rightarrow> nat \<Rightarrow> nat \<Rightarrow> (ghost \<Rightarrow> bool) \<Rightarrow> 'a prog \<Rightarrow> ('a \<Rightarrow> ghost \<Rightarrow> bool) \<Rightarrow> bool" where
  "ctriple H g b N \<equiv> triple g_mem (conc_inv H g b N) (rely g)"

abbreviation ckeeps :: "'h hasher \<Rightarrow> pool_geometry \<Rightarrow> bytes \<Rightarrow> nat \<Rightarrow> nat \<Rightarrow> (ghost \<Rightarrow> bool) \<Rightarrow> bool" where
  "ckeeps H g b N i \<equiv> keeps (conc_inv H g b N) (rely g i)"

abbreviation guar :: "pool_geometry \<Rightarrow> nat \<Rightarrow> ghost \<Rightarrow> ghost \<Rightarrow> bool" where
  "guar g i s u \<equiv> \<forall>j. j \<noteq> i \<longrightarrow> rely g j s u"

lemma guarI:
  assumes "g_own s \<subseteq>\<^sub>m g_own u" "tail_at (gc s) \<le> tail_at (gc u)"
    and "\<And>j w k. j \<noteq> i \<Longrightarrow> g_own u w = Some (j, k) \<Longrightarrow> g_own s w = Some (j, k)"
    and "\<And>w. w < cap g \<Longrightarrow> done_at g (gc s) w \<or> (\<exists>j k. j \<noteq> i \<and> g_own s w = Some (j, k)) \<Longrightarrow>
      kept g w (g_mem s) (g_mem u)"
    and "\<And>j. j \<noteq> i \<Longrightarrow> (j \<in> g_undo u \<longleftrightarrow> j \<in> g_undo s) \<and> g_adv u j = g_adv s j"
  shows "guar g i s u"
proof (intro allI impI)
  fix j assume j: "j \<noteq> i"
  have "kept g w (g_mem s) (g_mem u)" if "w < cap g" "g_own s w = Some (j, k)" for w k
    using assms(4) [OF that(1)] that(2) j by blast
  with assms j show "rely g j s u" unfolding rely_def evolve_def by blast
qed

section \<open>Steps\<close>

text \<open>Loads and flushes; the thread may change where its advance stands.\<close>

lemma step_quiet:
  assumes "conc_inv H g b N s" "cache n = gc s" "same_map (g_mem s) n"
    and "\<And>x. media n x = media (g_mem s) x \<or> media n x = gc s x"
    and "adv_inv g (gc s) ((g_adv s)(i := q))"
  shows "conc_inv H g b N (s\<lparr>g_mem := n, g_adv := (g_adv s)(i := q)\<rparr>)"
    and "guar g i s (s\<lparr>g_mem := n, g_adv := (g_adv s)(i := q)\<rparr>)"
proof -
  show "conc_inv H g b N (s\<lparr>g_mem := n, g_adv := (g_adv s)(i := q)\<rparr>)"
    using assms(1,2,5) pool_same_map [OF assms(3), of g] assms(3) by (simp add: conc_inv_def same_map_def)
  show "guar g i s (s\<lparr>g_mem := n, g_adv := (g_adv s)(i := q)\<rparr>)"
    by (rule guarI) (use kept_media [OF assms(2,4)] assms(2) in auto)
qed

text \<open>A store outside the header and the records: the counters.\<close>

lemma step_outside:
  assumes "conc_inv H g b N s" "agree_off B (gc s) c" "B \<inter> {..<64} = {}"
    and "\<And>w. w < cap g \<Longrightarrow> rec_region g w \<inter> B = {}" "adv_over g i s" "N \<le> 2 ^ 32"
  shows "conc_inv H g b N (s\<lparr>g_mem := (g_mem s)\<lparr>cache := c\<rparr>, g_adv := (g_adv s)(i := None)\<rparr>)"
    and "guar g i s (s\<lparr>g_mem := (g_mem s)\<lparr>cache := c\<rparr>, g_adv := (g_adv s)(i := None)\<rparr>)"
proof -
  note D = conc_invD [OF assms(1)] and geom = poolD(1) [OF conc_invD(1) [OF assms(1)]]
  have hdr: "get64 c a = get64 (gc s) a" if "a + 8 \<le> 64" for a
    by (rule get64_agree [OF assms(2)]) (use assms(3) that in auto)
  have same: "same_rec g w (gc s) c" if "w < cap g" for w
    by (rule same_rec_agree [OF assms(2) assms(4) [OF that]])
  have adv: "adv_inv g (gc s) ((g_adv s)(i := None))"
    using assms(5) D(6) by (intro adv_inv_leave) (auto simp: adv_over_def)
  show "conc_inv H g b N (s\<lparr>g_mem := (g_mem s)\<lparr>cache := c\<rparr>, g_adv := (g_adv s)(i := None)\<rparr>)"
    using D hdr same same_rec_done [OF geom same] reserve_inv_bound(2) [OF D(3) assms(6)]
    by (auto simp: conc_inv_def intro!: tail_inv_cong [OF geom D(4)] slots_inv_cong [OF geom D(5)]
        adv_inv_cong [OF adv])
  show "guar g i s (s\<lparr>g_mem := (g_mem s)\<lparr>cache := c\<rparr>, g_adv := (g_adv s)(i := None)\<rparr>)"
    by (rule guarI) (use hdr assms(2,4) in \<open>auto intro!: kept_off [OF geom]\<close>)
qed

text \<open>A store to an uncommitted slot the thread has taken.\<close>

lemma step_own:
  assumes "conc_inv H g b N s" "g_own s w = Some (i, k)" "\<not> done_at g (gc s) w"
    and "agree_off (rec_region g w) (gc s) c" "slot_view H g c w \<noteq> SCorrupt"
    and "if done_at g c w then q = Some None else q = g_adv s i" "N \<le> 2 ^ 32"
  shows "conc_inv H g b N (s\<lparr>g_mem := (g_mem s)\<lparr>cache := c\<rparr>, g_adv := (g_adv s)(i := q)\<rparr>)"
    and "guar g i s (s\<lparr>g_mem := (g_mem s)\<lparr>cache := c\<rparr>, g_adv := (g_adv s)(i := q)\<rparr>)"
proof -
  note D = conc_invD [OF assms(1)] and geom = poolD(1) [OF conc_invD(1) [OF assms(1)]]
  have hdr: "get64 c a = get64 (gc s) a" if "a + 8 \<le> 64" for a
    by (rule get64_agree [OF assms(4) rec_region_header [OF that]])
  have same: "same_rec g v (gc s) c" if "v \<noteq> w" for v
    by (rule same_rec_agree [OF assms(4) rec_region_disjoint [OF that]])
  have "done_at g c v" if "done_at g (gc s) v" for v
    using same_rec_done [OF geom same, of v] that assms(3) by (cases "v = w") auto
  then have tail: "tail_inv g (tail_at b) c"
    by (intro tail_inv_cong [OF geom D(4)]) (simp_all add: hdr)
  have slots: "slots_inv H g b (g_own s) c"
    using reserve_inv_bound(2) [OF D(3) assms(7)] assms(2)
    by (intro slots_inv_store [OF geom D(5) _ _ assms(4,5)]) auto
  have adv: "adv_inv g c ((g_adv s)(i := q))"
  proof (cases "done_at g c w")
    case True
    with assms(6) show ?thesis by (simp add: adv_inv_enter)
  next
    case False
    then have "done_at g (gc s) v" if "done_at g c v" for v
      using same_rec_done [OF geom same, of v] that by (cases "v = w") auto
    with False assms(6) show ?thesis by (simp add: adv_inv_cong [OF D(6)] hdr)
  qed
  show "conc_inv H g b N (s\<lparr>g_mem := (g_mem s)\<lparr>cache := c\<rparr>, g_adv := (g_adv s)(i := q)\<rparr>)"
    using D tail slots adv by (simp add: conc_inv_def hdr)
  have "kept g v (g_mem s) ((g_mem s)\<lparr>cache := c\<rparr>)" if "v \<noteq> w" for v
    using rec_region_disjoint [OF that, of g] assms(4) by (intro kept_off [OF geom]) auto
  then show "guar g i s (s\<lparr>g_mem := (g_mem s)\<lparr>cache := c\<rparr>, g_adv := (g_adv s)(i := q)\<rparr>)"
    using assms(2,3) by (intro guarI) (auto simp: hdr, metis, metis option.sel prod.sel(1))
qed

text \<open>The reservation counter.\<close>

lemma header_store:
  assumes "geom_ok g" "a + 8 \<le> 64"
  shows "done_at g (put64 c a v) w = done_at g c w" "kept g w m (m\<lparr>cache := put64 (cache m) a v\<rparr>)"
proof -
  show "done_at g (put64 c a v) w = done_at g c w"
    by (rule same_rec_done [OF assms(1) same_rec_header [OF assms(2)]])
  show "kept g w m (m\<lparr>cache := put64 (cache m) a v\<rparr>)"
    by (rule kept_off [OF assms(1), of "{a..<a + 8}"])
      (use rec_region_header [OF assms(2), of g w] in \<open>auto intro!: agree_off_put64\<close>)
qed

lemma conc_inv_reserve:
  assumes "conc_inv H g b N s" "reserve_inv g (reserve_at b) N (unat v) own undo"
    and "slots_inv H g b own (gc s)" "N \<le> 2 ^ 32"
  shows "conc_inv H g b N (s\<lparr>g_mem := (g_mem s)\<lparr>cache := put64 (gc s) 40 v\<rparr>, g_own := own, g_undo := undo\<rparr>)"
proof -
  note D = conc_invD [OF assms(1)] and geom = poolD(1) [OF conc_invD(1) [OF assms(1)]]
  have t: "get64 (put64 (gc s) 40 v) 32 = get64 (gc s) 32" by (simp add: get64_put64_disjoint)
  have "tail_inv g (tail_at b) (put64 (gc s) 40 v)"
    by (rule tail_inv_cong [OF geom D(4) t]) (simp add: header_store(1) [OF geom])
  moreover have "slots_inv H g b own (put64 (gc s) 40 v)"
    by (rule slots_inv_cong [OF geom assms(3) reserve_inv_bound(2) [OF assms(2,4)]])
      (simp add: same_rec_header)
  moreover have "adv_inv g (put64 (gc s) 40 v) (g_adv s)"
    by (rule adv_inv_cong [OF D(6) t]) (simp add: header_store(1) [OF geom])
  ultimately show ?thesis using D(1,2) assms(2) by (simp add: conc_inv_def)
qed

lemma step_take:
  assumes "conc_inv H g b N s" "conc_start H g b" "reserve_at (gc s) < cap g" "N \<le> 2 ^ 32"
  shows "conc_inv H g b N (s\<lparr>g_mem := (g_mem s)\<lparr>cache := put64 (gc s) 40 (get64 (gc s) 40 + 1)\<rparr>,
      g_own := (g_own s)(reserve_at (gc s) \<mapsto> (i, k)), g_undo := g_undo s\<rparr>)"
    and "guar g i s (s\<lparr>g_mem := (g_mem s)\<lparr>cache := put64 (gc s) 40 (get64 (gc s) 40 + 1)\<rparr>,
      g_own := (g_own s)(reserve_at (gc s) \<mapsto> (i, k)), g_undo := g_undo s\<rparr>)"
    and "dom (g_own s) = {reserve_at b..<reserve_at (gc s)}" "slot_view H g (gc s) (reserve_at (gc s)) = SFree"
proof -
  let ?r = "reserve_at (gc s)"
  note D = conc_invD [OF assms(1)] and geom = poolD(1) [OF conc_invD(1) [OF assms(1)]]
  note take = reserve_inv_take [OF D(3) assms(3)]
  have suc: "unat (get64 (gc s) 40 + 1) = Suc ?r"
    using assms(3) unat_u32_le [of "g_capacity g"] by (subst unat_add_lt64) simp_all
  have free: "slot_view H g b ?r = SFree" by (rule conc_startD(4) [OF assms(2) take(3) assms(3)])
  show "dom (g_own s) = {reserve_at b..<?r}" by (rule take(2))
  then have new: "?r \<notin> dom (g_own s)" by simp
  show "slot_view H g (gc s) ?r = SFree"
    using same_rec_view [OF geom, of ?r b "gc s" H] D(5) assms(3) new free
    by (simp add: slots_inv_def)
  show "conc_inv H g b N (s\<lparr>g_mem := (g_mem s)\<lparr>cache := put64 (gc s) 40 (get64 (gc s) 40 + 1)\<rparr>,
      g_own := (g_own s)(?r \<mapsto> (i, k)), g_undo := g_undo s\<rparr>)"
    by (rule conc_inv_reserve [OF assms(1) _ slots_inv_take [OF D(5) assms(3) new geom free] assms(4)])
      (use take(1) suc in simp)
  show "guar g i s (s\<lparr>g_mem := (g_mem s)\<lparr>cache := put64 (gc s) 40 (get64 (gc s) 40 + 1)\<rparr>,
      g_own := (g_own s)(?r \<mapsto> (i, k)), g_undo := g_undo s\<rparr>)"
    by (rule guarI) (use new header_store(2) [OF geom] in
      \<open>auto simp: get64_put64_disjoint map_le_def split: if_splits\<close>)
qed

lemma step_undo:
  assumes "conc_inv H g b N s" "reserve_inv g (reserve_at b) N (unat v) (g_own s) undo" "N \<le> 2 ^ 32"
    and "undo - {i} = g_undo s - {i}"
  shows "conc_inv H g b N (s\<lparr>g_mem := (g_mem s)\<lparr>cache := put64 (gc s) 40 v\<rparr>, g_own := g_own s, g_undo := undo\<rparr>)"
    and "guar g i s (s\<lparr>g_mem := (g_mem s)\<lparr>cache := put64 (gc s) 40 v\<rparr>, g_own := g_own s, g_undo := undo\<rparr>)"
proof -
  note D = conc_invD [OF assms(1)] and geom = poolD(1) [OF conc_invD(1) [OF assms(1)]]
  show "conc_inv H g b N (s\<lparr>g_mem := (g_mem s)\<lparr>cache := put64 (gc s) 40 v\<rparr>, g_own := g_own s, g_undo := undo\<rparr>)"
    by (rule conc_inv_reserve [OF assms(1,2) D(5) assms(3)])
  show "guar g i s (s\<lparr>g_mem := (g_mem s)\<lparr>cache := put64 (gc s) 40 v\<rparr>, g_own := g_own s, g_undo := undo\<rparr>)"
    by (rule guarI) (use assms(4) header_store(2) [OF geom] in \<open>auto simp: get64_put64_disjoint\<close>)
qed

text \<open>The compare-and-swap of the tail, when it succeeds.\<close>

lemma step_cas:
  assumes "conc_inv H g b N s" "tail_at (gc s) \<le> unat n" "unat n \<le> cap g" "N \<le> 2 ^ 32"
    and "\<And>v. tail_at (gc s) \<le> v \<Longrightarrow> v < unat n \<Longrightarrow> done_at g (gc s) v"
    and "unat n = cap g \<or> g_adv s i = Some (Some (unat n))"
  shows "conc_inv H g b N (s\<lparr>g_mem := (g_mem s)\<lparr>cache := put64 (gc s) 32 n\<rparr>, g_adv := (g_adv s)(i := None)\<rparr>)"
    and "guar g i s (s\<lparr>g_mem := (g_mem s)\<lparr>cache := put64 (gc s) 32 n\<rparr>, g_adv := (g_adv s)(i := None)\<rparr>)"
proof -
  note D = conc_invD [OF assms(1)] and geom = poolD(1) [OF conc_invD(1) [OF assms(1)]]
  let ?c = "put64 (gc s) 32 n"
  have "done_at g (gc s) w" if "tail_at b \<le> w" "w < unat n" for w
    using D(4) assms(5) [of w] that by (cases "w < tail_at (gc s)") (auto simp: tail_inv_def)
  then have "tail_inv g (tail_at b) ?c"
    using D(4) assms(2,3) by (auto simp: tail_inv_def header_store(1) [OF geom])
  moreover have "slots_inv H g b (g_own s) ?c"
    by (rule slots_inv_cong [OF geom D(5) reserve_inv_bound(2) [OF D(3) assms(4)]])
      (simp add: same_rec_header)
  moreover have "adv_inv g ?c ((g_adv s)(i := None))"
    by (rule adv_inv_cas [OF D(6) geom assms(2,3,5,6)])
  ultimately show "conc_inv H g b N (s\<lparr>g_mem := (g_mem s)\<lparr>cache := ?c\<rparr>, g_adv := (g_adv s)(i := None)\<rparr>)"
    using D(1-3) by (simp add: conc_inv_def get64_put64_disjoint)
  show "guar g i s (s\<lparr>g_mem := (g_mem s)\<lparr>cache := ?c\<rparr>, g_adv := (g_adv s)(i := None)\<rparr>)"
    by (rule guarI) (use assms(2) header_store(2) [OF geom] in auto)
qed

end
