(* ===== verification/ConcTail.thy ===== *)
theory ConcTail
  imports ConcSteps
begin

text \<open>
  Rules for the backend calls of a thread, and \<open>advance_committed_tail\<close> under interference:
  the fuel of its loop is enough, and when it ends no committed slot at the tail is left for
  this thread to pass.
\<close>

section \<open>Assertions about a thread\<close>

text \<open>The slots thread \<open>i\<close> has taken, with the numbers of the appends they were taken for.\<close>

definition mine :: "nat \<Rightarrow> ghost \<Rightarrow> (nat \<times> nat) set" where
  "mine i s = {(w, k). g_own s w = Some (i, k)}"

text \<open>It has taken \<open>M\<close>, owes no reservation, and its advance stands at \<open>q\<close>.\<close>

definition at_adv :: "nat \<Rightarrow> (nat \<times> nat) set \<Rightarrow> nat option option \<Rightarrow> ghost \<Rightarrow> bool" where
  "at_adv i M q s \<longleftrightarrow> mine i s = M \<and> i \<notin> g_undo s \<and> g_adv s i = q"

abbreviation idle :: "nat \<Rightarrow> (nat \<times> nat) set \<Rightarrow> ghost \<Rightarrow> bool" where
  "idle i M \<equiv> at_adv i M None"

definition over :: "pool_geometry \<Rightarrow> nat \<Rightarrow> (nat \<times> nat) set \<Rightarrow> ghost \<Rightarrow> bool" where
  "over g i M s \<longleftrightarrow> mine i s = M \<and> i \<notin> g_undo s \<and> adv_over g i s"

lemma rely_tail: "rely g i s t \<Longrightarrow> tail_at (gc s) \<le> tail_at (gc t)"
  by (simp add: rely_def evolve_def)

lemma rely_mine: "rely g i s t \<Longrightarrow> mine i t = mine i s"
proof -
  assume r: "rely g i s t"
  have "g_own t w = Some (i, k)" if "g_own s w = Some (i, k)" for w k
    using r that by (auto simp: rely_def evolve_def map_le_def dom_def)
  moreover have "g_own s w = Some (i, k)" if "g_own t w = Some (i, k)" for w k
    using r that by (simp add: rely_def)
  ultimately show ?thesis unfolding mine_def by blast
qed

lemma rely_thread: "rely g i s t \<Longrightarrow> (i \<in> g_undo t) = (i \<in> g_undo s) \<and> g_adv t i = g_adv s i"
  by (simp add: rely_def)

lemma rely_done: "rely g i s t \<Longrightarrow> w < cap g \<Longrightarrow> done_at g (gc s) w \<Longrightarrow> done_at g (gc t) w"
  using kept_done by (auto simp: rely_def evolve_def)

lemma keeps_at_adv: "ckeeps H g b N i (at_adv i M q)"
  by (auto simp: keeps_def at_adv_def rely_mine rely_thread)

lemma keeps_over: "ckeeps H g b N i (over g i M)"
proof -
  have "over g i M t" if "over g i M s" "rely g i s t" for s t
    using that rely_mine [OF that(2)] rely_thread [OF that(2)] rely_tail [OF that(2)]
    by (auto simp: over_def adv_over_def)
  then show ?thesis unfolding keeps_def by blast
qed

lemma keeps_conj: "keeps I r P \<Longrightarrow> keeps I r Q \<Longrightarrow> keeps I r (\<lambda>s. P s \<and> Q s)"
  unfolding keeps_def by blast

lemma keeps_const: "keeps I r (\<lambda>s. P)"
  by (simp add: keeps_def)

lemma keeps_tail: "ckeeps H g b N i (\<lambda>s. n \<le> tail_at (gc s))"
  unfolding keeps_def using rely_tail le_trans by blast

lemma keeps_done: "e \<le> cap g \<Longrightarrow> ckeeps H g b N i (\<lambda>s. \<forall>v. a \<le> v \<longrightarrow> v < e \<longrightarrow> done_at g (gc s) v)"
  unfolding keeps_def using rely_done by (meson less_le_trans)

lemmas keeps_intros = keeps_conj keeps_at_adv keeps_over keeps_const keeps_tail

lemma idle_over: "idle i M s \<Longrightarrow> over g i M s"
  by (simp add: at_adv_def over_def adv_over_def)

lemma mine_simps [simp]:
  "mine i (s\<lparr>g_mem := m\<rparr>) = mine i s" "mine i (s\<lparr>g_adv := a\<rparr>) = mine i s" "mine i (s\<lparr>g_undo := u\<rparr>) = mine i s"
  by (simp_all add: mine_def)

section \<open>Rules for calls\<close>

lemma tr_quiet:
  assumes "ckeeps H g b N i P"
    and "\<And>s. P s \<Longrightarrow> conc_inv H g b N s \<Longrightarrow> \<exists>v. step p (g_mem s) = Some (Inr (k v, g_mem s)) \<and>
      (\<exists>q. adv_inv g (gc s) ((g_adv s)(i := q)) \<and> P' v (s\<lparr>g_mem := g_mem s, g_adv := (g_adv s)(i := q)\<rparr>))"
    and "\<And>v. ctriple H g b N i (P' v) (k v) Q"
  shows "ctriple H g b N i P p Q"
proof (rule conc.triple_step [OF assms(1), where P' = "\<lambda>p' u. \<exists>v. p' = k v \<and> P' v u"])
  fix s assume s: "P s" "conc_inv H g b N s"
  from assms(2) [OF s] obtain v q where v: "step p (g_mem s) = Some (Inr (k v, g_mem s))"
    "adv_inv g (gc s) ((g_adv s)(i := q))" "P' v (s\<lparr>g_mem := g_mem s, g_adv := (g_adv s)(i := q)\<rparr>)" by blast
  note q = step_quiet [OF s(2) refl same_map_refl _ v(2)]
  show "\<exists>p' u. step p (g_mem s) = Some (Inr (p', g_mem u)) \<and> conc_inv H g b N u \<and> guar g i s u \<and>
      (\<exists>v. p' = k v \<and> P' v u)"
    by (rule exI [of _ "k v"], rule exI [of _ "s\<lparr>g_mem := g_mem s, g_adv := (g_adv s)(i := q)\<rparr>"])
      (use v q in auto)
next
  fix p' show "ctriple H g b N i (\<lambda>u. \<exists>v. p' = k v \<and> P' v u) p' Q"
    using assms(3) by (auto simp: triple_def)
qed

lemma adv_inv_same: "conc_inv H g b N s \<Longrightarrow> adv_inv g (gc s) ((g_adv s)(i := g_adv s i))"
  using conc_invD(6) by simp

lemma same_ghost: "s\<lparr>g_mem := g_mem s, g_adv := (g_adv s)(i := g_adv s i)\<rparr> = s"
  by simp

lemma tr_LoadU64:
  assumes "ckeeps H g b N i P" "unat a + 8 \<le> unat (g_total_size g)" "unat a mod 8 = 0" "ord \<notin> {Release, AcqRel}"
    and "\<And>s. P s \<Longrightarrow> conc_inv H g b N s \<Longrightarrow> P' (get64 (gc s) (unat a)) s"
    and "\<And>v. ctriple H g b N i (P' v) (k v) Q"
  shows "ctriple H g b N i P (LoadU64 a ord k) Q"
proof (rule tr_quiet [OF assms(1) _ assms(6)])
  fix s assume s: "P s" "conc_inv H g b N s"
  show "\<exists>v. step (LoadU64 a ord k) (g_mem s) = Some (Inr (k v, g_mem s)) \<and>
      (\<exists>q. adv_inv g (gc s) ((g_adv s)(i := q)) \<and> P' v (s\<lparr>g_mem := g_mem s, g_adv := (g_adv s)(i := q)\<rparr>))"
    by (rule exI [of _ "get64 (gc s) (unat a)"], rule conjI, use poolD(3) [OF conc_invD(1) [OF s(2)]] assms(2-4) in
        \<open>simp add: mb_defs\<close>, rule exI [of _ "g_adv s i"], unfold same_ghost, rule conjI,
        rule adv_inv_same [OF s(2)], rule assms(5) [OF s])
qed

lemma tr_Read:
  assumes "ckeeps H g b N i P" "unat a + n \<le> unat (g_total_size g)"
    and "\<And>s. P s \<Longrightarrow> conc_inv H g b N s \<Longrightarrow> P' (peek (gc s) (unat a) n) s"
    and "\<And>v. ctriple H g b N i (P' v) (k v) Q"
  shows "ctriple H g b N i P (Read a n k) Q"
proof (rule tr_quiet [OF assms(1) _ assms(4)])
  fix s assume s: "P s" "conc_inv H g b N s"
  show "\<exists>v. step (Read a n k) (g_mem s) = Some (Inr (k v, g_mem s)) \<and>
      (\<exists>q. adv_inv g (gc s) ((g_adv s)(i := q)) \<and> P' v (s\<lparr>g_mem := g_mem s, g_adv := (g_adv s)(i := q)\<rparr>))"
    by (rule exI [of _ "peek (gc s) (unat a) n"], rule conjI, use poolD(3) [OF conc_invD(1) [OF s(2)]] assms(2) in
        \<open>simp add: mb_defs\<close>, rule exI [of _ "g_adv s i"], unfold same_ghost, rule conjI,
        rule adv_inv_same [OF s(2)], rule assms(3) [OF s])
qed

text \<open>The thread may note that its scan stopped at the slot it has just loaded.\<close>

lemma tr_LoadU8_adv:
  assumes "ckeeps H g b N i P" "unat a < unat (g_total_size g)" "ord \<notin> {Release, AcqRel}"
    and "\<And>s. P s \<Longrightarrow> conc_inv H g b N s \<Longrightarrow> \<exists>q. adv_inv g (gc s) ((g_adv s)(i := q)) \<and>
      P' (gc s (unat a)) (s\<lparr>g_adv := (g_adv s)(i := q)\<rparr>)"
    and "\<And>v. ctriple H g b N i (P' v) (k v) Q"
  shows "ctriple H g b N i P (LoadU8 a ord k) Q"
proof (rule tr_quiet [OF assms(1) _ assms(5)])
  fix s assume s: "P s" "conc_inv H g b N s"
  have eq: "s\<lparr>g_mem := g_mem s, g_adv := (g_adv s)(i := q)\<rparr> = s\<lparr>g_adv := (g_adv s)(i := q)\<rparr>" for q by simp
  show "\<exists>v. step (LoadU8 a ord k) (g_mem s) = Some (Inr (k v, g_mem s)) \<and>
      (\<exists>q. adv_inv g (gc s) ((g_adv s)(i := q)) \<and> P' v (s\<lparr>g_mem := g_mem s, g_adv := (g_adv s)(i := q)\<rparr>))"
    unfolding eq
    by (rule exI [of _ "gc s (unat a)"], rule conjI, use poolD(3) [OF conc_invD(1) [OF s(2)]] assms(2,3) in
        \<open>simp add: mb_defs\<close>, rule assms(4) [OF s])
qed

lemma tr_LoadU8:
  assumes "ckeeps H g b N i P" "unat a < unat (g_total_size g)" "ord \<notin> {Release, AcqRel}"
    and "\<And>s. P s \<Longrightarrow> conc_inv H g b N s \<Longrightarrow> P' (gc s (unat a)) s"
    and "\<And>v. ctriple H g b N i (P' v) (k v) Q"
  shows "ctriple H g b N i P (LoadU8 a ord k) Q"
proof (rule tr_LoadU8_adv [OF assms(1-3) _ assms(5)])
  fix s assume s: "P s" "conc_inv H g b N s"
  have "s\<lparr>g_adv := (g_adv s)(i := g_adv s i)\<rparr> = s" by simp
  with adv_inv_same [OF s(2), of i] assms(4) [OF s]
  show "\<exists>q. adv_inv g (gc s) ((g_adv s)(i := q)) \<and> P' (gc s (unat a)) (s\<lparr>g_adv := (g_adv s)(i := q)\<rparr>)"
    by metis
qed

text \<open>Bounds of the pool.\<close>

lemma total_ge: "geom_ok g \<Longrightarrow> 64 \<le> unat (g_total_size g)"
  by (simp add: geom_ok_def geom_wf_def)

lemma slot_end: "geom_ok g \<Longrightarrow> w < cap g \<Longrightarrow> rec_base g w + (64 + psz g) \<le> unat (g_total_size g)"
  using rec_end_le_total [of g w] geom_okD(4) [of g] by (simp add: geom_ok_def)

section \<open>Counters\<close>

lemma metric_call:
  assumes "geom_ok g" "unat h < hosts g" "unat c \<le> 48" "unat c mod 8 = 0" "N \<le> 2 ^ 32"
  shows "ctriple H g b N i (over g i M) (FetchAddU64 (metrics_offset g h + c) d Relaxed (\<lambda>_. Ret ()))
    (\<lambda>_. idle i M)"
proof (rule conc.triple_step [OF keeps_over, where P' = "\<lambda>p' u. p' = Ret () \<and> idle i M u"])
  let ?a = "met_base g (unat h) + unat c"
  have a: "unat (metrics_offset g h + c) = ?a"
    using assms(3,4) by (simp add: unat_metrics_offset_plus)
  fix s assume s: "over g i M s" "conc_inv H g b N s"
  note p = conc_invD(1) [OF s(2)]
  let ?u = "s\<lparr>g_mem := (g_mem s)\<lparr>cache := put64 (gc s) ?a (get64 (gc s) ?a + d)\<rparr>, g_adv := (g_adv s)(i := None)\<rparr>"
  have st: "step (FetchAddU64 (metrics_offset g h + c) d Relaxed (\<lambda>_. Ret ())) (g_mem s) =
      Some (Inr (Ret (), g_mem ?u))"
    using pool_metrics_bounds [OF p assms(2)] assms(3,4) mod_add_eq [of "met_base g (unat h)" 8 "unat c", symmetric]
    by (simp add: mb_defs a Let_def)
  have ge: "{?a..<?a + 8} \<inter> {..<64} = {}" using met_base_ge [of g "unat h"] by auto
  have off: "rec_region g w \<inter> {?a..<?a + 8} = {}" if "w < cap g" for w
    using rec_region_metrics [OF that, of "unat h" ?a] by auto
  note u = step_outside [OF s(2) agree_off_put64 [OF subset_refl agree_off_refl] ge off _ assms(5), of i
      "get64 (gc s) ?a + d"]
  show "\<exists>p' u. step (FetchAddU64 (metrics_offset g h + c) d Relaxed (\<lambda>_. Ret ())) (g_mem s) =
      Some (Inr (p', g_mem u)) \<and> conc_inv H g b N u \<and> guar g i s u \<and> p' = Ret () \<and> idle i M u"
    by (rule exI [of _ "Ret ()"], rule exI [of _ ?u], intro conjI st u refl)
      (use s(1) in \<open>simp_all add: over_def at_adv_def\<close>)
next
  fix p' :: "unit prog"
  have "ctriple H g b N i (idle i M) (Ret ()) (\<lambda>_. idle i M)"
    by (rule conc.triple_Ret) (rule keeps_at_adv)
  then show "ctriple H g b N i (\<lambda>u. p' = Ret () \<and> idle i M u) p' (\<lambda>_. idle i M)"
    by (auto simp: triple_def)
qed

lemma metric_calls:
  assumes "geom_ok g" "unat h < hosts g" "N \<le> 2 ^ 32"
  shows "ctriple H g b N i (over g i M) (increment_appends g h) (\<lambda>_. idle i M)"
    and "ctriple H g b N i (over g i M) (increment_appends_failed g h) (\<lambda>_. idle i M)"
    and "ctriple H g b N i (over g i M) (increment_bytes_written g h d) (\<lambda>_. idle i M)"
    and "ctriple H g b N i (over g i M) (increment_reads g h) (\<lambda>_. idle i M)"
    and "ctriple H g b N i (over g i M) (increment_checksum_failures g h) (\<lambda>_. idle i M)"
  unfolding increment_appends_def increment_appends_failed_def increment_bytes_written_def
    increment_reads_def increment_checksum_failures_def Let_def
  by (rule metric_call [OF assms(1,2) _ _ assms(3)]; simp)+

section \<open>The scan\<close>

definition scanned :: "pool_geometry \<Rightarrow> nat \<Rightarrow> (nat \<times> nat) set \<Rightarrow> nat \<Rightarrow> u64 \<Rightarrow> ghost \<Rightarrow> bool" where
  "scanned g i M a n s \<longleftrightarrow> mine i s = M \<and> i \<notin> g_undo s \<and> a \<le> unat n \<and> unat n \<le> cap g \<and>
     a \<le> tail_at (gc s) \<and> (\<forall>v. a \<le> v \<longrightarrow> v < unat n \<longrightarrow> done_at g (gc s) v) \<and>
     (unat n = cap g \<or> g_adv s i = Some (Some (unat n)))"

lemma keeps_scanned: "ckeeps H g b N i (scanned g i M a n)"
proof -
  have "scanned g i M a n t" if "scanned g i M a n s" "rely g i s t" for s t
    using that rely_mine [OF that(2)] rely_thread [OF that(2)] rely_tail [OF that(2)] rely_done [OF that(2)]
    by (auto simp: scanned_def)
  then show ?thesis unfolding keeps_def by blast
qed

lemma scan_triple:
  assumes "geom_ok g" "tail_at b \<le> a" "a \<le> unat t" "unat t \<le> cap g"
  shows "ctriple H g b N i
    (\<lambda>s. at_adv i M (Some None) s \<and> a \<le> tail_at (gc s) \<and> (\<forall>v. a \<le> v \<longrightarrow> v < unat t \<longrightarrow> done_at g (gc s) v))
    (scan_committed g t) (scanned g i M a)"
  using assms(1,3,4)
proof (induction g t rule: scan_committed.induct)
  case (1 g t)
  let ?P = "\<lambda>s. at_adv i M (Some None) s \<and> a \<le> tail_at (gc s) \<and>
      (\<forall>v. a \<le> v \<longrightarrow> v < unat t \<longrightarrow> done_at g (gc s) v)"
  have keep: "ckeeps H g b N i ?P"
    using "1.prems"(3) by (intro keeps_intros keeps_done)
  show ?case
  proof (cases "t < ucast (g_capacity g)")
    case False
    then have "unat t = cap g" using "1.prems"(3) by (simp add: not_less word_le_nat_alt)
    then have "scanned g i M a t s" if "?P s" for s
      using that "1.prems"(2) by (simp add: scanned_def at_adv_def)
    then have "ctriple H g b N i ?P (Ret t) (scanned g i M a)"
      by (intro conc.triple_pre [OF conc.triple_Ret]) (rule keeps_scanned)
    with False show ?thesis by (subst scan_committed.simps) simp
  next
    case True
    then have lt: "unat t < cap g" by (simp add: word_less_nat_alt)
    then have t32: "unat (ucast t :: u32) = unat t"
      using unat_u32_lt [of "g_capacity g"] by (intro unat_ucast_u64_u32) linarith
    have t1: "unat (t + 1) = Suc (unat t)"
      using lt unat_u32_le [of "g_capacity g"] by (subst unat_add_lt64) simp_all
    let ?Q = "\<lambda>v s. if v = STATE_COMMITTED
        then at_adv i M (Some None) s \<and> a \<le> tail_at (gc s) \<and>
          (\<forall>v. a \<le> v \<longrightarrow> v < unat (t + 1) \<longrightarrow> done_at g (gc s) v)
        else scanned g i M a t s"
    have adr: "unat (record_offset g (ucast t)) = rec_base g (unat t)"
      by (simp add: unat_record_offset t32)
    have next': "\<exists>q. adv_inv g (gc s) ((g_adv s)(i := q)) \<and>
        ?Q (gc s (unat (record_offset g (ucast t)))) (s\<lparr>g_adv := (g_adv s)(i := q)\<rparr>)"
      if s: "?P s" "conc_inv H g b N s" for s
    proof (cases "done_at g (gc s) (unat t)")
      case True
      have "(g_adv s)(i := Some None) = g_adv s" using s(1) by (auto simp: at_adv_def)
      with True s show ?thesis
        by (intro exI [of _ "Some None"])
          (auto simp: adr done_at_def [symmetric] t1 less_Suc_eq conc_invD adv_inv_enter)
    next
      case False
      have "adv_inv g (gc s) ((g_adv s)(i := Some (Some (unat t))))"
        by (rule adv_inv_stop [OF conc_invD(6,4) [OF s(2)] _ False]) (use assms(2) "1.prems"(2) in simp)
      with False s "1.prems"(2) lt show ?thesis
        by (intro exI [of _ "Some (Some (unat t))"])
          (auto simp: adr done_at_def [symmetric] scanned_def at_adv_def)
    qed
    have rest: "ctriple H g b N i (?Q v)
        (if v \<noteq> STATE_COMMITTED then Ret t else scan_committed g (t + 1)) (scanned g i M a)" for v
    proof (cases "v = STATE_COMMITTED")
      case True
      then show ?thesis
        using "1.IH" [OF \<open>t < ucast (g_capacity g)\<close> refl refl, of v] "1.prems" lt t1 by simp
    next
      case False
      then show ?thesis by simp (rule conc.triple_Ret, rule keeps_scanned)
    qed
    have "ctriple H g b N i ?P (LoadU8 (record_offset g (ucast t)) Acquire (\<lambda>state.
        if state \<noteq> STATE_COMMITTED then Ret t else scan_committed g (t + 1))) (scanned g i M a)"
      by (rule tr_LoadU8_adv [OF keep _ _ next' rest])
        (use slot_end [OF "1.prems"(1) lt] adr in simp_all)
    with True show ?thesis by (subst scan_committed.simps) (simp add: Let_def)
  qed
qed

section \<open>The loop\<close>

text \<open>
  The compare-and-swap after a scan from \<open>cur\<close> to \<open>n\<close>: it succeeds and the advance is over, or
  the tail has moved beyond \<open>cur\<close> and the thread starts another round.
\<close>

lemma tail_cas:
  assumes "geom_ok g" "N \<le> 2 ^ 32" "cur \<noteq> n"
    and "ctriple H g b N i (over g i M) (k (Inr cur)) Q"
    and "\<And>v. ctriple H g b N i (\<lambda>s. at_adv i M (Some None) s \<and> unat cur < tail_at (gc s)) (k (Inl v)) Q"
  shows "ctriple H g b N i (scanned g i M (unat cur) n) (CompareExchangeU64 HDR_COMMITTED_TAIL cur n AcqRel Acquire k) Q"
proof (rule conc.triple_step [OF keeps_scanned, where P' = "\<lambda>p' u.
    p' = k (Inr cur) \<and> over g i M u \<or>
    (\<exists>v. p' = k (Inl v)) \<and> at_adv i M (Some None) u \<and> unat cur < tail_at (gc u)"])
  fix s assume s: "scanned g i M (unat cur) n s" "conc_inv H g b N s"
  let ?p = "CompareExchangeU64 HDR_COMMITTED_TAIL cur n AcqRel Acquire k"
  have len: "64 \<le> unat (mm_len (g_mem s))" by (rule pool_header_bounds [OF conc_invD(1) [OF s(2)]])
  show "\<exists>p' u. step ?p (g_mem s) = Some (Inr (p', g_mem u)) \<and> conc_inv H g b N u \<and> guar g i s u \<and>
      (p' = k (Inr cur) \<and> over g i M u \<or>
       (\<exists>v. p' = k (Inl v)) \<and> at_adv i M (Some None) u \<and> unat cur < tail_at (gc u))"
  proof (cases "get64 (gc s) 32 = cur")
    case True
    let ?u = "s\<lparr>g_mem := (g_mem s)\<lparr>cache := put64 (gc s) 32 n\<rparr>, g_adv := (g_adv s)(i := None)\<rparr>"
    have "tail_at (gc s) \<le> unat n" "unat n \<le> cap g"
      "\<And>v. tail_at (gc s) \<le> v \<Longrightarrow> v < unat n \<Longrightarrow> done_at g (gc s) v"
      "unat n = cap g \<or> g_adv s i = Some (Some (unat n))"
      using s(1) True by (simp_all add: scanned_def)
    note u = step_cas [OF s(2) this(1,2) assms(2) this(3,4)]
    have st: "step ?p (g_mem s) = Some (Inr (k (Inr cur), g_mem ?u))"
      using True len by (simp add: mb_defs Let_def)
    have "over g i M ?u" using s(1) by (simp add: scanned_def over_def adv_over_def)
    with st u show ?thesis by (intro exI [of _ "k (Inr cur)"] exI [of _ ?u]) simp
  next
    case False
    let ?u = "s\<lparr>g_mem := g_mem s, g_adv := (g_adv s)(i := Some None)\<rparr>"
    note u = step_quiet [OF s(2) refl same_map_refl _ adv_inv_enter, of i]
    have st: "step ?p (g_mem s) = Some (Inr (k (Inl (get64 (gc s) 32)), g_mem ?u))"
      using False len by (simp add: mb_defs Let_def)
    have "unat cur \<noteq> tail_at (gc s)" using False by (metis word_unat_eq_iff)
    then have "at_adv i M (Some None) ?u \<and> unat cur < tail_at (gc ?u)"
      using s(1) by (simp add: scanned_def at_adv_def)
    with st u show ?thesis
      by (intro exI [of _ "k (Inl (get64 (gc s) 32))"] exI [of _ ?u]) auto
  qed
next
  fix p'
  show "ctriple H g b N i (\<lambda>u. p' = k (Inr cur) \<and> over g i M u \<or>
      (\<exists>v. p' = k (Inl v)) \<and> at_adv i M (Some None) u \<and> unat cur < tail_at (gc u)) p' Q"
    using assms(4,5) by (auto simp: triple_def)
qed

text \<open>With fuel for every slot between the tail and the end of the log, the loop ends.\<close>

lemma advance_triple:
  assumes "geom_ok g" "N \<le> 2 ^ 32"
  shows "ctriple H g b N i (\<lambda>s. at_adv i M (Some None) s \<and> cap g \<le> n + tail_at (gc s))
    (advance_loop (Suc n) g) (\<lambda>_. over g i M)"
proof (induction n)
  have ret: "ctriple H g b N i (over g i M) (Ret x) (\<lambda>_. over g i M)" for x :: u64
    by (rule conc.triple_Ret) (rule keeps_over)
  have retry: "ctriple H g b N i (\<lambda>s. at_adv i M (Some None) s \<and> unat cur < tail_at (gc s) \<and> unat cur < cap g)
      (advance_loop n g) (\<lambda>_. over g i M)"
    if "cap g \<le> n + unat cur" and
      IH: "\<And>n'. n = Suc n' \<Longrightarrow> ctriple H g b N i (\<lambda>s. at_adv i M (Some None) s \<and> cap g \<le> n' + tail_at (gc s))
        (advance_loop (Suc n') g) (\<lambda>_. over g i M)" for cur :: u64 and n
  proof (cases n)
    case 0
    with that(1) show ?thesis by (simp add: triple_def)
  next
    case (Suc n')
    with that(1) show ?thesis
      unfolding Suc by (intro conc.triple_pre [OF IH [OF Suc]]) simp
  qed
  have loop: "ctriple H g b N i (\<lambda>s. at_adv i M (Some None) s \<and> cap g \<le> n + tail_at (gc s))
      (advance_loop (Suc n) g) (\<lambda>_. over g i M)"
    if IH: "\<And>n'. n = Suc n' \<Longrightarrow> ctriple H g b N i (\<lambda>s. at_adv i M (Some None) s \<and> cap g \<le> n' + tail_at (gc s))
        (advance_loop (Suc n') g) (\<lambda>_. over g i M)" for n
  proof -
    let ?f = "\<lambda>cur new_tail. if new_tail = cur then Ret cur
        else CompareExchangeU64 HDR_COMMITTED_TAIL cur new_tail AcqRel Acquire (\<lambda>r.
          case r of Inr _ \<Rightarrow> Ret new_tail | Inl _ \<Rightarrow> advance_loop n g)"
    let ?P = "\<lambda>cur s. tail_at b \<le> unat cur \<and> unat cur \<le> cap g \<and> cap g \<le> n + unat cur \<and>
      at_adv i M (Some None) s \<and> unat cur \<le> tail_at (gc s)"
    have after: "ctriple H g b N i (scanned g i M (unat cur) m) (?f cur m) (\<lambda>_. over g i M)"
      if c: "cap g \<le> n + unat cur" for cur m
    proof (cases "m = cur")
      case True
      have "over g i M s" if "scanned g i M (unat cur) cur s" for s
        using that by (auto simp: scanned_def over_def adv_over_def)
      then show ?thesis unfolding True by (auto intro: conc.triple_pre [OF ret])
    next
      case False
      have "unat cur < cap g" if "scanned g i M (unat cur) m s" for s
        using that False by (auto simp: scanned_def le_less word_unat_eq_iff)
      then have *: "ctriple H g b N i (scanned g i M (unat cur) m) p Q"
        if "unat cur < cap g \<Longrightarrow> ctriple H g b N i (scanned g i M (unat cur) m) p Q" for p :: "u64 prog" and Q
        using that by (auto simp: triple_def)
      have "ctriple H g b N i (scanned g i M (unat cur) m)
          (CompareExchangeU64 HDR_COMMITTED_TAIL cur m AcqRel Acquire (\<lambda>r.
            case r of Inr _ \<Rightarrow> Ret m | Inl _ \<Rightarrow> advance_loop n g)) (\<lambda>_. over g i M)"
        by (rule *, rule tail_cas [OF assms not_sym [OF False]])
          (use ret retry [OF c IH] in \<open>auto elim: conc.triple_pre\<close>)
      with False show ?thesis by simp
    qed
    have scan: "ctriple H g b N i (?P cur) (prog_bind (scan_committed g cur) (?f cur)) (\<lambda>_. over g i M)" for cur
    proof (cases "tail_at b \<le> unat cur \<and> unat cur \<le> cap g \<and> cap g \<le> n + unat cur")
      case True
      then show ?thesis
        by (intro conc.triple_bind [OF conc.triple_pre [OF scan_triple [OF assms(1) _ le_refl]] after]) auto
    next
      case False
      then show ?thesis unfolding triple_def by blast
    qed
    show ?thesis
      unfolding advance_loop.simps
      by (rule tr_LoadU64 [OF keeps_conj [OF keeps_at_adv] _ _ _ _ scan])
        (use total_ge [OF assms(1)] in \<open>auto simp: keeps_def tail_inv_def dest: conc_invD(4) rely_tail\<close>)
  qed
  { case 0 show ?case by (rule loop) simp }
  { case (Suc n) show ?case by (rule loop) (use Suc in simp) }
qed

lemma advance_committed_triple:
  assumes "geom_ok g" "N \<le> 2 ^ 32"
  shows "ctriple H g b N i (at_adv i M (Some None)) (advance_committed_tail g) (\<lambda>_. over g i M)"
  unfolding advance_committed_tail_def
  by (rule conc.triple_pre [OF advance_triple [OF assms]]) simp

end
