(* ===== verification/ConcAppend.thy ===== *)
theory ConcAppend
  imports ConcTail
begin

text \<open>
  \<open>append\<close> under interference: it takes a slot no other thread takes, nobody touches the slot
  while it is written, and when \<open>append\<close> returns the index the slot holds the record, in the
  cache and on the media.
\<close>

section \<open>The slot being written\<close>

text \<open>Slot \<open>w\<close> holds the bytes \<open>v\<close>, and those in \<open>Y\<close> are on the media.\<close>

definition slot_is :: "pool_geometry \<Rightarrow> nat \<Rightarrow> bytes \<Rightarrow> nat set \<Rightarrow> ghost \<Rightarrow> bool" where
  "slot_is g w v Y s \<longleftrightarrow> same_rec g w v (gc s) \<and>
     (\<forall>x\<in>rec_region g w \<inter> Y. media (g_mem s) x = gc s x)"

definition at_slot ::
    "pool_geometry \<Rightarrow> nat \<Rightarrow> (nat \<times> nat) set \<Rightarrow> nat option option \<Rightarrow> nat \<Rightarrow> bytes \<Rightarrow> nat set \<Rightarrow> ghost \<Rightarrow> bool" where
  "at_slot g i M q w v Y s \<longleftrightarrow> at_adv i M q s \<and> (\<exists>k. (w, k) \<in> M) \<and> w < cap g \<and> slot_is g w v Y s"

lemma slot_is_kept: "slot_is g w v Y s \<Longrightarrow> kept g w (g_mem s) (g_mem t) \<Longrightarrow> slot_is g w v Y t"
  by (auto simp: slot_is_def kept_def same_rec_def)

lemma keeps_at_slot: "ckeeps H g b N i (at_slot g i M q w v Y)"
proof -
  have "at_slot g i M q w v Y t" if s: "at_slot g i M q w v Y s" and r: "rely g i s t" for s t
  proof -
    have "kept g w (g_mem s) (g_mem t)"
      using s r by (auto simp: at_slot_def at_adv_def mine_def rely_def)
    with s r show ?thesis
      by (auto simp: at_slot_def at_adv_def rely_mine rely_thread slot_is_kept)
  qed
  then show ?thesis unfolding keeps_def by blast
qed

lemma keeps_slot_done: "w < cap g \<Longrightarrow> v (rec_base g w) = STATE_COMMITTED \<Longrightarrow> geom_ok g \<Longrightarrow>
    keeps I (evolve g) (slot_is g w v Y)"
proof -
  assume w: "w < cap g" "v (rec_base g w) = STATE_COMMITTED" "geom_ok g"
  have "slot_is g w v Y t" if s: "slot_is g w v Y s" and e: "evolve g s t" for s t
  proof -
    have "done_at g (gc s) w"
      using s w(2) base_in_region [OF w(3), of w] by (simp add: slot_is_def same_rec_def done_at_def)
    with e w(1) have "kept g w (g_mem s) (g_mem t)" by (simp add: evolve_def)
    with s show ?thesis by (rule slot_is_kept)
  qed
  then show ?thesis unfolding keeps_def by blast
qed

text \<open>Stores that depend on and change the bytes of slot \<open>w\<close> only.\<close>

definition local_at :: "pool_geometry \<Rightarrow> nat \<Rightarrow> (bytes \<Rightarrow> bytes) \<Rightarrow> bool" where
  "local_at g w f \<longleftrightarrow> (\<forall>c. agree_off (rec_region g w) c (f c)) \<and>
     (\<forall>c c'. same_rec g w c c' \<longrightarrow> same_rec g w (f c) (f c'))"

lemma local_poke: "{a..<a + length bs} \<subseteq> rec_region g w \<Longrightarrow> local_at g w (\<lambda>c. poke c a bs)"
  unfolding local_at_def same_rec_def
  by (intro conjI allI agree_off_poke agree_off_refl) (auto simp: poke_def)

lemma local_put64: "{a..<a + 8} \<subseteq> rec_region g w \<Longrightarrow> local_at g w (\<lambda>c. put64 c a v)"
  unfolding put64_def by (rule local_poke) simp

lemma local_upd: "a \<in> rec_region g w \<Longrightarrow> local_at g w (\<lambda>c. c(a := v))"
  by (auto simp: local_at_def same_rec_def agree_off_upd)

lemma tr_store:
  assumes "geom_ok g" "N \<le> 2 ^ 32" "local_at g w f" "v (rec_base g w) \<noteq> STATE_COMMITTED"
    and "f v (rec_base g w) = STATE_COMMITTED \<Longrightarrow> slot_view H g (f v) w \<noteq> SCorrupt"
    and "\<And>m. pool g m \<Longrightarrow> step p m = Some (Inr (k, m\<lparr>cache := f (cache m)\<rparr>))"
    and "Z \<subseteq> Y" "\<And>x c. x \<in> Z \<Longrightarrow> f c x = c x"
    and "ctriple H g b N i (at_slot g i M (if f v (rec_base g w) = STATE_COMMITTED then Some None else q) w (f v) Z) k Q"
  shows "ctriple H g b N i (at_slot g i M q w v Y) p Q"
proof (rule conc.triple_step [OF keeps_at_slot])
  let ?q = "if f v (rec_base g w) = STATE_COMMITTED then Some None else q"
  fix s assume s: "at_slot g i M q w v Y s" "conc_inv H g b N s"
  note D = conc_invD [OF s(2)]
  let ?u = "s\<lparr>g_mem := (g_mem s)\<lparr>cache := f (gc s)\<rparr>, g_adv := (g_adv s)(i := ?q)\<rparr>"
  have eq: "same_rec g w v (gc s)" using s(1) by (simp add: at_slot_def slot_is_def)
  then have eq': "same_rec g w (f v) (f (gc s))" using assms(3) by (simp add: local_at_def)
  note base = base_in_region [OF assms(1), of w]
  have old: "\<not> done_at g (gc s) w"
    using eq base assms(4) by (simp add: same_rec_def done_at_def)
  have new: "done_at g (f (gc s)) w = (f v (rec_base g w) = STATE_COMMITTED)"
    using eq' base by (simp add: same_rec_def done_at_def)
  have view: "slot_view H g (f (gc s)) w \<noteq> SCorrupt"
  proof (cases "f v (rec_base g w) = STATE_COMMITTED")
    case True
    with assms(5) same_rec_view [OF assms(1) eq', of H] show ?thesis by simp
  next
    case False
    then have nc: "\<not> committed_state (slot_view H g (f (gc s)) w)"
      unfolding committed_done new .
    show ?thesis
    proof
      assume "slot_view H g (f (gc s)) w = SCorrupt"
      with nc show False by (simp del: committed_state_view)
    qed
  qed
  obtain j where own: "g_own s w = Some (i, j)"
    using s(1) by (auto simp: at_slot_def at_adv_def mine_def)
  have adv: "g_adv s i = q" using s(1) by (simp add: at_slot_def at_adv_def)
  have "agree_off (rec_region g w) (gc s) (f (gc s))" using assms(3) by (simp add: local_at_def)
  note u = step_own [OF s(2) own old this view _ assms(2), of ?q, unfolded new adv]
  have "at_slot g i M ?q w (f v) Z ?u"
    using s(1) eq' assms(7,8) by (auto simp: at_slot_def at_adv_def slot_is_def)
  with u assms(6) [OF D(1)] show "\<exists>p' u. step p (g_mem s) = Some (Inr (p', g_mem u)) \<and>
      conc_inv H g b N u \<and> guar g i s u \<and> p' = k \<and> at_slot g i M ?q w (f v) Z u"
    by (intro exI [of _ k] exI [of _ ?u]) simp
next
  fix p'
  show "ctriple H g b N i (\<lambda>u. p' = k \<and> at_slot g i M
      (if f v (rec_base g w) = STATE_COMMITTED then Some None else q) w (f v) Z u) p' Q"
    using assms(9) by (auto simp: triple_def)
qed

text \<open>A flush of a part of the slot.\<close>

lemma tr_slot_flush:
  assumes "unat a + unat n \<le> unat (g_total_size g)"
    and "ctriple H g b N i (at_slot g i M q w v (Y \<union> {unat a..<unat a + unat n})) k Q"
  shows "ctriple H g b N i (at_slot g i M q w v Y) (Flush a n k) Q"
proof (rule conc.triple_step [OF keeps_at_slot])
  fix s assume s: "at_slot g i M q w v Y s" "conc_inv H g b N s"
  note D = conc_invD [OF s(2)]
  let ?n = "flushed (g_mem s) a n" and ?Z = "Y \<union> {unat a..<unat a + unat n}"
  let ?u = "s\<lparr>g_mem := ?n, g_adv := (g_adv s)(i := g_adv s i)\<rparr>"
  have len: "unat a + unat n \<le> unat (mm_len (g_mem s))" using assms(1) poolD(3) [OF D(1)] by simp
  have med: "media ?n x = media (g_mem s) x \<or> media ?n x = gc s x" for x
    using media_flush_either [OF poolD(4) [OF D(1)] len, of x] by (auto simp: flushed_def)
  note u = step_quiet [OF s(2) _ _ med, of i "g_adv s i", simplified, OF D(6)]
  have cov: "media ?n x = gc s x" if "unat a \<le> x" "x < unat a + unat n" for x
    using media_flush_covers [OF D(2) poolD(4) [OF D(1)] len that] by (simp add: flushed_def)
  have "media ?n x = gc s x" if "media (g_mem s) x = gc s x" for x
    using med [of x] that by auto
  with cov have "at_slot g i M q w v ?Z ?u"
    using s(1) by (auto simp: at_slot_def at_adv_def slot_is_def)
  with u len show "\<exists>p' u. step (Flush a n k) (g_mem s) = Some (Inr (p', g_mem u)) \<and>
      conc_inv H g b N u \<and> guar g i s u \<and> p' = k \<and> at_slot g i M q w v ?Z u"
    by (intro exI [of _ k] exI [of _ ?u]) (simp add: mb_defs flushed_def)
next
  fix p'
  show "ctriple H g b N i (\<lambda>u. p' = k \<and> at_slot g i M q w v (Y \<union> {unat a..<unat a + unat n}) u) p' Q"
    using assms(2) by (auto simp: triple_def)
qed

section \<open>Writing a record\<close>

lemma region_eq: "geom_ok g \<Longrightarrow> rec_region g w = {rec_base g w..<rec_base g w + (64 + psz g)}"
  by (simp add: rec_region_def geom_okD)

lemma len_ok: "geom_ok g \<Longrightarrow> w < cap g \<Longrightarrow> pool g m \<Longrightarrow> rec_base g w + (64 + psz g) \<le> unat (mm_len m)"
  using slot_end [of g w] poolD(3) [of g m] by simp

lemma tr_state:
  assumes ok: "geom_ok g" "N \<le> 2 ^ 32" "w < cap g"
    and "unat a = rec_base g w" "v (rec_base g w) \<noteq> STATE_COMMITTED" "x \<noteq> STATE_COMMITTED"
    and "ord \<notin> {Acquire, AcqRel}"
    and "ctriple H g b N i (at_slot g i M q w (v(rec_base g w := x)) {}) k Q"
  shows "ctriple H g b N i (at_slot g i M q w v {}) (StoreU8 a x ord k) Q"
proof (rule tr_store [where f = "\<lambda>c. c(rec_base g w := x)" and v = v, OF ok(1,2) local_upd [OF base_in_region [OF ok(1)]] assms(5)])
  show "step (StoreU8 a x ord k) m = Some (Inr (k, m\<lparr>cache := (cache m)(rec_base g w := x)\<rparr>))" if "pool g m" for m
    using assms(4,7) len_ok [OF ok(1,3) that] by (simp add: mb_defs)
qed (use assms(6,8) in simp_all)

lemma tr_word:
  assumes ok: "geom_ok g" "N \<le> 2 ^ 32" "w < cap g"
    and "unat a = rec_base g w + j" "8 \<le> j" "j + 8 \<le> 64 + psz g" "j mod 8 = 0"
    and "v (rec_base g w) \<noteq> STATE_COMMITTED" "ord \<notin> {Acquire, AcqRel}"
    and "ctriple H g b N i (at_slot g i M q w (put64 v (rec_base g w + j) x) {}) k Q"
  shows "ctriple H g b N i (at_slot g i M q w v {}) (StoreU64 a x ord k) Q"
proof -
  let ?B = "rec_base g w"
  have sub: "{?B + j..<?B + j + 8} \<subseteq> rec_region g w" using assms(6) by (auto simp: region_eq [OF ok(1)])
  have al: "(?B + j) mod 8 = 0" using rec_base_mod8 [OF ok(1), of w] assms(7) by presburger
  have base: "put64 v (?B + j) x ?B = v ?B" using assms(5) by (simp add: put64_out)
  show ?thesis
  proof (rule tr_store [where f = "\<lambda>c. put64 c (rec_base g w + j) x" and v = v, OF ok(1,2) local_put64 [OF sub] assms(8)])
    show "step (StoreU64 a x ord k) m = Some (Inr (k, m\<lparr>cache := put64 (cache m) (?B + j) x\<rparr>))" if "pool g m" for m
      using assms(4,6,9) al len_ok [OF ok(1,3) that] by (simp add: mb_defs)
  qed (use assms(8,10) base in simp_all)
qed

lemma tr_bytes:
  assumes ok: "geom_ok g" "N \<le> 2 ^ 32" "w < cap g"
    and "unat a = rec_base g w + j" "1 \<le> j" "j + length bs \<le> 64 + psz g"
    and "v (rec_base g w) \<noteq> STATE_COMMITTED"
    and "ctriple H g b N i (at_slot g i M q w (poke v (rec_base g w + j) bs) {}) k Q"
  shows "ctriple H g b N i (at_slot g i M q w v {}) (Write a bs k) Q"
proof -
  let ?B = "rec_base g w"
  have sub: "{?B + j..<?B + j + length bs} \<subseteq> rec_region g w" using assms(6) by (auto simp: region_eq [OF ok(1)])
  have base: "poke v (?B + j) bs ?B = v ?B" using assms(5) by (simp add: poke_out)
  show ?thesis
  proof (rule tr_store [where f = "\<lambda>c. poke c (rec_base g w + j) bs" and v = v, OF ok(1,2) local_poke [OF sub] assms(7)])
    show "step (Write a bs k) m = Some (Inr (k, m\<lparr>cache := poke (cache m) (?B + j) bs\<rparr>))" if "pool g m" for m
      using assms(4,6) len_ok [OF ok(1,3) that] by (simp add: mb_defs)
  qed (use assms(7,8) base in simp_all)
qed

lemma tr_bytes_nonempty:
  assumes ok: "geom_ok g" "N \<le> 2 ^ 32" "w < cap g"
    and "unat a = rec_base g w + j" "1 \<le> j" "j + length bs \<le> 64 + psz g"
    and "v (rec_base g w) \<noteq> STATE_COMMITTED"
    and "ctriple H g b N i (at_slot g i M q w (poke v (rec_base g w + j) bs) {}) k Q"
  shows "ctriple H g b N i (at_slot g i M q w v {}) ((if bs \<noteq> [] then Write a bs else id) k) Q"
  using tr_bytes [OF assms] assms(8) by (cases "bs = []") simp_all

text \<open>The flush of the record, the commit, and the flush of its state.\<close>

lemma tr_commit:
  assumes ok: "geom_ok g" "N \<le> 2 ^ 32" "w < cap g"
    and "unat a = rec_base g w" "unat n = 64 + psz g" "v (rec_base g w) \<noteq> STATE_COMMITTED"
    and "slot_view H g (v(rec_base g w := STATE_COMMITTED)) w \<noteq> SCorrupt"
    and "unat a' = rec_base g w"
    and "ctriple H g b N i (\<lambda>s. at_adv i M (Some None) s \<and> slot_is g w (v(rec_base g w := STATE_COMMITTED)) UNIV s) k Q"
  shows "ctriple H g b N i (at_slot g i M q w v {})
    (Flush a n (StoreU8 a' STATE_COMMITTED Release (Flush a CACHELINE k))) Q"
proof -
  let ?B = "rec_base g w" and ?w = "v(rec_base g w := STATE_COMMITTED)"
  let ?Y = "{?B..<?B + (64 + psz g)}"
  have "ctriple H g b N i (at_slot g i M (Some None) w ?w (?Y - {?B} \<union> {?B..<?B + 64})) k Q"
    by (rule conc.triple_pre [OF assms(9)])
      (auto simp: at_slot_def slot_is_def region_eq [OF ok(1)])
  then have last: "ctriple H g b N i (at_slot g i M (Some None) w ?w (?Y - {?B})) (Flush a CACHELINE k) Q"
    by (intro tr_slot_flush) (use slot_end [OF ok(1,3)] assms(4) in simp_all)
  have "ctriple H g b N i (at_slot g i M q w v ?Y) (StoreU8 a' STATE_COMMITTED Release (Flush a CACHELINE k)) Q"
  proof (rule tr_store [where f = "\<lambda>c. c(rec_base g w := STATE_COMMITTED)" and v = v, OF ok(1,2) local_upd [OF base_in_region [OF ok(1)]] assms(6)])
    show "step (StoreU8 a' STATE_COMMITTED Release (Flush a CACHELINE k)) m =
        Some (Inr (Flush a CACHELINE k, m\<lparr>cache := (cache m)(?B := STATE_COMMITTED)\<rparr>))" if "pool g m" for m
      using assms(8) len_ok [OF ok(1,3) that] by (simp add: mb_defs)
    show "?Y - {?B} \<subseteq> ?Y" by blast
    show "ctriple H g b N i (at_slot g i M (if ?w ?B = STATE_COMMITTED then Some None else q) w ?w (?Y - {?B}))
        (Flush a CACHELINE k) Q"
      using last by simp
  qed (use assms(7) in auto)
  then have "ctriple H g b N i (at_slot g i M q w v ({} \<union> {unat a..<unat a + unat n}))
      (StoreU8 a' STATE_COMMITTED Release (Flush a CACHELINE k)) Q"
    by (simp add: assms(4,5))
  then show ?thesis by (intro tr_slot_flush) (use slot_end [OF ok(1,3)] assms(4,5) in simp_all)
qed

section \<open>Append\<close>

text \<open>What \<open>append\<close> leaves in its slot, and what stays true of it.\<close>

definition appended :: "'h hasher \<Rightarrow> pool_geometry \<Rightarrow> nat \<Rightarrow> log_record \<Rightarrow> mmap \<Rightarrow> bool" where
  "appended H g w e m \<longleftrightarrow> w < cap g \<and> slot_view H g (cache m) w = SCommitted e \<and> synced g m w"

lemma keeps_appended: "geom_ok g \<Longrightarrow> keeps I (evolve g) (\<lambda>s. appended H g w e (g_mem s))"
proof -
  assume ok: "geom_ok g"
  have "appended H g w e (g_mem t)" if s: "appended H g w e (g_mem s)" and e: "evolve g s t" for s t
  proof -
    have "committed_state (slot_view H g (gc s) w)" using s by (simp add: appended_def del: committed_state_view)
    then have "kept g w (g_mem s) (g_mem t)"
      using s e by (simp add: committed_done appended_def evolve_def del: committed_state_view)
    then show ?thesis
      using s same_rec_view [OF ok kept_same, of w "g_mem s" "g_mem t" H] kept_synced
      by (simp add: appended_def)
  qed
  then show ?thesis unfolding keeps_def by blast
qed

text \<open>All slots after those reserved at the start are taken.\<close>

definition full :: "pool_geometry \<Rightarrow> bytes \<Rightarrow> ghost \<Rightarrow> bool" where
  "full g b s \<longleftrightarrow> {reserve_at b..<cap g} \<subseteq> dom (g_own s)"

lemma keeps_full: "keeps I (evolve g) (full g b)"
  unfolding keeps_def full_def evolve_def using map_le_implies_dom_le by blast

definition append_post ::
    "'h hasher \<Rightarrow> pool_geometry \<Rightarrow> bytes \<Rightarrow> nat \<Rightarrow> (nat \<times> nat) set \<Rightarrow> nat \<Rightarrow> u16 \<Rightarrow> u64 \<Rightarrow> u8 list \<Rightarrow>
     fence_error + u64 \<Rightarrow> ghost \<Rightarrow> bool" where
  "append_post H g b i M k host term data r s \<longleftrightarrow>
     (case r of
        Inr index \<Rightarrow> length data \<le> psz g \<and> 0 < unat index \<and> idle i (insert (unat index - 1, k) M) s \<and>
          appended H g (unat index - 1) (new_record host (index - 1) term data) (g_mem s) \<and>
          (\<forall>x\<in>M. fst x < unat index - 1)
      | Inl e \<Rightarrow> idle i M s \<and>
          (e = PayloadTooLarge (g_payload_size g) (word_of_nat (length data)) \<and> psz g < length data \<or>
           (\<exists>n. e = PoolFull (g_capacity g) n \<and> cap g \<le> unat n) \<and> length data \<le> psz g \<and> full g b s))"

lemma keeps_post:
  assumes "geom_ok g"
  shows "ckeeps H g b N i (append_post H g b i M k host term data r)"
proof -
  have "append_post H g b i M k host term data r t"
    if s: "append_post H g b i M k host term data r s" "conc_inv H g b N s" "conc_inv H g b N t" "rely g i s t" for s t
  proof -
    note adv = keeps_at_adv [of H g b N i, unfolded keeps_def, rule_format, OF _ s(2,3,4)]
    have e: "evolve g s t" using s(4) by (simp add: rely_def)
    note app = keeps_appended [OF assms, of "conc_inv H g b N", unfolded keeps_def, rule_format, OF _ s(2,3) e]
    note fu = keeps_full [of "conc_inv H g b N" g b, unfolded keeps_def, rule_format, OF _ s(2,3) e]
    show ?thesis using s(1) adv app fu by (auto simp: append_post_def split: sum.splits)
  qed
  then show ?thesis unfolding keeps_def by blast
qed

lemma append_record_triple:
  assumes ok: "geom_ok g" "N \<le> 2 ^ 32" and "unat slot < cap g" "length data \<le> psz g"
    and "rt_geometry rt = g" "unat (rt_host_id rt) < hosts g"
    and "v (rec_base g (unat slot)) \<noteq> STATE_COMMITTED" "\<forall>x\<in>M. fst x < unat slot"
  shows "ctriple H g b N i (at_slot g i (insert (unat slot, k) M) None (unat slot) v {})
    (append_record H rt term data slot) (append_post H g b i M k (rt_host_id rt) term data)"
proof -
  let ?h = "rt_host_id rt" and ?w = "unat slot" and ?B = "rec_base g (unat slot)"
  let ?M = "insert (unat slot, k) M"
  let ?v = "written H ?h term data slot ?B v" and ?e = "new_record ?h slot term data"
  have s32: "unat (ucast slot :: u32) = ?w"
    using assms(3) unat_u32_le [of "g_capacity g"] by (intro unat_ucast_u64_u32) linarith
  have B: "unat (record_offset g (ucast slot)) = ?B" by (simp add: unat_record_offset s32)
  have Bp: "unat (record_offset g (ucast slot) + c) = ?B + unat c" if "unat c < 4294967296" for c
    using that by (simp add: unat_record_offset_plus s32)
  have rs: "unat (ucast (g_record_size g) :: usize) = 64 + psz g"
    using geom_okD(4) [OF ok(1)] by simp
  have view: "slot_view H g (?v(?B := STATE_COMMITTED)) ?w = SCommitted ?e"
    using slot_view_written [OF assms(4)] by (simp add: new_record_def)
  have nc: "?v ?B \<noteq> STATE_COMMITTED"
    by (simp add: written_def write_meta_def Let_def field_simps_mem)
  have i1: "unat (slot + 1) = Suc ?w"
    using assms(3) unat_u32_le [of "g_capacity g"] by (subst unat_add_lt64) simp_all
  let ?F = "slot_is g ?w (?v(?B := STATE_COMMITTED)) UNIV"
  have F: "keeps (conc_inv H g b N) (evolve g) ?F"
    by (rule keeps_slot_done [OF assms(3) _ ok(1)]) simp
  have app: "appended H g ?w ?e (g_mem s)" if "?F s" for s
    using that view same_rec_view [OF ok(1), of ?w "?v(?B := STATE_COMMITTED)" "gc s" H] assms(3)
    by (simp add: appended_def slot_is_def synced_def)
  note fr = conc.triple_frame [OF _ F]
  note mc = metric_calls [OF ok(1) assms(6) ok(2)]
  have fin: "ctriple H g b N i (\<lambda>s. idle i ?M s \<and> ?F s) (Ret (Inr (slot + 1)))
      (append_post H g b i M k ?h term data)"
    by (rule conc.triple_pre [OF conc.triple_Ret [where Q = "append_post H g b i M k ?h term data", OF keeps_post [OF ok(1)]]])
      (use assms(4,8) app i1 in \<open>simp add: append_post_def\<close>)
  have t3: "ctriple H g b N i (\<lambda>s. idle i ?M s \<and> ?F s)
      (prog_bind (increment_bytes_written g ?h (word_of_nat (length data))) (\<lambda>_. Ret (Inr (slot + 1))))
      (append_post H g b i M k ?h term data)"
    by (rule conc.triple_bind [OF conc.triple_pre [OF fr [OF mc(3)]] fin]) (simp add: idle_over)
  have t2: "ctriple H g b N i (\<lambda>s. over g i ?M s \<and> ?F s)
      (prog_bind (increment_appends g ?h) (\<lambda>_.
       prog_bind (increment_bytes_written g ?h (word_of_nat (length data))) (\<lambda>_. Ret (Inr (slot + 1)))))
      (append_post H g b i M k ?h term data)"
    by (rule conc.triple_bind [OF fr [OF mc(1)] t3])
  have t1: "ctriple H g b N i (\<lambda>s. at_adv i ?M (Some None) s \<and> ?F s)
      (prog_bind (advance_committed_tail g) (\<lambda>_. prog_bind (increment_appends g ?h) (\<lambda>_.
       prog_bind (increment_bytes_written g ?h (word_of_nat (length data))) (\<lambda>_. Ret (Inr (slot + 1))))))
      (append_post H g b i M k ?h term data)"
    by (rule conc.triple_bind [OF fr [OF advance_committed_triple [OF ok]] t2])
  have commit: "ctriple H g b N i (at_slot g i ?M None ?w ?v {})
      (Flush (record_offset g (ucast slot)) (ucast (g_record_size g))
        (StoreU8 (record_offset g (ucast slot) + REC_STATE) STATE_COMMITTED Release
        (Flush (record_offset g (ucast slot)) CACHELINE
        (prog_bind (advance_committed_tail g) (\<lambda>_. prog_bind (increment_appends g ?h) (\<lambda>_.
         prog_bind (increment_bytes_written g ?h (word_of_nat (length data))) (\<lambda>_. Ret (Inr (slot + 1)))))))))
      (append_post H g b i M k ?h term data)"
    by (rule tr_commit [OF ok assms(3) B rs nc _ _ t1]) (simp_all add: view B)
  show ?thesis
    unfolding append_record_def Let_def assms(5)
    by (rule tr_state [OF ok assms(3)], simp add: B, rule assms(7), simp, simp,
        rule tr_word [OF ok assms(3), where j = 8], simp add: Bp, simp, simp, simp, simp, simp,
        rule tr_word [OF ok assms(3), where j = 16], simp add: Bp, simp, simp, simp, simp add: put64_out, simp,
        rule tr_word [OF ok assms(3), where j = 24], simp add: Bp, simp, simp, simp, simp add: put64_out, simp,
        rule tr_bytes [OF ok assms(3), where j = 32], simp add: Bp, simp, simp, simp add: put64_out,
        rule tr_bytes_nonempty [OF ok assms(3), where j = 64], simp add: Bp, simp, use assms(4) in simp,
        simp add: put64_out poke_out,
        rule tr_word [OF ok assms(3), where j = 40], simp add: Bp, simp, simp, simp,
        simp add: put64_out poke_out, simp,
        rule commit [unfolded written_def write_meta_def Let_def])
qed

text \<open>A reservation beyond the capacity, until it is taken back.\<close>

definition owing :: "pool_geometry \<Rightarrow> bytes \<Rightarrow> nat \<Rightarrow> (nat \<times> nat) set \<Rightarrow> ghost \<Rightarrow> bool" where
  "owing g b i M s \<longleftrightarrow> mine i s = M \<and> i \<in> g_undo s \<and> g_adv s i = None \<and> full g b s"

lemma keeps_owing: "ckeeps H g b N i (owing g b i M)"
proof -
  have "owing g b i M t" if "owing g b i M s" "rely g i s t" "conc_inv H g b N s" "conc_inv H g b N t" for s t
  proof -
    have "evolve g s t" using that(2) by (simp add: rely_def)
    with keeps_full [of "conc_inv H g b N" g b] that(3,4) have "full g b s \<Longrightarrow> full g b t"
      by (auto simp: keeps_def)
    with that(1,2) show ?thesis by (simp add: owing_def rely_mine rely_thread)
  qed
  then show ?thesis unfolding keeps_def by blast
qed

lemma undo_triple:
  assumes "geom_ok g" "N \<le> 2 ^ 32"
    and "ctriple H g b N i (\<lambda>s. idle i M s \<and> full g b s) k Q"
  shows "ctriple H g b N i (owing g b i M) (FetchAddU64 HDR_RESERVE_TAIL 0xFFFFFFFFFFFFFFFF Relaxed (\<lambda>_. k)) Q"
proof (rule conc.triple_step [OF keeps_owing])
  fix s assume s: "owing g b i M s" "conc_inv H g b N s"
  let ?r = "get64 (gc s) 40" and ?p = "FetchAddU64 HDR_RESERVE_TAIL 0xFFFFFFFFFFFFFFFF Relaxed (\<lambda>_. k)"
  let ?u = "s\<lparr>g_mem := (g_mem s)\<lparr>cache := put64 (gc s) 40 (?r - 1)\<rparr>, g_own := g_own s, g_undo := g_undo s - {i}\<rparr>"
  have i: "i \<in> g_undo s" using s(1) by (simp add: owing_def)
  note less = reserve_inv_back [OF conc_invD(3) [OF s(2)] i]
  have dec: "unat (?r - 1) = unat ?r - 1" using less(2) by (simp add: unat_sub word_le_nat_alt)
  have u: "conc_inv H g b N ?u" "guar g i s ?u"
    using step_undo [OF s(2) _ assms(2), of "?r - 1" "g_undo s - {i}" i] less(1) dec by simp_all
  have "64 \<le> unat (mm_len (g_mem s))" by (rule pool_header_bounds [OF conc_invD(1) [OF s(2)]])
  moreover have minus: "x + 18446744073709551615 = x - 1" for x :: u64 by simp
  ultimately have st: "step ?p (g_mem s) = Some (Inr (k, g_mem ?u))"
    by (simp add: mb_defs Let_def minus)
  have "idle i M ?u \<and> full g b ?u"
    using s(1) by (simp add: owing_def at_adv_def mine_def full_def)
  with st u show "\<exists>p' u. step ?p (g_mem s) = Some (Inr (p', g_mem u)) \<and> conc_inv H g b N u \<and> guar g i s u \<and>
      p' = k \<and> idle i M u \<and> full g b u"
    by (intro exI [of _ k] exI [of _ ?u]) simp
next
  fix p'
  show "ctriple H g b N i (\<lambda>u. p' = k \<and> idle i M u \<and> full g b u) p' Q"
    using assms(3) by (auto simp: triple_def)
qed

lemma reserve_triple:
  assumes "conc_start H g b" "N \<le> 2 ^ 32" "i < N"
    and "\<And>slot v. unat slot < cap g \<Longrightarrow> v (rec_base g (unat slot)) \<noteq> STATE_COMMITTED \<Longrightarrow>
      \<forall>x\<in>M. fst x < unat slot \<Longrightarrow> ctriple H g b N i (at_slot g i (insert (unat slot, k) M) None (unat slot) v {}) (f slot) Q"
    and "\<And>slot. cap g \<le> unat slot \<Longrightarrow> ctriple H g b N i (owing g b i M) (f slot) Q"
  shows "ctriple H g b N i (idle i M) (FetchAddU64 HDR_RESERVE_TAIL 1 AcqRel f) Q"
proof (rule conc.triple_step [OF keeps_at_adv, where P' = "\<lambda>p' u. \<exists>slot. p' = f slot \<and>
    (unat slot < cap g \<and> (\<forall>x\<in>M. fst x < unat slot) \<and> (\<exists>v. v (rec_base g (unat slot)) \<noteq> STATE_COMMITTED \<and>
       at_slot g i (insert (unat slot, k) M) None (unat slot) v {} u) \<or>
     cap g \<le> unat slot \<and> owing g b i M u)"])
  fix s assume s: "idle i M s" "conc_inv H g b N s"
  let ?r = "get64 (gc s) 40" and ?p = "FetchAddU64 HDR_RESERVE_TAIL 1 AcqRel f"
  let ?m = "(g_mem s)\<lparr>cache := put64 (gc s) 40 (?r + 1)\<rparr>"
  note D = conc_invD [OF s(2)]
  have st: "step ?p (g_mem s) = Some (Inr (f ?r, ?m))"
    using pool_header_bounds [OF D(1)] by (simp add: mb_defs Let_def)
  show "\<exists>p' u. step ?p (g_mem s) = Some (Inr (p', g_mem u)) \<and> conc_inv H g b N u \<and> guar g i s u \<and>
    (\<exists>slot. p' = f slot \<and>
    (unat slot < cap g \<and> (\<forall>x\<in>M. fst x < unat slot) \<and> (\<exists>v. v (rec_base g (unat slot)) \<noteq> STATE_COMMITTED \<and>
       at_slot g i (insert (unat slot, k) M) None (unat slot) v {} u) \<or>
     cap g \<le> unat slot \<and> owing g b i M u))"
  proof (cases "unat ?r < cap g")
    case True
    let ?u = "s\<lparr>g_mem := ?m, g_own := (g_own s)(unat ?r \<mapsto> (i, k)), g_undo := g_undo s\<rparr>"
    note take = step_take(1,2) [OF s(2) assms(1) True assms(2), of i k]
      step_take(3,4) [OF s(2) assms(1) True assms(2)]
    have "\<not> committed_state (slot_view H g (gc s) (unat ?r))" unfolding take(4) by simp
    then have nd: "\<not> done_at g (gc s) (unat ?r)" unfolding committed_done .
    have M: "mine i ?u = insert (unat ?r, k) M" "\<forall>x\<in>M. fst x < unat ?r"
      using s(1) take(3) by (auto simp: at_adv_def mine_def split: if_splits)
    have at: "at_slot g i (insert (unat ?r, k) M) None (unat ?r) (gc ?u) {} ?u"
      using s(1) True M by (auto simp: at_slot_def at_adv_def slot_is_def)
    have "gc ?u (rec_base g (unat ?r)) \<noteq> STATE_COMMITTED"
      using nd header_store(1) [OF poolD(1) [OF D(1)], of 40 "gc s" "?r + 1" "unat ?r"]
      by (simp add: done_at_def)
    then show ?thesis
      using st take(1,2) True at M(2) by (intro exI [of _ "f ?r"] exI [of _ ?u]) auto
  next
    case False
    let ?u = "s\<lparr>g_mem := ?m, g_own := g_own s, g_undo := insert i (g_undo s)\<rparr>"
    have "cap g \<le> unat ?r" "i \<notin> g_undo s" using False s(1) by (simp_all add: at_adv_def)
    note bey = reserve_inv_beyond [OF D(3) this assms(3)]
    have inc: "unat (?r + 1) = Suc (unat ?r)"
      using reserve_inv_bound(1) [OF D(3) assms(2)] by (subst unat_add_lt64) simp_all
    have u: "conc_inv H g b N ?u" "guar g i s ?u"
      using step_undo [OF s(2) _ assms(2), of "?r + 1" "insert i (g_undo s)" i] bey(1) inc by simp_all
    have "owing g b i M ?u"
      using s(1) bey(2) by (simp add: owing_def at_adv_def mine_def full_def)
    then show ?thesis
      using st u False by (intro exI [of _ "f ?r"] exI [of _ ?u]) auto
  qed
next
  fix p'
  show "ctriple H g b N i (\<lambda>u. \<exists>slot. p' = f slot \<and>
    (unat slot < cap g \<and> (\<forall>x\<in>M. fst x < unat slot) \<and> (\<exists>v. v (rec_base g (unat slot)) \<noteq> STATE_COMMITTED \<and>
       at_slot g i (insert (unat slot, k) M) None (unat slot) v {} u) \<or>
     cap g \<le> unat slot \<and> owing g b i M u)) p' Q"
    using assms(4,5) unfolding triple_def by blast
qed

lemma append_triple:
  assumes "conc_start H g b" "N \<le> 2 ^ 32" "i < N" "rt_geometry rt = g" "unat (rt_host_id rt) < hosts g"
  shows "ctriple H g b N i (idle i M) (append H rt term data) (append_post H g b i M k (rt_host_id rt) term data)"
proof (cases "psz g < length data")
  case True
  let ?x = "Inl (PayloadTooLarge (g_payload_size g) (word_of_nat (length data)))"
  have "ctriple H g b N i (idle i M) (Ret ?x) (append_post H g b i M k (rt_host_id rt) term data)"
    by (rule conc.triple_pre [OF conc.triple_Ret [where x = ?x, OF keeps_post [OF conc_startD(1) [OF assms(1)]]]])
      (use True in \<open>simp add: append_post_def\<close>)
  with True assms(4) show ?thesis by (simp add: append_def Let_def)
next
  case False
  note ok = conc_startD(1) [OF assms(1)]
  let ?Q = "append_post H g b i M k (rt_host_id rt) term data"
  have full: "ctriple H g b N i (owing g b i M) (FetchAddU64 HDR_RESERVE_TAIL 0xFFFFFFFFFFFFFFFF Relaxed (\<lambda>_.
            prog_bind (increment_appends_failed g (rt_host_id rt)) (\<lambda>_.
            Ret (Inl (PoolFull (g_capacity g) slot))))) ?Q" if "cap g \<le> unat slot" for slot
  proof (rule undo_triple [OF ok assms(2)])
    let ?x = "Inl (PoolFull (g_capacity g) slot)"
    have last: "ctriple H g b N i (\<lambda>s. idle i M s \<and> full g b s) (Ret ?x) ?Q"
      by (rule conc.triple_pre [OF conc.triple_Ret [where x = ?x, OF keeps_post [OF ok]]])
        (use False that in \<open>auto simp: append_post_def\<close>)
    show "ctriple H g b N i (\<lambda>s. idle i M s \<and> full g b s)
        (prog_bind (increment_appends_failed g (rt_host_id rt)) (\<lambda>_. Ret ?x)) ?Q"
      by (rule conc.triple_bind [OF conc.triple_pre [OF conc.triple_frame
            [OF metric_calls(2) [OF ok assms(5,2)] keeps_full]] last]) (simp add: idle_over)
  qed
  have "ctriple H g b N i (idle i M) (FetchAddU64 HDR_RESERVE_TAIL 1 AcqRel (\<lambda>slot.
      if slot \<ge> ucast (g_capacity g) then
        FetchAddU64 HDR_RESERVE_TAIL 0xFFFFFFFFFFFFFFFF Relaxed (\<lambda>_.
        prog_bind (increment_appends_failed g (rt_host_id rt)) (\<lambda>_.
        Ret (Inl (PoolFull (g_capacity g) slot))))
      else append_record H rt term data slot)) ?Q"
  proof (rule reserve_triple [OF assms(1-3)])
    fix slot :: u64 and v :: bytes
    assume slot: "unat slot < cap g" "v (rec_base g (unat slot)) \<noteq> STATE_COMMITTED" "\<forall>x\<in>M. fst x < unat slot"
    then have "\<not> ucast (g_capacity g) \<le> slot" by (simp add: not_le word_less_nat_alt)
    with append_record_triple [where v = v and data = data, OF ok assms(2) slot(1) _ assms(4,5) slot(2,3)] False
    show "ctriple H g b N i (at_slot g i (insert (unat slot, k) M) None (unat slot) v {})
        (if slot \<ge> ucast (g_capacity g) then
          FetchAddU64 HDR_RESERVE_TAIL 0xFFFFFFFFFFFFFFFF Relaxed (\<lambda>_.
          prog_bind (increment_appends_failed g (rt_host_id rt)) (\<lambda>_.
          Ret (Inl (PoolFull (g_capacity g) slot))))
        else append_record H rt term data slot) ?Q"
      by simp
  next
    fix slot :: u64
    assume "cap g \<le> unat slot"
    with full [OF this] show "ctriple H g b N i (owing g b i M)
        (if slot \<ge> ucast (g_capacity g) then
          FetchAddU64 HDR_RESERVE_TAIL 0xFFFFFFFFFFFFFFFF Relaxed (\<lambda>_.
          prog_bind (increment_appends_failed g (rt_host_id rt)) (\<lambda>_.
          Ret (Inl (PoolFull (g_capacity g) slot))))
        else append_record H rt term data slot) ?Q"
      by (simp add: word_le_nat_alt)
  qed
  with False assms(4) show ?thesis by (simp add: append_def Let_def)
qed

end
