(* ===== verification/ConcRead.thy ===== *)
theory ConcRead
  imports ConcAppend
begin

text \<open>
  The reading operations under interference: a slot below the committed tail does not change
  any more, so a read returns the record that is there, never a torn one.
\<close>

section \<open>Slots below the tail\<close>

lemma keeps_rely: "keeps I (evolve g) F \<Longrightarrow> keeps I (rely g i) F"
  by (auto simp: keeps_def rely_def)

lemma not_taken:
  assumes "conc_start H g b" "conc_inv H g b N s" "w < reserve_at b" "w < cap g"
  shows "same_rec g w b (gc s)"
proof -
  have "w \<notin> dom (g_own s)" using dom_own(1) [OF assms(2)] assms(3) by force
  then show ?thesis using conc_invD(5) [OF assms(2)] assms(4) by (simp add: slots_inv_def)
qed

lemma below_tail:
  assumes "conc_start H g b" "conc_inv H g b N s" "w < tail_at (gc s)"
  shows "w < cap g" "slot_view H g (gc s) w = SAbandoned \<or> (\<exists>e. slot_view H g (gc s) w = SCommitted e)"
    and "done_at g (gc s) w \<or> w < reserve_at b"
proof -
  note D = conc_invD [OF assms(2)] and S = conc_startD [OF assms(1)]
  show cap: "w < cap g" using D(4) assms(3) by (simp add: tail_inv_def)
  show d: "done_at g (gc s) w \<or> w < reserve_at b"
    using D(4) assms(3) S(2) by (cases "tail_at b \<le> w") (auto simp: tail_inv_def)
  show "slot_view H g (gc s) w = SAbandoned \<or> (\<exists>e. slot_view H g (gc s) w = SCommitted e)"
  proof (cases "w \<in> dom (g_own s)")
    case True
    then have "slot_view H g (gc s) w \<noteq> SCorrupt" using D(5) by (simp add: slots_inv_def)
    moreover have "reserve_at b \<le> w" using True dom_own(1) [OF assms(2)] by auto
    then have "committed_state (slot_view H g (gc s) w)" using d unfolding committed_done by simp
    ultimately show ?thesis by (cases "slot_view H g (gc s) w") auto
  next
    case False
    then have view: "slot_view H g (gc s) w = slot_view H g b w"
      using D(5) cap by (intro same_rec_view [OF S(1)]) (simp add: slots_inv_def)
    show ?thesis
    proof (cases "tail_at b \<le> w")
      case True
      then have "done_at g (gc s) w" using D(4) assms(3) by (simp add: tail_inv_def)
      then have "committed_state (slot_view H g (gc s) w)" unfolding committed_done .
      then have "committed_state (slot_view H g b w)" unfolding view .
      with S(5) [OF cap] show ?thesis unfolding view
        by (cases "slot_view H g b w") (simp_all del: committed_state_view)
    next
      case below: False
      with S(5) [OF cap] show ?thesis unfolding view by (cases "slot_view H g b w") simp_all
    qed
  qed
qed

lemma view_below:
  assumes "conc_start H g b" "conc_inv H g b N s" "conc_inv H g b N t" "evolve g s t" "w < tail_at (gc s)"
  shows "slot_view H g (gc t) w = slot_view H g (gc s) w"
proof -
  note S = conc_startD(1) [OF assms(1)]
  have cap: "w < cap g" by (rule below_tail(1) [OF assms(1,2,5)])
  show ?thesis
  proof (cases "done_at g (gc s) w")
    case True
    with assms(4) cap have "kept g w (g_mem s) (g_mem t)" by (simp add: evolve_def)
    then show ?thesis by (rule same_rec_view [OF S kept_same])
  next
    case False
    then have w: "w < reserve_at b" using below_tail(3) [OF assms(1,2,5)] by simp
    have "slot_view H g (gc s) w = slot_view H g b w" "slot_view H g (gc t) w = slot_view H g b w"
      by (rule same_rec_view [OF S not_taken [OF assms(1) _ w cap]], rule assms)+
    then show ?thesis by simp
  qed
qed

section \<open>Reading one record\<close>

definition read_post ::
    "'h hasher \<Rightarrow> pool_geometry \<Rightarrow> bytes \<Rightarrow> u64 \<Rightarrow> fence_error + log_record option \<Rightarrow> mmap \<Rightarrow> bool" where
  "read_post H g b index r m \<longleftrightarrow>
     (case r of
        Inl e \<Rightarrow> \<exists>t. e = IndexOutOfBounds index t \<and> (index = 0 \<or> unat t < unat index) \<and>
          tail_at b \<le> unat t \<and> unat t \<le> tail_at (cache m)
      | Inr x \<Rightarrow> index \<noteq> 0 \<and> unat index \<le> tail_at (cache m) \<and>
          slot_view H g (cache m) (unat index - 1) = (case x of Some e \<Rightarrow> SCommitted e | None \<Rightarrow> SAbandoned))"

lemma keeps_read_post:
  assumes "conc_start H g b"
  shows "keeps (conc_inv H g b N) (evolve g) (\<lambda>s. read_post H g b index r (g_mem s))"
proof -
  have "read_post H g b index r (g_mem t)"
    if "read_post H g b index r (g_mem s)" "conc_inv H g b N s" "conc_inv H g b N t" "evolve g s t" for s t
  proof -
    have up: "tail_at (gc s) \<le> tail_at (gc t)" using that(4) by (simp add: evolve_def)
    show ?thesis
    proof (cases r)
      case (Inl e)
      with that(1) up show ?thesis by (fastforce simp: read_post_def)
    next
      case (Inr x)
      then have "index \<noteq> 0" "unat index \<le> tail_at (gc s)" using that(1) by (simp_all add: read_post_def)
      moreover from this have "0 < unat index" by (simp add: unat_gt_0)
      ultimately have "unat index - 1 < tail_at (gc s)" by linarith
      from view_below [OF assms that(2-4) this] Inr that(1) up show ?thesis by (simp add: read_post_def)
    qed
  qed
  then show ?thesis unfolding keeps_def by blast
qed

text \<open>Loads whose result is known.\<close>

lemma tr_known:
  assumes "ckeeps H g b N i P" "unat a + 8 \<le> unat (g_total_size g)" "unat a mod 8 = 0" "ord \<notin> {Release, AcqRel}"
    and "\<And>s. P s \<Longrightarrow> conc_inv H g b N s \<Longrightarrow> get64 (gc s) (unat a) = v"
    and "ctriple H g b N i P (k v) Q"
  shows "ctriple H g b N i P (LoadU64 a ord k) Q"
  by (rule tr_LoadU64 [OF assms(1-4), where P' = "\<lambda>x s. x = v \<and> P s"])
    (use assms(5,6) in \<open>auto simp: triple_def\<close>)

lemma tr_known_bytes:
  assumes "ckeeps H g b N i P" "unat a + n \<le> unat (g_total_size g)"
    and "\<And>s. P s \<Longrightarrow> conc_inv H g b N s \<Longrightarrow> peek (gc s) (unat a) n = v"
    and "ctriple H g b N i P (k v) Q"
  shows "ctriple H g b N i P (Read a n k) Q"
  by (rule tr_Read [OF assms(1,2), where P' = "\<lambda>x s. x = v \<and> P s"])
    (use assms(3,4) in \<open>auto simp: triple_def\<close>)

text \<open>The reader has seen slot \<open>w\<close> committed, with the bytes \<open>v\<close>.\<close>

definition reading ::
    "pool_geometry \<Rightarrow> nat \<Rightarrow> (nat \<times> nat) set \<Rightarrow> u64 \<Rightarrow> nat \<Rightarrow> bytes \<Rightarrow> ghost \<Rightarrow> bool" where
  "reading g i M index w v s \<longleftrightarrow> idle i M s \<and> unat index \<le> tail_at (gc s) \<and> slot_is g w v {} s"

lemma reading_triple:
  assumes ok: "geom_ok g" "N \<le> 2 ^ 32" "conc_start H g b"
    and h: "unat h < hosts g" and w: "w < cap g" "unat (ucast (index - 1) :: u32) = w" "w = unat index - 1" "index \<noteq> 0"
    and v: "v (rec_base g w) = STATE_COMMITTED" "slot_view H g v w \<noteq> SCorrupt"
    and Q: "\<And>s. read_post H g b index (Inr (Some (stored_record g v w))) (g_mem s) \<Longrightarrow> idle i M s \<Longrightarrow>
      Q (Inr (Some (stored_record g v w))) s"
      "keeps (conc_inv H g b N) (rely g i) (Q (Inr (Some (stored_record g v w))))"
  shows "ctriple H g b N i (reading g i M index w v)
    (LoadU64 (record_offset g (ucast (index - 1)) + REC_TERM) Relaxed (\<lambda>term.
     LoadU64 (record_offset g (ucast (index - 1)) + REC_INDEX) Relaxed (\<lambda>stored_index.
     LoadU64 (record_offset g (ucast (index - 1)) + REC_WRITER_ID) Relaxed (\<lambda>writer_id.
     Read (record_offset g (ucast (index - 1)) + REC_DATA_LEN) 4 (\<lambda>buf.
     LoadU64 (record_offset g (ucast (index - 1)) + REC_CHECKSUM) Relaxed (\<lambda>stored_crc.
     read_payload (record_offset g (ucast (index - 1)) + RECORD_META_SIZE)
       (min (unat (from_le buf :: u32)) (unat (g_payload_size g))) (\<lambda>data.
     if \<not> verify H term stored_index data stored_crc then
       prog_bind (increment_checksum_failures g h) (\<lambda>_. Ret (Inl (ChecksumMismatch index)))
     else
       prog_bind (increment_reads g h) (\<lambda>_.
       Ret (Inr (Some \<lparr>r_index = stored_index, r_term = term, r_writer_id = writer_id, r_data = data\<rparr>)))))))))) Q"
proof -
  let ?P = "reading g i M index w v" and ?B = "rec_base g w"
  let ?r = "Inr (Some (stored_record g v w))"
  have P: "ckeeps H g b N i ?P"
    unfolding reading_def
    by (intro keeps_conj keeps_at_adv keeps_tail keeps_rely keeps_slot_done [where v = v, OF w(1) v(1) ok(1)])
  have Bp: "unat (record_offset g (ucast (index - 1)) + c) = ?B + unat c" if "unat c < 4294967296" for c
    using that w(2) by (simp add: unat_record_offset_plus)
  have al: "(?B + j) mod 8 = 0" if "j mod 8 = 0" for j using rec_base_mod8 [OF ok(1), of w] that by presburger
  have same: "gc s x = v x" if "?P s" "?B \<le> x" "x < ?B + (64 + psz g)" for s x
    using that by (simp add: reading_def slot_is_def same_rec_def region_eq [OF ok(1)])
  have g64: "get64 (gc s) (?B + j) = get64 v (?B + j)" if "?P s" "j + 8 \<le> 64" for s j
    using same [OF that(1)] that(2) by (intro get64_cong) simp
  have pk: "peek (gc s) (?B + j) n = peek v (?B + j) n" if "?P s" "j + n \<le> 64 + psz g" for s j n
    using same [OF that(1)] that(2) by (intro peek_cong) simp
  let ?n = "min (unat (get32 v (?B + 32))) (psz g)"
  have chk: "verify H (get64 v (?B + 8)) (get64 v (?B + 16)) (peek v (?B + 64) ?n) (get64 v (?B + 40))"
    using v by (simp add: slot_view_def Let_def checksum_ok_def stored_data_def split: if_splits)
  have rec: "\<lparr>r_index = get64 v (?B + 16), r_term = get64 v (?B + 8), r_writer_id = get64 v (?B + 24),
      r_data = peek v (?B + 64) ?n\<rparr> = stored_record g v w"
    by (simp add: stored_record_def stored_data_def)
  have F: "keeps (conc_inv H g b N) (evolve g) (\<lambda>s. read_post H g b index ?r (g_mem s))"
    by (rule keeps_read_post [OF ok(3)])
  have post: "read_post H g b index ?r (g_mem s)" if s: "?P s" for s
  proof -
    have "slot_view H g (gc s) w = slot_view H g v w"
      using s by (intro same_rec_view [OF ok(1)]) (simp add: reading_def slot_is_def)
    with v s w(3,4) show ?thesis
      by (auto simp: read_post_def reading_def slot_view_def Let_def split: if_splits)
  qed
  have fin: "ctriple H g b N i (\<lambda>s. idle i M s \<and> read_post H g b index ?r (g_mem s)) (Ret ?r) Q"
    by (rule conc.triple_pre [OF conc.triple_Ret [where Q = Q and x = ?r, OF Q(2)]]) (use Q(1) in blast)
  have count: "ctriple H g b N i ?P (prog_bind (increment_reads g h) (\<lambda>_. Ret ?r)) Q"
    by (rule conc.triple_bind [OF conc.triple_pre [OF conc.triple_frame
          [OF metric_calls(4) [OF ok(1) h ok(2)] F]] fin])
      (use post in \<open>auto simp: reading_def idle_over\<close>)
  have pay: "ctriple H g b N i ?P (read_payload (record_offset g (ucast (index - 1)) + RECORD_META_SIZE) ?n k) Q"
    if "ctriple H g b N i ?P (k (peek v (?B + 64) ?n)) Q" for k
  proof (cases "?n = 0")
    case True
    then have "read_payload off ?n k = k (peek v (?B + 64) ?n)" for off
      unfolding read_payload_def by (simp only: peek_0 less_irrefl if_False)
    with that show ?thesis by (simp only:)
  next
    case False
    then have "read_payload off ?n k = Read off ?n k" for off
      unfolding read_payload_def by (simp only: gr_zeroI not_False_eq_True if_True)
    moreover have "ctriple H g b N i ?P (Read (record_offset g (ucast (index - 1)) + RECORD_META_SIZE) ?n k) Q"
    proof (rule tr_known_bytes [OF P, where v = "peek v (?B + 64) ?n"])
      have le: "?n \<le> psz g" by simp
      then show "unat (record_offset g (ucast (index - 1)) + RECORD_META_SIZE) + ?n \<le> unat (g_total_size g)"
        using slot_end [OF ok(1) w(1)] unfolding RECORD_META_SIZE_def by (subst Bp) simp_all
      show "peek (gc s) (unat (record_offset g (ucast (index - 1)) + RECORD_META_SIZE)) ?n = peek v (?B + 64) ?n"
        if "?P s" for s
        using pk [OF that, of 64 ?n] le unfolding RECORD_META_SIZE_def by (subst Bp) simp_all
    qed (rule that)
    ultimately show ?thesis by (simp only:)
  qed
  show ?thesis
    by (rule tr_known [OF P, where v = "get64 v (?B + 8)"], use slot_end [OF ok(1) w(1)] in \<open>simp add: Bp\<close>,
        use al [of 8] in \<open>simp add: Bp\<close>, simp, use g64 [of _ 8] in \<open>simp add: Bp\<close>,
        rule tr_known [OF P, where v = "get64 v (?B + 16)"], use slot_end [OF ok(1) w(1)] in \<open>simp add: Bp\<close>,
        use al [of 16] in \<open>simp add: Bp\<close>, simp, use g64 [of _ 16] in \<open>simp add: Bp\<close>,
        rule tr_known [OF P, where v = "get64 v (?B + 24)"], use slot_end [OF ok(1) w(1)] in \<open>simp add: Bp\<close>,
        use al [of 24] in \<open>simp add: Bp\<close>, simp, use g64 [of _ 24] in \<open>simp add: Bp\<close>,
        rule tr_known_bytes [OF P, where v = "peek v (?B + 32) 4"], use slot_end [OF ok(1) w(1)] in \<open>simp add: Bp\<close>,
        use pk [of _ 32 4] in \<open>simp add: Bp\<close>,
        rule tr_known [OF P, where v = "get64 v (?B + 40)"], use slot_end [OF ok(1) w(1)] in \<open>simp add: Bp\<close>,
        use al [of 40] in \<open>simp add: Bp\<close>, simp, use g64 [of _ 40] in \<open>simp add: Bp\<close>,
        rule pay [unfolded get32_def], unfold get32_def [symmetric], use chk count in \<open>simp add: rec [symmetric]\<close>)
qed

definition tail_post :: "bytes \<Rightarrow> nat \<Rightarrow> (nat \<times> nat) set \<Rightarrow> u64 \<Rightarrow> ghost \<Rightarrow> bool" where
  "tail_post b i M t s \<longleftrightarrow> idle i M s \<and> tail_at b \<le> unat t \<and> unat t \<le> tail_at (gc s)"

lemma keeps_tail_post: "ckeeps H g b N i (tail_post b i M t)"
  unfolding tail_post_def by (intro keeps_intros)

lemma committed_tail_triple:
  assumes "geom_ok g"
  shows "ctriple H g b N i (idle i M) committed_tail (tail_post b i M)"
  unfolding committed_tail_def
  by (rule tr_LoadU64 [OF keeps_at_adv _ _ _ _ conc.triple_Ret [OF keeps_tail_post]])
    (use total_ge [OF assms] in \<open>auto simp: tail_post_def tail_inv_def dest: conc_invD(4)\<close>)

lemma ctriple_ex: "(\<And>v. ctriple H g b N i (P v) p Q) \<Longrightarrow> ctriple H g b N i (\<lambda>s. \<exists>v. P v s) p Q"
  by (auto simp: triple_def)

lemma ctriple_conj: "(C \<Longrightarrow> ctriple H g b N i P p Q) \<Longrightarrow> ctriple H g b N i (\<lambda>s. C \<and> P s) p Q"
  by (auto simp: triple_def)

lemma read_triple:
  assumes "conc_start H g b" "N \<le> 2 ^ 32" "rt_geometry rt = g" "unat (rt_host_id rt) < hosts g"
  shows "ctriple H g b N i (idle i M) (read H rt index) (\<lambda>r s. idle i M s \<and> read_post H g b index r (g_mem s))"
proof -
  note ok = conc_startD(1) [OF assms(1)]
  let ?Q = "\<lambda>r s. idle i M s \<and> read_post H g b index r (g_mem s)"
  have kQ: "ckeeps H g b N i (?Q r)" for r
    by (intro keeps_conj keeps_at_adv keeps_rely keeps_read_post [OF assms(1)])
  have out: "ctriple H g b N i (tail_post b i M t) (Ret (Inl (IndexOutOfBounds index t))) ?Q"
    if "index = 0 \<or> t < index" for t
    by (rule conc.triple_pre [OF conc.triple_Ret [where Q = ?Q and x = "Inl (IndexOutOfBounds index t)", OF kQ]])
      (use that in \<open>auto simp: tail_post_def read_post_def word_less_nat_alt\<close>)
  show ?thesis
  proof (cases "index = 0")
    case True
    then have "read H rt index = prog_bind committed_tail (\<lambda>tail. Ret (Inl (IndexOutOfBounds index tail)))"
      by (simp add: read_def Let_def)
    then show ?thesis
      using conc.triple_bind [OF committed_tail_triple [OF ok] out] True by simp
  next
    case False
    let ?w = "unat index - 1" and ?off = "record_offset g (ucast (index - 1))"
    let ?P = "\<lambda>s. idle i M s \<and> unat index \<le> tail_at (gc s)"
    let ?R = "\<lambda>v s. v (rec_base g ?w) = STATE_COMMITTED \<and> slot_view H g v ?w \<noteq> SCorrupt \<and> reading g i M index ?w v s"
    have found: "ctriple H g b N i (tail_post b i M t) (if index > t then Ret (Inl (IndexOutOfBounds index t)) else p) ?Q"
      if "unat index \<le> cap g \<Longrightarrow> ctriple H g b N i ?P p ?Q" for t p
    proof (cases "index > t")
      case True
      with out [of t] show ?thesis by simp
    next
      case le: False
      have "unat index \<le> cap g \<and> ?P s" if "tail_post b i M t s" "conc_inv H g b N s" for s
        using that le conc_invD(4) [OF that(2)]
        by (auto simp: tail_post_def tail_inv_def not_less word_le_nat_alt)
      then show ?thesis
        using le that by (auto simp: triple_def)
    qed
    have body: "ctriple H g b N i ?P (LoadU8 (?off + REC_STATE) Acquire (\<lambda>state.
        if state \<noteq> STATE_COMMITTED then Ret (Inr None)
        else k)) ?Q"
      if c: "unat index \<le> cap g" and k: "\<And>v. v (rec_base g ?w) = STATE_COMMITTED \<Longrightarrow>
        slot_view H g v ?w \<noteq> SCorrupt \<Longrightarrow> ctriple H g b N i (reading g i M index ?w v) k ?Q" for k
    proof -
      note ar = read_slot_arith [OF False c]
      have B: "unat (?off + REC_STATE) = rec_base g ?w" using ar(1) by (simp add: unat_record_offset)
      show ?thesis
      proof (rule tr_LoadU8 [where P' = "\<lambda>x s. if x = STATE_COMMITTED then \<exists>v. ?R v s else ?Q (Inr None) s"])
        show "ckeeps H g b N i ?P" by (intro keeps_intros)
        show "unat (?off + REC_STATE) < unat (g_total_size g)" using slot_end [OF ok ar(2)] B by simp
        show "Acquire \<notin> {Release, AcqRel}" by simp
        fix s assume s: "?P s" "conc_inv H g b N s"
        have "0 < unat index" using False by (simp add: unat_gt_0)
        then have w: "?w < tail_at (gc s)" using s(1) by linarith
        note view = below_tail(2) [OF assms(1) s(2) w]
        show "if gc s (unat (?off + REC_STATE)) = STATE_COMMITTED then \<exists>v. ?R v s else ?Q (Inr None) s"
          unfolding B
        proof (cases "done_at g (gc s) ?w")
          case True
          have "?R (gc s) s"
            using s True view by (auto simp: done_at_def reading_def slot_is_def)
          with True show "if gc s (rec_base g ?w) = STATE_COMMITTED then \<exists>v. ?R v s else ?Q (Inr None) s"
            by (auto simp: done_at_def)
        next
          case nd: False
          then have "\<not> committed_state (slot_view H g (gc s) ?w)" unfolding committed_done .
          with view have "slot_view H g (gc s) ?w = SAbandoned" by (auto simp del: committed_state_view)
          with nd s False show "if gc s (rec_base g ?w) = STATE_COMMITTED then \<exists>v. ?R v s else ?Q (Inr None) s"
            by (simp add: done_at_def read_post_def)
        qed
      next
        fix x
        show "ctriple H g b N i (\<lambda>s. if x = STATE_COMMITTED then \<exists>v. ?R v s else ?Q (Inr None) s)
            (if x \<noteq> STATE_COMMITTED then Ret (Inr None) else k) ?Q"
        proof (cases "x = STATE_COMMITTED")
          case True
          have "ctriple H g b N i (\<lambda>s. \<exists>v. ?R v s) k ?Q"
            by (intro ctriple_ex ctriple_conj) (rule k)
          with True show ?thesis by simp
        next
          case False
          have "ctriple H g b N i (?Q (Inr None)) (Ret (Inr None)) ?Q"
            by (rule conc.triple_Ret [where Q = ?Q, OF kQ])
          with False show ?thesis by simp
        qed
      qed
    qed
    show ?thesis
      using False unfolding read_def Let_def assms(3)
      by (simp only: if_False)
        (rule conc.triple_bind [OF committed_tail_triple [OF ok]], rule found, rule body, assumption,
         rule reading_triple [OF ok assms(2,1,4)], use read_slot_arith [OF False] kQ in auto)
  qed
qed

end
