(* ===== verification/ConcSession.thy ===== *)
theory ConcSession
  imports ConcRead
begin

text \<open>
  Sessions of hosts that run at the same time: every operation but \<open>trim\<close> and \<open>recover\<close>.
\<close>

section \<open>The other reading operations\<close>

text \<open>The records at the indices \<open>js\<close>, without the gaps.\<close>

definition records_at :: "'h hasher \<Rightarrow> pool_geometry \<Rightarrow> bytes \<Rightarrow> u64 list \<Rightarrow> log_record list" where
  "records_at H g c js =
     concat (map (\<lambda>j. case slot_view H g c (unat j - 1) of SCommitted e \<Rightarrow> [e] | _ \<Rightarrow> []) js)"

definition all_below :: "u64 list \<Rightarrow> bytes \<Rightarrow> bool" where
  "all_below js c \<longleftrightarrow> (\<forall>j\<in>set js. j \<noteq> 0 \<and> unat j \<le> tail_at c)"

definition range_post ::
    "'h hasher \<Rightarrow> pool_geometry \<Rightarrow> bytes \<Rightarrow> u64 list \<Rightarrow> fence_error + log_record list \<Rightarrow> mmap \<Rightarrow> bool" where
  "range_post H g b js r m \<longleftrightarrow>
     (case r of
        Inl e \<Rightarrow> \<exists>j\<in>set js. read_post H g b j (Inl e) m
      | Inr records \<Rightarrow> all_below js (cache m) \<and> records = records_at H g (cache m) js)"

lemma keeps_records:
  assumes "conc_start H g b"
  shows "keeps (conc_inv H g b N) (evolve g) (\<lambda>s. all_below js (gc s) \<and> rs = records_at H g (gc s) js)"
proof -
  have "all_below js (gc t) \<and> rs = records_at H g (gc t) js"
    if "all_below js (gc s) \<and> rs = records_at H g (gc s) js" "conc_inv H g b N s" "conc_inv H g b N t"
      "evolve g s t" for s t
  proof -
    have up: "tail_at (gc s) \<le> tail_at (gc t)" using that(4) by (simp add: evolve_def)
    have "slot_view H g (gc t) (unat j - 1) = slot_view H g (gc s) (unat j - 1)" if "j \<in> set js" for j
    proof (rule view_below [OF assms \<open>conc_inv H g b N s\<close> \<open>conc_inv H g b N t\<close> \<open>evolve g s t\<close>])
      have "j \<noteq> 0" "unat j \<le> tail_at (gc s)"
        using that \<open>all_below js (gc s) \<and> _\<close> by (simp_all add: all_below_def)
      moreover from this have "0 < unat j" by (simp add: unat_gt_0)
      ultimately show "unat j - 1 < tail_at (gc s)" by linarith
    qed
    then have "records_at H g (gc t) js = records_at H g (gc s) js"
      unfolding records_at_def by (auto intro!: arg_cong [where f = concat])
    with that(1) up show ?thesis by (auto simp: all_below_def)
  qed
  then show ?thesis unfolding keeps_def by blast
qed

lemma keeps_range_post:
  assumes "conc_start H g b"
  shows "keeps (conc_inv H g b N) (evolve g) (\<lambda>s. range_post H g b js r (g_mem s))"
proof (cases r)
  case (Inr rs)
  with keeps_records [OF assms] show ?thesis by (simp add: range_post_def)
next
  case (Inl e)
  with keeps_read_post [OF assms, of N _ "Inl e"] show ?thesis
    unfolding keeps_def range_post_def by simp blast
qed

lemma records_at_snoc:
  "records_at H g c (js @ [j]) = records_at H g c js @
     (case slot_view H g c (unat j - 1) of SCommitted e \<Rightarrow> [e] | _ \<Rightarrow> [])"
  by (simp add: records_at_def)

lemma read_loop_triple:
  assumes "conc_start H g b" "N \<le> 2 ^ 32" "rt_geometry rt = g" "unat (rt_host_id rt) < hosts g"
  shows "ctriple H g b N i (\<lambda>s. idle i M s \<and> all_below js (gc s) \<and> rs = records_at H g (gc s) js)
    (read_loop H rt ks rs) (\<lambda>r s. idle i M s \<and> range_post H g b (js @ ks) r (g_mem s))"
proof (induction ks arbitrary: js rs)
  let ?Q = "\<lambda>ks r s. idle i M s \<and> range_post H g b ks r (g_mem s)"
  have kQ: "ckeeps H g b N i (?Q ks r)" for ks r
    by (intro keeps_conj keeps_at_adv keeps_rely keeps_range_post [OF assms(1)])
  have ret: "ctriple H g b N i (?Q ks r) (Ret r) (?Q ks)" for ks r
    by (rule conc.triple_Ret [where Q = "?Q ks", OF kQ])
  {
    case Nil
    show ?case
      unfolding read_loop.simps by (rule conc.triple_pre [OF ret]) (simp add: range_post_def)
  next
    case (Cons k ks)
    let ?F = "\<lambda>s. all_below js (gc s) \<and> rs = records_at H g (gc s) js"
    let ?f = "\<lambda>r. case r of Inl e \<Rightarrow> Ret (Inl e)
        | Inr (Some record) \<Rightarrow> read_loop H rt ks (rs @ [record])
        | Inr None \<Rightarrow> read_loop H rt ks rs"
    have rest: "ctriple H g b N i (\<lambda>s. (idle i M s \<and> read_post H g b k r (g_mem s)) \<and> ?F s) (?f r)
        (?Q (js @ k # ks))" for r
    proof (cases r)
      case (Inl e)
      then show ?thesis
        by simp (rule conc.triple_pre [OF ret], auto simp: range_post_def)
    next
      case (Inr x)
      let ?rs = "rs @ (case x of Some e \<Rightarrow> [e] | None \<Rightarrow> [])"
      have "?rs = records_at H g (gc s) (js @ [k]) \<and> all_below (js @ [k]) (gc s)"
        if "read_post H g b k (Inr x) (g_mem s)" "?F s" for s
        using that by (auto simp: records_at_snoc read_post_def all_below_def split: option.splits)
      then have "ctriple H g b N i (\<lambda>s. (idle i M s \<and> read_post H g b k r (g_mem s)) \<and> ?F s)
          (read_loop H rt ks ?rs) (?Q ((js @ [k]) @ ks))"
        by (intro conc.triple_pre [OF Cons.IH]) (simp add: Inr)
      with Inr show ?thesis by (cases x) simp_all
    qed
    show ?case
      unfolding read_loop.simps
      by (rule conc.triple_bind [OF conc.triple_frame [OF read_triple [OF assms] keeps_records [OF assms(1)]] rest])
  }
qed

lemma reserve_tail_triple:
  assumes "geom_ok g"
  shows "ctriple H g b N i (idle i M) reserve_tail (\<lambda>t s. idle i M s \<and> reserve_at b \<le> unat t)"
  unfolding reserve_tail_def
proof (rule tr_LoadU64 [OF keeps_at_adv, where P' = "\<lambda>t s. idle i M s \<and> reserve_at b \<le> unat t"])
  fix s assume s: "idle i M s" "conc_inv H g b N s"
  then show "idle i M s \<and> reserve_at b \<le> unat (get64 (gc s) (unat HDR_RESERVE_TAIL))"
    using conc_invD(3) [OF s(2)] by (auto simp: reserve_inv_def)
next
  fix t show "ctriple H g b N i (\<lambda>s. idle i M s \<and> reserve_at b \<le> unat t) (Ret t)
      (\<lambda>t s. idle i M s \<and> reserve_at b \<le> unat t)"
    by (rule conc.triple_Ret [where Q = "\<lambda>t s. idle i M s \<and> reserve_at b \<le> unat t"]) (intro keeps_intros)
qed (use total_ge [OF assms] in simp_all)

lemma tr_metric:
  assumes "geom_ok g" "unat h < hosts g" "unat c \<le> 48" "unat c mod 8 = 0"
    and "\<And>v. ctriple H g b N i (idle i M) (k v) Q"
  shows "ctriple H g b N i (idle i M) (LoadU64 (metrics_offset g h + c) Relaxed k) Q"
proof -
  have a: "unat (metrics_offset g h + c) = met_base g (unat h) + unat c"
    using assms(3) by (simp add: unat_metrics_offset_plus)
  have "(met_base g (unat h) + unat c) mod 8 = 0"
    using met_base_mod8 [OF assms(1), of "unat h"] assms(4) by presburger
  moreover have "met_base g (unat h) + 64 \<le> unat (g_total_size g)"
    using met_end_le_total [of g "unat h"] assms(1,2) by (simp add: geom_ok_def)
  ultimately show ?thesis
    using assms(3) by (intro tr_LoadU64 [OF keeps_at_adv _ _ _ _ assms(5)]) (simp_all add: a)
qed

lemma stats_triple:
  assumes "geom_ok g" "rt_geometry rt = g"
  shows "ctriple H g b N i (idle i M) (stats rt) (\<lambda>_. idle i M)"
proof -
  have loop: "ctriple H g b N i (idle i M) (read_stats_loop g hs st) (\<lambda>_. idle i M)"
    if "\<forall>h\<in>set hs. unat h < hosts g" for hs st
    using that
  proof (induction hs arbitrary: st)
    case Nil
    show ?case unfolding read_stats_loop.simps by (rule conc.triple_Ret) (rule keeps_at_adv)
  next
    case (Cons h hs)
    then have h: "unat h < hosts g" and IH: "\<And>st. ctriple H g b N i (idle i M) (read_stats_loop g hs st) (\<lambda>_. idle i M)"
      by simp_all
    show ?case
      unfolding read_stats_loop.simps Let_def
      by ((rule tr_metric [OF assms(1) h], simp, simp)+, rule IH)
  qed
  have "\<forall>h\<in>set (word_range 0 (g_max_hosts g)). unat h < hosts g"
  proof
    fix h assume "h \<in> set (word_range 0 (g_max_hosts g))"
    then have "unat h \<in> set (map unat (word_range 0 (g_max_hosts g)))" by simp
    then show "unat h < hosts g" by (simp add: map_unat_word_range)
  qed
  from loop [OF this] show ?thesis by (simp add: stats_def read_stats_def assms(2))
qed

section \<open>Operations\<close>

fun conc_op :: "log_op \<Rightarrow> bool" where
  "conc_op (OpTrim n) = False"
| "conc_op OpRecover = False"
| "conc_op op = op_ok op"

text \<open>What the answer of an operation says of the region, then and at any time after.\<close>

fun answer_ok ::
    "'h hasher \<Rightarrow> pool_geometry \<Rightarrow> bytes \<Rightarrow> u16 \<times> log_op \<Rightarrow> outcome \<Rightarrow> mmap \<Rightarrow> bool" where
  "answer_ok H g b (h, OpAppend term data) (RAppend (Inr index)) m \<longleftrightarrow>
     length data \<le> psz g \<and> 0 < unat index \<and>
     appended H g (unat index - 1) (new_record h (index - 1) term data) m"
| "answer_ok H g b (h, OpAppend term data) (RAppend (Inl e)) m \<longleftrightarrow>
     e = PayloadTooLarge (g_payload_size g) (word_of_nat (length data)) \<and> psz g < length data \<or>
     (\<exists>n. e = PoolFull (g_capacity g) n \<and> cap g \<le> unat n) \<and> length data \<le> psz g \<and> cap g \<le> reserve_at (cache m)"
| "answer_ok H g b (h, OpRead index) (RRead r) m \<longleftrightarrow> read_post H g b index r m"
| "answer_ok H g b (h, OpReadRange j k) (RReadRange r) m \<longleftrightarrow> range_post H g b (word_range j k) r m"
| "answer_ok H g b (h, OpCommittedTail) (RTail t) m \<longleftrightarrow>
     tail_at b \<le> unat t \<and> unat t \<le> tail_at (cache m)"
| "answer_ok H g b (h, OpReserveTail) (RTail t) m \<longleftrightarrow> reserve_at b \<le> unat t"
| "answer_ok H g b (h, OpStats) (RStats st) m \<longleftrightarrow> True"
| "answer_ok H g b _ _ m \<longleftrightarrow> False"

lemma full_reserve:
  assumes "conc_start H g b" "conc_inv H g b N s"
  shows "full g b s \<longleftrightarrow> cap g \<le> reserve_at (gc s)"
proof -
  obtain e where e: "reserve_at b \<le> e" "e \<le> cap g" "dom (g_own s) = {reserve_at b..<e}"
    "reserve_at (gc s) = e + card (g_undo s)" "g_undo s \<noteq> {} \<longrightarrow> e = cap g"
    using conc_invD(3) [OF assms(2)] by (auto simp: reserve_inv_def)
  have "full g b s \<longleftrightarrow> e = cap g"
  proof
    assume "full g b s"
    then have "{reserve_at b..<cap g} \<subseteq> {reserve_at b..<e}" unfolding full_def e(3) .
    moreover have "reserve_at b \<le> cap g" using e(1,2) by simp
    ultimately show "e = cap g" using e(1,2) by (cases "e < cap g") (auto simp: subset_iff)
  qed (simp add: full_def e(3))
  also have "\<dots> \<longleftrightarrow> cap g \<le> reserve_at (gc s)"
    using e by (cases "g_undo s = {}") auto
  finally show ?thesis .
qed

lemma keeps_answer:
  assumes "conc_start H g b"
  shows "keeps (conc_inv H g b N) (evolve g) (\<lambda>s. answer_ok H g b hop out (g_mem s))"
proof -
  note rd = keeps_read_post [OF assms, of N, unfolded keeps_def]
  note rg = keeps_range_post [OF assms, of N, unfolded keeps_def]
  note ap = keeps_appended [OF conc_startD(1) [OF assms], of "conc_inv H g b N" H, unfolded keeps_def]
  have fu: "cap g \<le> reserve_at (gc t)"
    if "cap g \<le> reserve_at (gc s)" "conc_inv H g b N s" "conc_inv H g b N t" "evolve g s t" for s t
    using that keeps_full [of "conc_inv H g b N" g b, unfolded keeps_def] full_reserve [OF assms] by blast
  have tl: "tail_at (gc s) \<le> tail_at (gc t)" if "evolve g s t" for s t
    using that by (simp add: evolve_def)
  have "answer_ok H g b hop out (g_mem t)"
    if s: "answer_ok H g b hop out (g_mem s)" "conc_inv H g b N s" "conc_inv H g b N t" "evolve g s t" for s t
    using s(1) rd [rule_format, OF _ s(2-4)] rg [rule_format, OF _ s(2-4)] ap [rule_format, OF _ s(2-4)]
      fu [OF _ s(2-4)] tl [OF s(4)]
    by (cases "(H, g, b, hop, out, g_mem s)" rule: answer_ok.cases) auto
  then show ?thesis unfolding keeps_def by blast
qed

text \<open>The slot an answer claims for append number \<open>k\<close> of its thread.\<close>

fun claim :: "nat \<Rightarrow> outcome \<Rightarrow> (nat \<times> nat) set" where
  "claim k (RAppend (Inr index)) = {(unat index - 1, k)}"
| "claim k _ = {}"

definition op_post ::
    "'h hasher \<Rightarrow> pool_geometry \<Rightarrow> bytes \<Rightarrow> nat \<Rightarrow> (nat \<times> nat) set \<Rightarrow> nat \<Rightarrow> u16 \<times> log_op \<Rightarrow> outcome \<Rightarrow> ghost \<Rightarrow> bool" where
  "op_post H g b i M k hop out s \<longleftrightarrow> idle i (M \<union> claim k out) s \<and> answer_ok H g b hop out (g_mem s) \<and>
     (\<forall>x\<in>M. \<forall>y\<in>claim k out. fst x < fst y)"

lemma keeps_op_post:
  assumes "conc_start H g b"
  shows "ckeeps H g b N i (op_post H g b i M k hop out)"
  unfolding op_post_def
  by (intro keeps_conj keeps_at_adv keeps_const keeps_rely keeps_answer [OF assms])

lemma op_triple:
  assumes "conc_start H g b" "N \<le> 2 ^ 32" "i < N" "unat h < hosts g" "conc_op op"
  shows "ctriple H g b N i (idle i M) (op_prog H \<lparr>rt_geometry = g, rt_host_id = h\<rparr> op) (op_post H g b i M k (h, op))"
proof -
  let ?rt = "\<lparr>rt_geometry = g, rt_host_id = h\<rparr>"
  note ok = conc_startD(1) [OF assms(1)]
  have rt: "rt_geometry ?rt = g" "unat (rt_host_id ?rt) < hosts g" using assms(4) by simp_all
  have ret: "ctriple H g b N i P (Ret out) (op_post H g b i M k (h, op))"
    if "\<And>s. P s \<Longrightarrow> conc_inv H g b N s \<Longrightarrow> op_post H g b i M k (h, op) out s" for P out
    by (rule conc.triple_pre [OF conc.triple_Ret [where Q = "op_post H g b i M k (h, op)",
          OF keeps_op_post [OF assms(1)]] that])
  show ?thesis
  proof (cases op)
    case (OpAppend t d)
    have "op_post H g b i M k (h, op) (RAppend r) s"
      if "append_post H g b i M k h t d r s" "conc_inv H g b N s" for r s
      using that full_reserve [OF assms(1) that(2)]
      by (auto simp: OpAppend append_post_def op_post_def split: sum.splits)
    then have last: "ctriple H g b N i (append_post H g b i M k h t d r) (Ret (RAppend r))
        (op_post H g b i M k (h, op))" for r
      by (intro ret)
    have "ctriple H g b N i (idle i M) (append H ?rt t d) (append_post H g b i M k h t d)"
      using append_triple [OF assms(1-3) rt] by simp
    from conc.triple_bind [OF this last] show ?thesis by (simp add: OpAppend)
  next
    case (OpRead j)
    show ?thesis
      unfolding OpRead op_prog.simps
      by (rule conc.triple_bind [OF read_triple [OF assms(1,2) rt] ret [unfolded OpRead]])
        (simp add: op_post_def)
  next
    case (OpReadRange j l)
    then have "j \<le> l" "48 * (unat l - unat j) \<le> 9223372036854775807" using assms(5) by simp_all
    then have rr: "read_range H ?rt j l = read_loop H ?rt (word_range j l) []"
      by (simp add: read_range_def unat_sub word_le_nat_alt)
    have "ctriple H g b N i (idle i M) (read_range H ?rt j l)
        (\<lambda>r s. idle i M s \<and> range_post H g b (word_range j l) r (g_mem s))"
      unfolding rr using read_loop_triple [OF assms(1,2) rt, where js = "[]" and rs = "[]"]
      by (rule conc.triple_pre [THEN conc.triple_post]) (simp_all add: all_below_def records_at_def)
    then show ?thesis
      unfolding OpReadRange op_prog.simps
      by (rule conc.triple_bind [OF _ ret [unfolded OpReadRange]]) (simp add: op_post_def)
  next
    case OpCommittedTail
    show ?thesis
      unfolding OpCommittedTail op_prog.simps
      by (rule conc.triple_bind [OF committed_tail_triple [OF ok] ret [unfolded OpCommittedTail]])
        (simp add: op_post_def tail_post_def)
  next
    case OpReserveTail
    show ?thesis
      unfolding OpReserveTail op_prog.simps
      by (rule conc.triple_bind [OF reserve_tail_triple [OF ok] ret [unfolded OpReserveTail]])
        (simp add: op_post_def)
  next
    case OpStats
    show ?thesis
      unfolding OpStats op_prog.simps
      by (rule conc.triple_bind [OF stats_triple [OF ok rt(1)] ret [unfolded OpStats]])
        (simp add: op_post_def)
  qed (use assms(5) in simp_all)
qed

end
