(* ===== verification/ConcRun.thy ===== *)
theory ConcRun
  imports ConcSession
begin

text \<open>
  Hosts that run sessions at the same time, from the start to any point of any schedule, and
  to the point where all of them have finished.
\<close>

section \<open>One session\<close>

fun claims :: "nat \<Rightarrow> outcome list \<Rightarrow> (nat \<times> nat) set" where
  "claims k [] = {}"
| "claims k (out # outs) = claim k out \<union> claims (Suc k) outs"

text \<open>Later appends of a thread have later slots.\<close>

definition in_order :: "(nat \<times> nat) set \<Rightarrow> bool" where
  "in_order X \<longleftrightarrow> (\<forall>x\<in>X. \<forall>y\<in>X. snd x < snd y \<longrightarrow> fst x < fst y)"

lemma claim_number: "x \<in> claim k out \<Longrightarrow> snd x = k"
  by (cases "(k, out)" rule: claim.cases) auto

lemma in_order_claim:
  assumes "in_order M" "\<forall>x\<in>M. snd x < k" "\<forall>x\<in>M. \<forall>y\<in>claim k out. fst x < fst y"
  shows "in_order (M \<union> claim k out)" "\<forall>x\<in>M \<union> claim k out. snd x < Suc k"
proof -
  show "in_order (M \<union> claim k out)"
    using assms claim_number [of _ k out] unfolding in_order_def by (metis Un_iff less_asym less_irrefl)
  show "\<forall>x\<in>M \<union> claim k out. snd x < Suc k"
    using assms(2) claim_number [of _ k out] by (auto simp: less_Suc_eq)
qed

definition session_post ::
    "'h hasher \<Rightarrow> pool_geometry \<Rightarrow> bytes \<Rightarrow> nat \<Rightarrow> (nat \<times> nat) set \<Rightarrow> nat \<Rightarrow> (u16 \<times> log_op) list \<Rightarrow>
     outcome list \<Rightarrow> ghost \<Rightarrow> bool" where
  "session_post H g b i M k ops outs s \<longleftrightarrow> idle i (M \<union> claims k outs) s \<and> in_order (M \<union> claims k outs) \<and>
     list_all2 (\<lambda>hop out. answer_ok H g b hop out (g_mem s)) ops outs"

lemma keeps_answers:
  assumes "conc_start H g b"
  shows "keeps (conc_inv H g b N) (evolve g) (\<lambda>s. list_all2 (\<lambda>hop out. answer_ok H g b hop out (g_mem s)) ops outs)"
  using keeps_answer [OF assms, of N] unfolding keeps_def by (blast intro: list_all2_mono)

lemma keeps_session_post:
  assumes "conc_start H g b"
  shows "ckeeps H g b N i (session_post H g b i M k ops outs)"
  unfolding session_post_def
  by (intro keeps_conj keeps_at_adv keeps_const keeps_rely keeps_answers [OF assms])

definition conc_session :: "pool_geometry \<Rightarrow> (u16 \<times> log_op) list \<Rightarrow> bool" where
  "conc_session g ops \<longleftrightarrow> list_all (\<lambda>(h, op). unat h < hosts g \<and> conc_op op) ops"

lemma session_triple:
  assumes "conc_start H g b" "N \<le> 2 ^ 32" "i < N" "conc_session g ops" "in_order M" "\<forall>x\<in>M. snd x < k"
  shows "ctriple H g b N i (idle i M) (session H g ops) (session_post H g b i M k ops)"
  using assms(4-6)
proof (induction ops arbitrary: M k)
  case Nil
  show ?case
    unfolding session.simps
    by (rule conc.triple_pre [OF conc.triple_Ret [where Q = "session_post H g b i M k []",
          OF keeps_session_post [OF assms(1)]]])
      (use Nil.prems in \<open>simp add: session_post_def\<close>)
next
  case (Cons hop ops)
  obtain h op where hop: "hop = (h, op)" by fastforce
  have op: "unat h < hosts g" "conc_op op" "conc_session g ops"
    using Cons.prems(1) by (simp_all add: hop conc_session_def)
  have rest: "ctriple H g b N i (op_post H g b i M k (h, op) out)
      (prog_bind (session H g ops) (\<lambda>outs. Ret (out # outs))) (session_post H g b i M k (hop # ops))" for out
  proof -
    let ?M = "M \<union> claim k out" and ?F = "\<lambda>s. answer_ok H g b hop out (g_mem s)"
    have last: "ctriple H g b N i (\<lambda>s. session_post H g b i ?M (Suc k) ops outs s \<and> ?F s) (Ret (out # outs))
        (session_post H g b i M k (hop # ops))" for outs
      by (rule conc.triple_pre [OF conc.triple_Ret [where Q = "session_post H g b i M k (hop # ops)",
            OF keeps_session_post [OF assms(1)]]])
        (auto simp: session_post_def Un_assoc)
    have "ctriple H g b N i (\<lambda>s. idle i ?M s \<and> ?F s) (prog_bind (session H g ops) (\<lambda>outs. Ret (out # outs)))
        (session_post H g b i M k (hop # ops))"
      if "in_order ?M" "\<forall>x\<in>?M. snd x < Suc k"
      by (rule conc.triple_bind [OF conc.triple_frame [OF Cons.IH [OF op(3) that] keeps_answer [OF assms(1)]] last])
    then have "ctriple H g b N i (\<lambda>s. (in_order ?M \<and> (\<forall>x\<in>?M. snd x < Suc k)) \<and> idle i ?M s \<and> ?F s)
        (prog_bind (session H g ops) (\<lambda>outs. Ret (out # outs))) (session_post H g b i M k (hop # ops))"
      by (intro ctriple_conj) simp
    then show ?thesis
      by (rule conc.triple_pre) (use in_order_claim [OF Cons.prems(2,3)] in \<open>auto simp: op_post_def hop\<close>)
  qed
  show ?case
    unfolding hop session.simps
    by (rule conc.triple_bind [OF op_triple [OF assms(1-3) op(1,2)] rest [unfolded hop]])
qed

section \<open>All sessions\<close>

definition start_ghost :: "mmap \<Rightarrow> ghost" where
  "start_ghost m = \<lparr>g_mem = m, g_own = (\<lambda>_. None), g_undo = {}, g_adv = (\<lambda>_. None)\<rparr>"

lemma start_inv:
  assumes "pool g m" "mm_arch m = X86_64" "conc_start H g (cache m)"
  shows "conc_inv H g (cache m) N (start_ghost m)" "idle i {} (start_ghost m)"
proof -
  note S = conc_startD [OF assms(3)]
  have "tail_at (cache m) \<le> cap g" using S(2,3) by simp
  moreover have "adv_inv g (cache m) (\<lambda>_. None)"
    unfolding adv_inv_def using S(6) by (metis le_less_trans order_refl)
  ultimately show "conc_inv H g (cache m) N (start_ghost m)"
    using assms(1,2) S(3)
    by (auto simp: conc_inv_def start_ghost_def reserve_inv_def tail_inv_def slots_inv_def)
  show "idle i {} (start_ghost m)" by (simp add: at_adv_def mine_def start_ghost_def)
qed

text \<open>The state after any schedule, and what each thread that finished knows.\<close>

lemma sessions_reach:
  assumes "pool g m" "mm_arch m = X86_64" "conc_start H g (cache m)" "length opss \<le> 2 ^ 32"
    and "list_all (conc_session g) opss" "par_reach (map (session H g) opss) m ps m'"
  obtains s where "g_mem s = m'" "conc_inv H g (cache m) (length opss) s" "length ps = length opss"
    "\<And>i. i < length opss \<Longrightarrow> (\<exists>outs. ps ! i = Ret outs \<and>
       session_post H g (cache m) i {} 0 (opss ! i) outs s) \<or> (\<exists>p n. step (ps ! i) m' = Some (Inr (p, n)))"
    "\<And>i. length opss \<le> i \<Longrightarrow> rely g i (start_ghost m) s"
proof -
  let ?b = "cache m" and ?N = "length opss"
  note st = start_inv [OF assms(1-3)]
  have "safe g_mem (conc_inv H g ?b ?N) (rely g) i (session_post H g ?b i {} 0 (opss ! i))
      (map (session H g) opss ! i) (start_ghost m)" if "i < ?N" for i
    using session_triple [OF assms(3,4) that, of "opss ! i" "{}" 0] assms(5) that st
    by (simp add: triple_def list_all_length in_order_def)
  then have "\<exists>s'. g_mem s' = m' \<and> conc_inv H g ?b ?N s' \<and> length ps = ?N \<and>
      (\<forall>i<?N. safe g_mem (conc_inv H g ?b ?N) (rely g) i (session_post H g ?b i {} 0 (opss ! i)) (ps ! i) s') \<and>
      (\<forall>i\<ge>?N. rely g i (start_ghost m) s')"
    using conc.par_safe [OF assms(6) st(1), where Q = "\<lambda>i. session_post H g ?b i {} 0 (opss ! i)"]
    by (simp add: start_ghost_def)
  then obtain s where s: "g_mem s = m'" "conc_inv H g ?b ?N s" "length ps = ?N"
    "\<And>i. i < ?N \<Longrightarrow> safe g_mem (conc_inv H g ?b ?N) (rely g) i (session_post H g ?b i {} 0 (opss ! i)) (ps ! i) s"
    "\<And>i. ?N \<le> i \<Longrightarrow> rely g i (start_ghost m) s" by blast
  have fin: "(\<exists>outs. ps ! i = Ret outs \<and> session_post H g ?b i {} 0 (opss ! i) outs s) \<or>
      (\<exists>p n. step (ps ! i) m' = Some (Inr (p, n)))" if "i < ?N" for i
    using conc.par_no_fault [OF s(4) [OF that] s(2)] s(1) by simp
  show thesis by (rule that [OF s(1-3) _ s(5)]) (rule fin)
qed

end
