(* ===== verification/ConcFinal.thy ===== *)
theory ConcFinal
  imports ConcRun
begin

text \<open>
  When all sessions have finished: which append has which slot, that the committed tail has
  passed all of them, and that the outcome is one of a sequential order of the same appends.
\<close>

section \<open>Acknowledged appends\<close>

type_synonym op_id = "nat \<times> nat"

text \<open>The operations, by thread and number, that were acknowledged appends, and their slots.\<close>

definition acks :: "outcome list list \<Rightarrow> op_id set" where
  "acks outss = {(i, k). i < length outss \<and> k < length (outss ! i) \<and> (\<exists>x. outss ! i ! k = RAppend (Inr x))}"

definition slot_of :: "outcome list list \<Rightarrow> op_id \<Rightarrow> nat" where
  "slot_of outss p = (case outss ! fst p ! snd p of RAppend (Inr x) \<Rightarrow> unat x - 1 | _ \<Rightarrow> 0)"

lemma claims_nth:
  "(w, k) \<in> claims a outs \<longleftrightarrow> a \<le> k \<and> k < a + length outs \<and> (w, k) \<in> claim k (outs ! (k - a))"
proof (induction outs arbitrary: a)
  case (Cons x outs)
  show ?case
  proof (cases "k = a")
    case True
    then show ?thesis using Cons.IH [of "Suc a"] by simp
  next
    case False
    then have "(w, k) \<notin> claim a x" using claim_number [of "(w, k)" a x] by auto
    with False Cons.IH [of "Suc a"] show ?thesis
      by (auto simp: nth_Cons' less_eq_Suc_le Suc_diff_le)
  qed
qed simp

lemma claim_iff: "(w, k) \<in> claim k out \<longleftrightarrow> (\<exists>x. out = RAppend (Inr x) \<and> w = unat x - 1)"
  by (cases "(k, out)" rule: claim.cases) auto

lemma claims_iff:
  assumes "i < length outss"
  shows "(w, k) \<in> claims 0 (outss ! i) \<longleftrightarrow> (i, k) \<in> acks outss \<and> w = slot_of outss (i, k)"
  using assms by (auto simp: claims_nth claim_iff acks_def slot_of_def)

text \<open>The appends that were acknowledged own the slots behind the ones reserved at the start.\<close>

definition finished ::
    "'h hasher \<Rightarrow> pool_geometry \<Rightarrow> bytes \<Rightarrow> (u16 \<times> log_op) list list \<Rightarrow> outcome list list \<Rightarrow> ghost \<Rightarrow> bool" where
  "finished H g b opss outss s \<longleftrightarrow> conc_inv H g b (length opss) s \<and> length outss = length opss \<and>
     (\<forall>w i k. g_own s w = Some (i, k) \<longleftrightarrow> (i, k) \<in> acks outss \<and> w = slot_of outss (i, k)) \<and>
     g_undo s = {} \<and> g_adv s = (\<lambda>_. None) \<and>
     (\<forall>i<length opss. in_order (claims 0 (outss ! i)) \<and>
        list_all2 (\<lambda>hop out. answer_ok H g b hop out (g_mem s)) (opss ! i) (outss ! i))"

lemma finishedD:
  assumes "finished H g b opss outss s"
  shows "conc_inv H g b (length opss) s" "length outss = length opss"
    "g_own s w = Some p \<longleftrightarrow> p \<in> acks outss \<and> w = slot_of outss p" "g_undo s = {}" "g_adv s = (\<lambda>_. None)"
    "i < length opss \<Longrightarrow> in_order (claims 0 (outss ! i))"
    "i < length opss \<Longrightarrow> list_all2 (\<lambda>hop out. answer_ok H g b hop out (g_mem s)) (opss ! i) (outss ! i)"
  using assms by (cases p; simp add: finished_def)+

lemma all_returned:
  assumes "pool g m" "mm_arch m = X86_64" "conc_start H g (cache m)" "length opss \<le> 2 ^ 32"
    and "list_all (conc_session g) opss" "par_reach (map (session H g) opss) m (map Ret outss) m'"
  obtains s where "g_mem s = m'" "finished H g (cache m) opss outss s"
proof -
  let ?b = "cache m" and ?N = "length opss"
  obtain s where s: "g_mem s = m'" "conc_inv H g ?b ?N s" "length (map Ret outss :: outcome list prog list) = ?N"
    "\<And>i. i < ?N \<Longrightarrow> (\<exists>outs. map Ret outss ! i = Ret outs \<and> session_post H g ?b i {} 0 (opss ! i) outs s) \<or>
       (\<exists>p n. step (map Ret outss ! i) m' = Some (Inr (p :: outcome list prog, n)))"
    "\<And>i. ?N \<le> i \<Longrightarrow> rely g i (start_ghost m) s"
    using sessions_reach [OF assms] by metis
  have len: "length outss = ?N" using s(3) by simp
  have post: "session_post H g ?b i {} 0 (opss ! i) (outss ! i) s" if "i < ?N" for i
    using s(4) [OF that] that len by auto
  have mine: "mine i s = (if i < ?N then claims 0 (outss ! i) else {})" for i
    using post [of i] rely_mine [OF s(5)]
    by (auto simp: session_post_def at_adv_def) (auto simp: mine_def start_ghost_def)
  have own: "g_own s w = Some (i, k) \<longleftrightarrow> (i, k) \<in> acks outss \<and> w = slot_of outss (i, k)" for w i k
  proof -
    have "g_own s w = Some (i, k) \<longleftrightarrow> (w, k) \<in> mine i s" by (simp add: mine_def)
    also have "\<dots> \<longleftrightarrow> (i, k) \<in> acks outss \<and> w = slot_of outss (i, k)"
      using claims_iff [of i outss w k] len by (auto simp: mine acks_def)
    finally show ?thesis .
  qed
  have "i \<notin> g_undo s" for i
  proof (cases "i < ?N")
    case True
    with post show ?thesis by (simp add: session_post_def at_adv_def)
  next
    case False
    then show ?thesis using conc_invD(3) [OF s(2)] by (auto simp: reserve_inv_def)
  qed
  moreover have "g_adv s i = None" for i
  proof (cases "i < ?N")
    case True
    with post show ?thesis by (simp add: session_post_def at_adv_def)
  next
    case False
    then show ?thesis using s(5) [of i] by (simp add: rely_def start_ghost_def)
  qed
  ultimately have "finished H g ?b opss outss s"
    using s(2) len own post by (auto simp: finished_def session_post_def)
  with s(1) show thesis by (rule that)
qed

section \<open>The end of the run\<close>

lemma finished_end:
  assumes "finished H g b opss outss s"
  shows "dom (g_own s) = {reserve_at b..<reserve_at (gc s)}" "reserve_at b \<le> reserve_at (gc s)"
    "reserve_at (gc s) \<le> cap g" "bij_betw (slot_of outss) (acks outss) {reserve_at b..<reserve_at (gc s)}"
proof -
  note F = finishedD [OF assms]
  show d: "dom (g_own s) = {reserve_at b..<reserve_at (gc s)}" "reserve_at b \<le> reserve_at (gc s)"
    "reserve_at (gc s) \<le> cap g"
    using conc_invD(3) [OF F(1)] F(4) by (auto simp: reserve_inv_def)
  have "inj_on (slot_of outss) (acks outss)"
    by (rule inj_onI) (use F(3) in \<open>metis option.sel\<close>)
  moreover have "slot_of outss ` acks outss = dom (g_own s)"
    using F(3) by (auto simp: dom_def image_iff)
  ultimately show "bij_betw (slot_of outss) (acks outss) {reserve_at b..<reserve_at (gc s)}"
    by (simp add: bij_betw_def d(1))
qed

lemma finished_record:
  assumes "finished H g b opss outss s" "p \<in> acks outss"
  obtains h t d where "fst p < length opss" "snd p < length (opss ! fst p)" "opss ! fst p ! snd p = (h, OpAppend t d)"
    "length d \<le> psz g" "appended H g (slot_of outss p) (entry_record (h, t, d) (slot_of outss p)) (g_mem s)"
    "outss ! fst p ! snd p = RAppend (Inr (word_of_nat (slot_of outss p + 1)))"
proof -
  note F = finishedD [OF assms(1)]
  obtain i k where p: "p = (i, k)" by fastforce
  with assms(2) obtain x where x: "i < length opss" "k < length (outss ! i)" "outss ! i ! k = RAppend (Inr x)"
    using F(2) by (auto simp: acks_def)
  note all = F(7) [OF x(1)]
  have len: "length (opss ! i) = length (outss ! i)" using list_all2_lengthD [OF all] .
  obtain h op where op: "opss ! i ! k = (h, op)" by fastforce
  have ans: "answer_ok H g b (h, op) (RAppend (Inr x)) (g_mem s)"
    using list_all2_nthD2 [OF all x(2)] x(3) op by simp
  then obtain t d where td: "op = OpAppend t d" by (cases op) simp_all
  have w: "slot_of outss p = unat x - 1" using x by (simp add: slot_of_def p)
  have "0 < unat x" using ans by (simp add: td)
  then have idx: "word_of_nat (slot_of outss p + 1) = x" by (simp add: w)
  have rec: "new_record h (x - 1) t d = entry_record (h, t, d) (slot_of outss p)"
    by (simp only: entry_record.simps new_record_def idx) simp
  have app: "appended H g (unat x - 1) (new_record h (x - 1) t d) (g_mem s)" "length d \<le> psz g"
    using ans by (simp_all add: td new_record_def)
  show thesis
  proof (rule that [of h t d])
    show "fst p < length opss" "snd p < length (opss ! fst p)" using x(1,2) len by (simp_all add: p)
    show "opss ! fst p ! snd p = (h, OpAppend t d)" using op td by (simp add: p)
    show "length d \<le> psz g" by (rule app(2))
    show "appended H g (slot_of outss p) (entry_record (h, t, d) (slot_of outss p)) (g_mem s)"
      using app(1) unfolding rec by (simp only: w)
    show "outss ! fst p ! snd p = RAppend (Inr (word_of_nat (slot_of outss p + 1)))"
      unfolding idx using x(3) by (simp add: p)
  qed
qed

lemma finished_done:
  assumes "conc_start H g b" "finished H g b opss outss s" "reserve_at b \<le> w" "w < reserve_at (gc s)"
  shows "done_at g (gc s) w"
proof -
  have "w \<in> slot_of outss ` acks outss"
    using finished_end(4) [OF assms(2)] assms(3,4) by (simp add: bij_betw_def)
  then obtain p where p: "p \<in> acks outss" "w = slot_of outss p" by blast
  obtain e where "appended H g w e (g_mem s)"
    by (rule finished_record [OF assms(2) p(1)]) (use p(2) that in blast)
  then have "committed_state (slot_view H g (gc s) w)" by (simp add: appended_def del: committed_state_view)
  then show ?thesis unfolding committed_done .
qed

lemma finished_tail:
  assumes "conc_start H g b" "finished H g b opss outss s" "tail_at b = reserve_at b"
  shows "tail_at (gc s) = reserve_at (gc s)"
proof -
  note F = finishedD [OF assms(2)] and E = finished_end [OF assms(2)] and S = conc_startD [OF assms(1)]
  note D = conc_invD [OF F(1)]
  have T: "reserve_at b \<le> tail_at (gc s)" "tail_at (gc s) \<le> cap g"
    using D(4) assms(3) by (simp_all add: tail_inv_def)
  have "\<not> tail_at (gc s) < reserve_at (gc s)"
  proof
    assume lt: "tail_at (gc s) < reserve_at (gc s)"
    then have "done_at g (gc s) (tail_at (gc s))" by (rule finished_done [OF assms(1,2) T(1)])
    moreover have "tail_at (gc s) < cap g" using lt E(3) by simp
    ultimately have "\<exists>i q. g_adv s i = Some q \<and> (\<forall>v. q = Some v \<longrightarrow> tail_at (gc s) < v)"
      using D(6) [unfolded adv_inv_def, THEN spec, of "tail_at (gc s)"] le_antisym by fastforce
    then show False by (simp add: F(5))
  qed
  moreover have "\<not> reserve_at (gc s) < tail_at (gc s)"
  proof
    let ?e = "reserve_at (gc s)"
    assume lt: "?e < tail_at (gc s)"
    then have dn: "done_at g (gc s) ?e" "?e < cap g"
      using D(4) E(2) assms(3) T(2) by (auto simp: tail_inv_def)
    have "?e \<notin> dom (g_own s)" unfolding E(1) by simp
    then have "same_rec g ?e b (gc s)" using D(5) dn(2) by (simp add: slots_inv_def)
    then have "slot_view H g (gc s) ?e = SFree"
      using same_rec_view [OF S(1)] S(4) [OF E(2) dn(2)] by metis
    with dn(1) have "committed_state SFree" by (metis committed_done)
    then show False by simp
  qed
  ultimately show ?thesis by simp
qed

section \<open>A sequential order\<close>

text \<open>What a sequence of appends leaves.\<close>

lemma add_all_slots:
  assumes "settled g L" "list_all (entry_fits g) as" "unat (l_tail L) + length as \<le> cap g"
  shows "l_slots (fold (log_add g) as L) = map (\<lambda>w. if unat (l_tail L) \<le> w \<and> w < unat (l_tail L) + length as
      then SCommitted (entry_record (as ! (w - unat (l_tail L))) w) else l_slots L ! w) [0..<cap g]"
  using assms
proof (induction "as" arbitrary: L)
  case Nil
  then have "length (l_slots L) = cap g" by (simp add: settled_def log_inv_def)
  then show ?case by (intro nth_equalityI) auto
next
  case (Cons a "as")
  obtain h t d where a: "a = (h, t, d)" by (cases a)
  have fits: "length d \<le> psz g" "unat (l_tail L) < cap g" using Cons.prems by (simp_all add: a)
  note s = settled_append [OF Cons.prems(1) fits]
  have t1: "unat (l_tail (log_add g a L)) = Suc (unat (l_tail L))" by (simp add: a s(1,3))
  have sl: "l_slots (log_add g a L) = (l_slots L)[unat (l_tail L) := SCommitted (entry_record a (unat (l_tail L)))]"
    by (simp add: a s(1))
  have len: "length (l_slots L) = cap g" using Cons.prems(1) by (simp add: settled_def log_inv_def)
  have "l_slots (fold (log_add g) as (log_add g a L)) =
      map (\<lambda>w. if unat (l_tail (log_add g a L)) \<le> w \<and> w < unat (l_tail (log_add g a L)) + length as
        then SCommitted (entry_record (as ! (w - unat (l_tail (log_add g a L)))) w)
        else l_slots (log_add g a L) ! w) [0..<cap g]"
    using Cons.prems s(2) t1 by (intro Cons.IH) (simp_all add: a)
  then show ?case
    unfolding t1 sl using len fits(2)
    by (auto simp: nth_list_update nth_Cons' Suc_diff_Suc intro!: nth_equalityI)
qed

fun entry_of :: "u16 \<times> log_op \<Rightarrow> entry" where
  "entry_of (h, OpAppend t d) = (h, t, d)"
| "entry_of (h, op) = (h, 0, [])"

text \<open>The acknowledged appends in the order of their slots.\<close>

definition slot_order :: "ghost \<Rightarrow> nat \<Rightarrow> nat \<Rightarrow> op_id list" where
  "slot_order s a e = map (\<lambda>w. the (g_own s w)) [a..<e]"

lemma slot_order:
  assumes "finished H g b opss outss s"
  shows "length (slot_order s (reserve_at b) (reserve_at (gc s))) = reserve_at (gc s) - reserve_at b"
    and "n < reserve_at (gc s) - reserve_at b \<Longrightarrow>
      slot_order s (reserve_at b) (reserve_at (gc s)) ! n \<in> acks outss \<and>
      slot_of outss (slot_order s (reserve_at b) (reserve_at (gc s)) ! n) = reserve_at b + n"
    and "distinct (slot_order s (reserve_at b) (reserve_at (gc s)))"
    and "set (slot_order s (reserve_at b) (reserve_at (gc s))) = acks outss"
proof -
  let ?o = "slot_order s (reserve_at b) (reserve_at (gc s))" and ?n = "reserve_at (gc s) - reserve_at b"
  note F = finishedD [OF assms] and E = finished_end [OF assms]
  show len: "length ?o = ?n" by (simp add: slot_order_def)
  show nth: "?o ! n \<in> acks outss \<and> slot_of outss (?o ! n) = reserve_at b + n" if "n < ?n" for n
  proof -
    have "reserve_at b + n \<in> dom (g_own s)" using that by (simp add: E(1))
    then obtain p where p: "g_own s (reserve_at b + n) = Some p" by blast
    then have "?o ! n = p" using that by (simp add: slot_order_def)
    with p F(3) show ?thesis by simp
  qed
  show "distinct ?o"
    unfolding distinct_conv_nth using nth len by (metis add_left_cancel)
  show "set ?o = acks outss"
  proof
    show "set ?o \<subseteq> acks outss"
    proof
      fix p assume "p \<in> set ?o"
      then obtain n where "n < ?n" "p = ?o ! n" unfolding in_set_conv_nth len by blast
      with nth [of n] show "p \<in> acks outss" by simp
    qed
    show "acks outss \<subseteq> set ?o"
    proof
      fix p assume p: "p \<in> acks outss"
      then have own: "g_own s (slot_of outss p) = Some p" using F(3) by simp
      then have "slot_of outss p \<in> {reserve_at b..<reserve_at (gc s)}" using E(1) by blast
      then have "the (g_own s (slot_of outss p)) \<in> set ?o" by (auto simp: slot_order_def)
      with own show "p \<in> set ?o" by simp
    qed
  qed
qed

end
