(* ===== verification/ConcSerial.thy ===== *)
theory ConcSerial
  imports ConcFinal
begin

text \<open>
  The outcome of sessions that ran at the same time is one of a sequential order of their
  acknowledged appends, and it survives a power loss.
\<close>

section \<open>The sequential order\<close>

lemma append_op_entry: "op = OpAppend t d \<Longrightarrow> append_op (entry_of (h, op)) = (h, op)"
  by simp

text \<open>The operations, the entries and the answers of a list of appends.\<close>

definition ops_of :: "(u16 \<times> log_op) list list \<Rightarrow> op_id list \<Rightarrow> (u16 \<times> log_op) list" where
  "ops_of opss order = map (\<lambda>(i, k). opss ! i ! k) order"

definition answers_of :: "outcome list list \<Rightarrow> op_id list \<Rightarrow> outcome list" where
  "answers_of outss order = map (\<lambda>(i, k). outss ! i ! k) order"

definition program_order :: "op_id list \<Rightarrow> bool" where
  "program_order order \<longleftrightarrow> (\<forall>a b. a < b \<longrightarrow> b < length order \<longrightarrow> fst (order ! a) = fst (order ! b) \<longrightarrow>
     snd (order ! a) < snd (order ! b))"

lemma slot_order_program:
  assumes "finished H g b opss outss s"
  shows "program_order (slot_order s (reserve_at b) (reserve_at (gc s)))"
  unfolding program_order_def
proof (intro allI impI)
  let ?o = "slot_order s (reserve_at b) (reserve_at (gc s))"
  note F = finishedD [OF assms] and O = slot_order [OF assms]
  fix x y assume xy: "x < y" "y < length ?o" "fst (?o ! x) = fst (?o ! y)"
  obtain i k k' where ik: "?o ! x = (i, k)" "?o ! y = (i, k')" using xy(3) by (metis prod.collapse)
  have acks: "(i, k) \<in> acks outss" "(i, k') \<in> acks outss"
    and slots: "slot_of outss (i, k) = reserve_at b + x" "slot_of outss (i, k') = reserve_at b + y"
    using O(2) [of x] O(2) [of y] xy(1,2) O(1) ik by simp_all
  have i: "i < length opss" using acks(1) F(2) by (auto simp: acks_def)
  then have cl: "(reserve_at b + x, k) \<in> claims 0 (outss ! i)" "(reserve_at b + y, k') \<in> claims 0 (outss ! i)"
    using claims_iff [of i outss] acks slots F(2) by simp_all
  have "k \<noteq> k'" using slots xy(1) by auto
  moreover have "\<not> k' < k"
  proof
    assume "k' < k"
    with F(6) [OF i] cl have "reserve_at b + y < reserve_at b + x" unfolding in_order_def by fastforce
    with xy(1) show False by simp
  qed
  ultimately show "snd (?o ! x) < snd (?o ! y)" using ik by simp
qed

lemma finished_slots:
  assumes "conc_start H g b" "finished H g b opss outss s" "w < cap g"
  shows "slot_view H g (gc s) w =
    (if reserve_at b \<le> w \<and> w < reserve_at (gc s)
     then SCommitted (entry_record (entry_of ((\<lambda>(i, k). opss ! i ! k)
       (slot_order s (reserve_at b) (reserve_at (gc s)) ! (w - reserve_at b)))) w)
     else slot_view H g b w)"
proof (cases "reserve_at b \<le> w \<and> w < reserve_at (gc s)")
  case True
  let ?p = "slot_order s (reserve_at b) (reserve_at (gc s)) ! (w - reserve_at b)"
  have "w - reserve_at b < reserve_at (gc s) - reserve_at b" using True by linarith
  from slot_order(2) [OF assms(2) this] True
  have p: "?p \<in> acks outss" "slot_of outss ?p = w" by simp_all
  from finished_record [OF assms(2) p(1)] obtain h t d where
    r: "opss ! fst ?p ! snd ?p = (h, OpAppend t d)" "appended H g w (entry_record (h, t, d) w) (g_mem s)"
    unfolding p(2) by metis
  with True show ?thesis by (simp add: appended_def case_prod_beta del: entry_record.simps)
next
  case False
  have "w \<notin> dom (g_own s)" using finished_end(1) [OF assms(2)] False by auto
  then have "same_rec g w b (gc s)"
    using conc_invD(5) [OF finishedD(1) [OF assms(2)]] assms(3) by (simp add: slots_inv_def)
  from same_rec_view [OF conc_startD(1) [OF assms(1)] this, of H] False show ?thesis by auto
qed

lemma serial_order:
  assumes "pool g m" "settled g (abs_log H g (cache m))" "finished H g (cache m) opss outss s"
    and "list_all (conc_session g) opss"
    and o: "order = slot_order s (reserve_at (cache m)) (reserve_at (gc s))"
  obtains m1 where "run (session H g (ops_of opss order)) m = Inr (answers_of outss order, m1)"
    "abs_log H g (cache m1) = fold (log_add g) (map entry_of (ops_of opss order)) (abs_log H g (cache m))"
    "list_all (entry_fits g) (map entry_of (ops_of opss order))"
    "list_all (\<lambda>(h, _). unat h < hosts g) (map entry_of (ops_of opss order))"
    "ops_of opss order = map append_op (map entry_of (ops_of opss order))"
proof -
  define as' where "as' = map entry_of (ops_of opss order)"
  let ?b = "cache m" and ?L = "abs_log H g (cache m)" and ?as = as'
  note O = slot_order [OF assms(3), folded o] and E = finished_end [OF assms(3)]
  have ok: "geom_ok g" using assms(1) by (simp add: pool_def)
  have st: "conc_start H g ?b" by (rule settled_start [OF ok assms(2)])
  have inv: "log_inv g ?L" and eq: "get64 ?b 32 = get64 ?b 40" using assms(2) by (simp_all add: settled_def)
  have len: "length ?as = reserve_at (gc s) - reserve_at ?b" by (simp add: as'_def ops_of_def O(1))
  have each: "\<exists>h t d. ops_of opss order ! n = (h, OpAppend t d) \<and> length d \<le> psz g \<and> unat h < hosts g \<and>
      answers_of outss order ! n = RAppend (Inr (word_of_nat (reserve_at ?b + n + 1)))"
    if n: "n < length order" for n
  proof -
    obtain i k where p: "order ! n = (i, k)" by fastforce
    have p': "(i, k) \<in> acks outss" "slot_of outss (i, k) = reserve_at ?b + n"
      using O(2) [of n] n O(1) p by simp_all
    from finished_record [OF assms(3) p'(1)] obtain h t d where
      r: "i < length opss" "k < length (opss ! i)" "opss ! i ! k = (h, OpAppend t d)" "length d \<le> psz g"
        "outss ! i ! k = RAppend (Inr (word_of_nat (reserve_at ?b + n + 1)))"
      unfolding p'(2) fst_conv snd_conv by metis
    have "unat h < hosts g"
      using assms(4) r(1-3) by (fastforce simp: list_all_length conc_session_def)
    with r n p show ?thesis by (simp add: ops_of_def answers_of_def)
  qed
  have entry: "\<exists>h t d. ?as ! n = (h, t, d) \<and> ops_of opss order ! n = (h, OpAppend t d) \<and> length d \<le> psz g \<and> unat h < hosts g"
    if "n < length ?as" for n
    using each [of n] that by (auto simp: as'_def ops_of_def)
  have fits: "list_all (entry_fits g) ?as" "list_all (\<lambda>(h, _). unat h < hosts g) ?as"
    unfolding list_all_length using entry by fastforce+
  have ops: "ops_of opss order = map append_op ?as"
  proof (rule nth_equalityI)
    show "length (ops_of opss order) = length (map append_op ?as)" by (simp add: as'_def)
    fix n assume "n < length (ops_of opss order)"
    with entry [of n] show "ops_of opss order ! n = map append_op ?as ! n" by (auto simp: as'_def)
  qed
  have room: "unat (l_tail ?L) + length ?as \<le> cap g" using E(2,3) len eq by simp
  have answers: "answers_of outss order = map (\<lambda>i. RAppend (Inr (word_of_nat (unat (l_tail ?L) + i + 1)))) [0..<length ?as]"
  proof (rule nth_equalityI)
    fix n assume "n < length (answers_of outss order)"
    then have n: "n < length order" by (simp add: answers_of_def)
    with each [OF n] show "answers_of outss order ! n =
        map (\<lambda>i. RAppend (Inr (word_of_nat (unat (l_tail ?L) + i + 1)))) [0..<length ?as] ! n"
      by (auto simp: as'_def ops_of_def eq)
  qed (simp add: answers_of_def as'_def ops_of_def)
  have "session_ok g (ops_of opss order)"
    unfolding session_ok_def list_all_length
  proof (intro allI impI)
    fix n assume "n < length (ops_of opss order)"
    with entry [of n] show "case ops_of opss order ! n of (h, op) \<Rightarrow> unat h < hosts g \<and> op_ok op"
      by (auto simp: as'_def)
  qed
  then have "sim H g m (session H g (map append_op ?as)) (session_spec g (map append_op ?as) ?L)"
    unfolding ops by (rule sim_session [OF assms(1) refl inv])
  then obtain m1 where "run (session H g (map append_op ?as)) m = Inr (answers_of outss order, m1)"
    "abs_log H g (cache m1) = fold (log_add g) ?as ?L"
    unfolding session_appends [OF assms(2) fits(1) room] answers by (auto simp: sim_def)
  from that [unfolded as'_def [symmetric], OF this [folded ops] fits ops] show thesis .
qed

text \<open>The slots and the tails are those the sequential order leaves.\<close>

lemma serial_slots:
  assumes "geom_ok g" "settled g (abs_log H g b)" "finished H g b opss outss s"
    and o: "order = slot_order s (reserve_at b) (reserve_at (gc s))"
    and fits: "list_all (entry_fits g) (map entry_of (ops_of opss order))"
  defines "L' \<equiv> fold (log_add g) (map entry_of (ops_of opss order)) (abs_log H g b)"
  shows "l_slots (abs_log H g (gc s)) = l_slots L'" "l_tail (abs_log H g (gc s)) = l_tail L'"
    "l_reserve (abs_log H g (gc s)) = l_reserve L'"
proof -
  let ?L = "abs_log H g b" and ?K = "reserve_at b" and ?as = "map entry_of (ops_of opss order)"
  note O = slot_order [OF assms(3), folded o] and E = finished_end [OF assms(3)]
  have st: "conc_start H g b" by (rule settled_start [OF assms(1,2)])
  have eq: "get64 b 32 = get64 b 40" using assms(2) by (simp add: settled_def)
  have len: "length ?as = reserve_at (gc s) - ?K" by (simp add: ops_of_def O(1))
  have room: "unat (l_tail ?L) + length ?as \<le> cap g" using E(2,3) len eq by simp
  have K: "unat (l_tail ?L) = ?K" "?K + length ?as = reserve_at (gc s)" using eq E(2) len by simp_all
  show "l_slots (abs_log H g (gc s)) = l_slots L'"
    unfolding L'_def add_all_slots [OF assms(2) fits room] K abs_log_sel(1)
  proof (rule map_cong [OF refl])
    fix w assume w: "w \<in> set [0..<cap g]"
    then have wc: "w < cap g" by simp
    have nth: "?as ! (w - ?K) = entry_of ((\<lambda>(i, k). opss ! i ! k) (order ! (w - ?K)))"
      if "?K \<le> w" "w < reserve_at (gc s)"
    proof -
      have "w - ?K < length order" using that O(1) by linarith
      then show ?thesis by (simp add: ops_of_def)
    qed
    show "slot_view H g (gc s) w = (if ?K \<le> w \<and> w < reserve_at (gc s)
        then SCommitted (entry_record (?as ! (w - ?K)) w) else map (slot_view H g b) [0..<cap g] ! w)"
      unfolding finished_slots [OF st assms(3) wc, folded o] using nth wc nth_map_upt [of w "cap g" 0 "slot_view H g b"] by auto
  qed
  have inv: "settled g L' \<and> unat (l_tail L') = unat (l_tail ?L) + length ?as"
    using log_store.add_all_inv [OF assms(2) fits room] by (simp add: L'_def)
  have "tail_at (gc s) = reserve_at (gc s)" by (rule finished_tail [OF st assms(3)]) (simp add: eq)
  then have "tail_at (gc s) = unat (l_tail L')" using inv K by simp
  moreover have "l_reserve L' = l_tail L'" using inv by (simp add: settled_def)
  ultimately show "l_tail (abs_log H g (gc s)) = l_tail L'" "l_reserve (abs_log H g (gc s)) = l_reserve L'"
    using \<open>tail_at (gc s) = reserve_at (gc s)\<close> by (simp_all add: word_unat_eq_iff)
qed

section \<open>Power loss\<close>

lemma par_reach_tail:
  "par_reach ps m ps' m' \<Longrightarrow> list_all tail_up ps \<Longrightarrow> tail_from T m \<Longrightarrow> list_all tail_up ps' \<and> tail_from T m'"
proof (induction rule: par_reach.induct)
  case (par_thread ps m ps' m' i p n)
  then have "list_all tail_up ps'" "tail_from T m'" "tail_up (ps' ! i)" by (simp_all add: list_all_length)
  from tail_from_step [OF par_thread.hyps(3) this(3,2)] this(1) par_thread.hyps(2) show ?case
    by (auto simp: list_all_length nth_list_update)
qed (simp_all add: tail_from_evict)

lemma finished_recovers:
  assumes "pool g m" "line_aligned m" "tail_at (media m) = tail_at (cache m)"
    and "settled g (abs_log H g (cache m))"
    and "par_reach (map (session H g) opss) m (map Ret outss) (g_mem s)"
    and "finished H g (cache m) opss outss s"
    and "rt_geometry rt = g" "unat (rt_host_id rt) < hosts g" "p \<in> acks outss"
    and o: "order = slot_order s (reserve_at (cache m)) (reserve_at (gc s))"
    and "e = entry_record (entry_of ((\<lambda>(i, k). opss ! i ! k) p)) (slot_of outss p)"
  shows "\<exists>rep m1 m2. run (runtime_recover H rt) (crash (g_mem s)) = Inr (rep, m1) \<and>
    run (read H rt (word_of_nat (slot_of outss p + 1))) m1 = Inr (Inr (Some e), m2)"
proof -
  let ?b = "cache m" and ?m = "g_mem s"
  let ?f = "\<lambda>w. entry_record (entry_of ((\<lambda>(i, k). opss ! i ! k) (order ! (w - reserve_at ?b)))) w"
  note F = finishedD [OF assms(6)] and E = finished_end [OF assms(6)] and O = slot_order [OF assms(6), folded o]
  have ok: "geom_ok g" using assms(1) by (simp add: pool_def)
  note st = settled_start [OF ok assms(4)]
  have eq: "tail_at ?b = reserve_at ?b" using assms(4) by (simp add: settled_def)
  have pool: "pool g ?m" using conc_invD(1) [OF F(1)] .
  have "list_all tail_up (map (session H g) opss)" by (simp add: list_all_length tail_up_session)
  moreover have "tail_from (reserve_at ?b) m" using assms(2,3) eq by (simp add: tail_from_def)
  ultimately have tf: "reserve_at ?b \<le> tail_at (media ?m)"
    using par_reach_tail [OF assms(5)] by (simp add: tail_from_def)
  have media: "slot_view H g (media ?m) w = SCommitted (?f w)"
    if w: "reserve_at ?b \<le> w" "w < reserve_at (gc s)" for w
  proof -
    have wc: "w < cap g" using w E(3) by simp
    have n: "w - reserve_at ?b < reserve_at (gc s) - reserve_at ?b" using w by linarith
    have "order ! (w - reserve_at ?b) \<in> acks outss" "slot_of outss (order ! (w - reserve_at ?b)) = w"
      using O(2) [OF n] w by simp_all
    then have "synced g ?m w"
      by (metis finished_record [OF assms(6)] appended_def)
    then have "slot_view H g (media ?m) w = slot_view H g (gc s) w"
      by (intro slot_view_cong [OF geom_okD(4) [OF ok]]) (simp add: synced_def rec_region_def)
    then show ?thesis using finished_slots [OF st assms(6) wc, folded o] w by simp
  qed
  have slot: "reserve_at ?b \<le> slot_of outss p" "slot_of outss p < reserve_at (gc s)"
    using E(4) assms(9) by (auto simp: bij_betw_def)
  then have n: "slot_of outss p - reserve_at ?b < reserve_at (gc s) - reserve_at ?b" by linarith
  have "order ! (slot_of outss p - reserve_at ?b) = p"
  proof (rule inj_onD [OF bij_betw_imp_inj_on [OF E(4)] _ _ assms(9)])
    show "slot_of outss (order ! (slot_of outss p - reserve_at ?b)) = slot_of outss p"
      "order ! (slot_of outss p - reserve_at ?b) \<in> acks outss"
      using O(2) [OF n] slot by simp_all
  qed
  then have e: "?f (slot_of outss p) = e" using assms(11) by simp
  have "pool g (crash ?m)" "cache (crash ?m) = media ?m"
    using pool by (auto simp: pool_def crash_def mapped_def)
  then show ?thesis
    using recover_reads [of g "crash ?m" rt "reserve_at ?b" "reserve_at (gc s)" H ?f "slot_of outss p"]
      assms(7,8) tf E(3) media slot e by simp
qed

end
