(* ===== verification/ConcProps.thy ===== *)
theory ConcProps
  imports ConcSerial ConcRace DurableProps
begin

text \<open>
  The properties of hosts that use the log at the same time.
\<close>

section \<open>Helpers\<close>

lemma par_reach_step: "par_reach ps m qs n \<Longrightarrow> par_step (qs, n) (rs, k) \<Longrightarrow> par_reach ps m rs k"
  by (erule par_stepE) (auto intro: par_thread)


text \<open>A schedule: calls of threads and evictions, without end.\<close>

definition schedule :: "(nat \<Rightarrow> 'a prog list \<times> mmap) \<Rightarrow> bool" where
  "schedule f \<longleftrightarrow> (\<forall>k. par_step (f k) (f (Suc k)) \<or> (\<exists>l. f (Suc k) = (fst (f k), write_back l (snd (f k)))))"

text \<open>Evictions do not crowd out the threads: as long as one can make a call, some call follows.\<close>

definition calls_follow :: "(nat \<Rightarrow> 'a prog list \<times> mmap) \<Rightarrow> bool" where
  "calls_follow f \<longleftrightarrow> (\<forall>k. (\<exists>c. par_step (f k) c) \<longrightarrow> (\<exists>j\<ge>k. par_step (f j) (f (Suc j))))"

lemma schedule_reach:
  assumes "schedule f" "f 0 = (ps, m)"
  shows "par_reach ps m (fst (f k)) (snd (f k))"
proof (induction k)
  case 0
  show ?case using assms(2) by (simp add: par_refl)
next
  case (Suc k)
  consider "par_step (fst (f k), snd (f k)) (fst (f (Suc k)), snd (f (Suc k)))"
    | l where "f (Suc k) = (fst (f k), write_back l (snd (f k)))"
    using assms(1) unfolding schedule_def by (metis prod.collapse)
  then show ?case
  proof cases
    case 1
    with Suc show ?thesis by (rule par_reach_step)
  next
    case 2
    with par_evict [OF Suc] show ?thesis by simp
  qed
qed

lemma schedule_settles:
  assumes "schedule f"
  obtains K where "\<And>k. K \<le> k \<Longrightarrow> \<not> par_step (f k) (f (Suc k))"
proof -
  let ?r = "listrel1 {(q, p). subtree q (p :: 'a prog)}"
  have wf: "wf ?r" using wfp_subtree by (simp add: wfp_def wf_listrel1_iff)
  have less: "(fst (f (Suc k)), fst (f k)) \<in> ?r" if "par_step (f k) (f (Suc k))" for k
    using that par_step_listrel by (metis prod.collapse)
  obtain z where z: "z \<in> range (\<lambda>k. fst (f k))" "\<And>y. (y, z) \<in> ?r \<Longrightarrow> y \<notin> range (\<lambda>k. fst (f k))"
    by (rule wfE_min [OF wf, of "fst (f 0)" "range (\<lambda>k. fst (f k))"]) auto
  then obtain K where K: "z = fst (f K)" by blast
  have no: "\<not> par_step (f k) (f (Suc k))" if "fst (f k) = z" for k
    using less [of k] z(2) that by blast
  have "fst (f k) = z" if "K \<le> k" for k
    using that
  proof (induction k rule: dec_induct)
    case base
    show ?case using K by simp
  next
    case (step n)
    with no [of n] assms show ?case unfolding schedule_def by (metis fst_conv)
  qed
  with no show thesis by (intro that [of K]) blast
qed

section \<open>Two hosts on the small pool\<close>

abbreviation demo_appends :: "(u16 \<times> log_op) list list" where
  "demo_appends \<equiv> [[(0, OpAppend 7 [1, 2])], [(1, OpAppend 8 [3])]]"

lemma demo_start: "settled demo_geometry (abs_log demo_hasher demo_geometry zeros)"
  "list_all (conc_session demo_geometry) demo_appends"
  by (simp_all add: settled_def conc_session_def)

lemma demo_parallel:
  obtains m' where "par_reach (map (session demo_hasher demo_geometry) demo_appends) (demo_region zeros)
    (map Ret [[RAppend (Inr 1)], [RAppend (Inr 2)]]) m'"
proof -
  let ?H = demo_hasher and ?g = demo_geometry
  have one: "sim ?H ?g m (session ?H ?g [append_op a]) ([RAppend (Inr (l_tail L + 1))], log_add ?g a L)"
    if "pool ?g m" "abs_log ?H ?g (cache m) = L" "settled ?g L" "entry_fits ?g a" "unat (fst a) < hosts ?g"
      "unat (l_tail L) < cap ?g" for m L a
  proof -
    have "log_inv ?g L" "session_ok ?g (map append_op [a])"
      using that(3,5) by (cases a; simp add: settled_def session_ok_def)+
    from sim_session [OF that(1,2) this]
    show ?thesis using session_appends [OF that(3), of "[a]"] that(4,6) by (simp add: add.commute)
  qed
  let ?L0 = "abs_log ?H ?g zeros" and ?L1 = "log_add ?g (0, 7, [1, 2]) (abs_log ?H ?g zeros)"
  have s1: "settled ?g ?L1" "unat (l_tail ?L1) = 1"
    using log_store.add_all_inv [OF demo_start(1), of "[(0, 7, [1, 2])]"] by simp_all
  obtain m1 where m1: "run (session ?H ?g [append_op (0, 7, [1, 2])]) (demo_region zeros) = Inr ([RAppend (Inr 1)], m1)"
    "pool ?g m1" "abs_log ?H ?g (cache m1) = ?L1"
    using one [OF demo_pool(1) refl, of zeros "(0, 7, [1, 2])"] demo_start(1) by (auto simp: sim_def)
  have t: "l_tail ?L1 + 1 = 2" using s1(2) by (simp add: word_unat_eq_iff unat_word_ariths)
  obtain m2 where m2: "run (session ?H ?g [append_op (1, 8, [3])]) m1 = Inr ([RAppend (Inr 2)], m2)"
    using one [OF m1(2,3) s1(1), of "(1, 8, [3])"] s1(2) t by (auto simp: sim_def)
  from par_right [OF run_steps [OF m2] par_left [OF run_steps [OF m1(1)] par_refl]]
  show thesis by (intro that) simp
qed


section \<open>Safety\<close>

text \<open>
  C4: hosts run sessions of appends, reads and tail queries at the same time on a log without
  pending reservations. At every point of every schedule, whatever was evicted, each host has
  either finished or can make its next call without a fault (so no compare-and-swap loop runs
  out of rounds), and every answer of a host that finished is correct: an append's record is
  in its slot, in the cache and on the media; a refused append was too large or found the log
  full; a read returned a complete record that was below the committed tail, or a gap.
\<close>
theorem concurrent_sessions_safe:
  assumes "pool g m" "mm_arch m = X86_64" "conc_start H g (cache m)" "length opss \<le> 2 ^ 32"
    and "list_all (conc_session g) opss" "par_reach (map (session H g) opss) m ps m'" "i < length opss"
  shows "(\<exists>outs. ps ! i = Ret outs \<and> list_all2 (\<lambda>hop out. answer_ok H g (cache m) hop out m') (opss ! i) outs) \<or>
    (\<exists>p n. step (ps ! i) m' = Some (Inr (p, n)))"
proof -
  obtain s where "g_mem s = m'" "\<And>i. i < length opss \<Longrightarrow> (\<exists>outs. ps ! i = Ret outs \<and>
       session_post H g (cache m) i {} 0 (opss ! i) outs s) \<or> (\<exists>p n. step (ps ! i) m' = Some (Inr (p, n)))"
    using sessions_reach [OF assms(1-6)] by metis
  with assms(7) show ?thesis unfolding session_post_def by blast
qed

theorem concurrent_sessions_safe_witness:
  "\<exists>m'. par_reach (map (session demo_hasher demo_geometry) demo_appends) (demo_region zeros)
      (map Ret [[RAppend (Inr 1)], [RAppend (Inr 2)]]) m' \<and>
    appended demo_hasher demo_geometry 1 (new_record 1 1 8 [3]) m'"
proof -
  obtain m' where m': "par_reach (map (session demo_hasher demo_geometry) demo_appends) (demo_region zeros)
      (map Ret [[RAppend (Inr 1)], [RAppend (Inr 2)]]) m'"
    by (rule demo_parallel)
  from concurrent_sessions_safe [OF demo_pool(1) _ _ _ demo_start(2) m', of 1]
    settled_start [of demo_geometry demo_hasher zeros] demo_start(1) m'
  show ?thesis by (intro exI [of _ m']) simp
qed

section \<open>Termination\<close>

text \<open>
  C8: every schedule of such sessions ends with all hosts finished, as long as evictions do not
  crowd out the calls; no fairness between the hosts is needed, so no host waits for another.
\<close>
theorem concurrent_sessions_terminate:
  assumes "pool g m" "mm_arch m = X86_64" "conc_start H g (cache m)" "length opss \<le> 2 ^ 32"
    and "list_all (conc_session g) opss"
    and "schedule f" "calls_follow f" "f 0 = (map (session H g) opss, m)"
  shows "\<exists>k outss. fst (f k) = map Ret outss"
proof -
  obtain K where K: "\<And>k. K \<le> k \<Longrightarrow> \<not> par_step (f k) (f (Suc k))"
    using schedule_settles [OF assms(6)] by metis
  have reach: "par_reach (map (session H g) opss) m (fst (f K)) (snd (f K))"
    by (rule schedule_reach [OF assms(6,8)])
  obtain s where s: "length (fst (f K)) = length opss"
    "\<And>i. i < length opss \<Longrightarrow> (\<exists>outs. fst (f K) ! i = Ret outs) \<or>
       (\<exists>p n. step (fst (f K) ! i) (snd (f K)) = Some (Inr (p, n)))"
    using sessions_reach [OF assms(1-5) reach] by metis
  have "\<exists>outs. fst (f K) ! i = Ret outs" if i: "i < length opss" for i
  proof (rule ccontr)
    assume "\<not> ?thesis"
    then obtain p n where "step (fst (f K) ! i) (snd (f K)) = Some (Inr (p, n))" using s(2) [OF i] by blast
    then have "par_step (fst (f K), snd (f K)) ((fst (f K)) [i := p], n)"
      using i s(1) by (intro par_step.intros) simp_all
    then have "\<exists>c. par_step (f K) c" by auto
    with assms(7) K show False unfolding calls_follow_def by blast
  qed
  then have "\<forall>i<length (fst (f K)). \<exists>outs. fst (f K) ! i = Ret outs" using s(1) by simp
  then obtain outss where "\<forall>i<length (fst (f K)). fst (f K) ! i = Ret (outss i)" by metis
  then have "fst (f K) = map Ret (map outss [0..<length (fst (f K))])"
    by (intro nth_equalityI) simp_all
  then show ?thesis by blast
qed

theorem concurrent_sessions_terminate_witness:
  "\<exists>f. schedule f \<and> calls_follow f \<and>
    f 0 = (map (session demo_hasher demo_geometry) [[(0, OpReserveTail)], [(1, OpCommittedTail)]], demo_region zeros) \<and>
    (\<exists>k outss. fst (f k) = map Ret outss)"
proof -
  let ?p = "session demo_hasher demo_geometry [(0, OpReserveTail)]"
    and ?q = "session demo_hasher demo_geometry [(1, OpCommittedTail)]"
    and ?r = "Ret [RTail 0] :: outcome list prog" and ?m = "demo_region zeros"
  define f where "f k = (if k = 0 then ([?p, ?q], ?m) else if k = 1 then ([?r, ?q], ?m) else ([?r, ?r], ?m))" for k :: nat
  have st: "step ?p ?m = Some (Inr (?r, ?m))" "step ?q ?m = Some (Inr (?r, ?m))"
    by (simp_all add: reserve_tail_def committed_tail_def mb_defs demo_region_def)
  have "par_step ([?p, ?q], ?m) ([?p, ?q][0 := ?r], ?m)" "par_step ([?r, ?q], ?m) ([?r, ?q][1 := ?r], ?m)"
    by (rule par_step.intros; use st in simp)+
  then have calls: "par_step (f 0) (f 1)" "par_step (f 1) (f 2)" by (simp_all add: f_def)
  have "cache ?m = media ?m" by simp
  then have "write_back 0 ?m = ?m" by (simp add: write_back_def demo_region_def fun_eq_iff)
  then have "f (Suc k) = (fst (f k), write_back 0 (snd (f k)))" if "2 \<le> k" for k
    using that by (simp add: f_def)
  then have "schedule f"
    unfolding schedule_def using calls by (metis One_nat_def Suc_1 less_2_cases not_le)
  moreover have "calls_follow f"
    unfolding calls_follow_def
  proof (intro allI impI)
    fix k assume "\<exists>c. par_step (f k) c"
    then have "\<not> 2 \<le> k" by (auto simp: f_def nth_Cons' less_Suc_eq elim!: par_step.cases)
    then have "k \<le> 1" by simp
    then show "\<exists>j\<ge>k. par_step (f j) (f (Suc j))" using calls(2) by (intro exI [of _ 1]) (simp add: numeral_2_eq_2)
  qed
  moreover have f0: "f 0 = (map (session demo_hasher demo_geometry) [[(0, OpReserveTail)], [(1, OpCommittedTail)]], ?m)"
    by (simp add: f_def)
  moreover have "list_all (conc_session demo_geometry) [[(0, OpReserveTail)], [(1, OpCommittedTail)]]"
    by (simp add: conc_session_def)
  ultimately show ?thesis
    using concurrent_sessions_terminate [where f = f, OF demo_pool(1) _ _ _ _ _ _ f0]
      settled_start [of demo_geometry demo_hasher zeros] demo_start(1) by (intro exI [of _ f]) simp
qed

section \<open>Serializability\<close>







section \<open>Recovery at the same time\<close>

text \<open>
  C6: a recovery that runs while another host appends can destroy the record: on every log
  without gaps that has room there is a schedule in which the append is acknowledged, the
  recovery ends as well, and reading the index finds a gap. The recovery loads the state of
  the slot, sees WRITING and then stores ABANDONED without looking again.
\<close>
theorem recovery_abandons_acknowledged_append:
  assumes "pool g m" "settled g (abs_log H g (cache m))" "unat h0 < hosts g" "unat h1 < hosts g"
    and "length d \<le> psz g" "tail_at (cache m) < cap g" "r = get64 (cache m) 40"
    and "rt_geometry rt = g" "unat (rt_host_id rt) < hosts g"
  shows "\<exists>rep m' m2. par_reach (map (session H g) [[(h0, OpAppend t d)], [(h1, OpRecover)]]) m
      (map Ret [[RAppend (Inr (r + 1))], [RRecover rep]]) m' \<and>
    run (read H rt (r + 1)) m' = Inr (Inr None, m2)"
proof -
  obtain rep m' where m': "par_reach (map (session H g) [[(h0, OpAppend t d)], [(h1, OpRecover)]]) m
      (map Ret [[RAppend (Inr (r + 1))], [RRecover rep]]) m'" "pool g m'"
    "tail_at (cache m') = unat r + 1"
    "l_slots (abs_log H g (cache m')) = (l_slots (abs_log H g (cache m)))[unat r := SAbandoned]"
    by (rule recovery_abandons_append [OF assms(1-7)])
  let ?L = "abs_log H g (cache m')"
  have rc: "unat r < cap g" using assms(2,6,7) by (simp add: settled_def)
  have r1: "unat (r + 1) = unat r + 1"
    using rc unat_u32_le [of "g_capacity g"] by (subst unat_add_lt64) simp_all
  then have "\<not> get64 (cache m') 32 < r + 1" "r + 1 \<noteq> 0"
    using m'(3) by (simp_all add: word_less_nat_alt word_unat_eq_iff)
  moreover have "l_slots ?L ! (unat (r + 1) - 1) = SAbandoned"
    unfolding m'(4) r1 using rc by simp
  ultimately have "read_spec (rt_host_id rt) (r + 1) ?L = (Inr None, ?L)"
    unfolding read_spec_def by simp
  moreover have "unat (l_tail ?L) \<le> cap g" using m'(3) rc by simp
  ultimately have "sim H g m' (read H rt (r + 1)) (Inr None, ?L)"
    using sim_read [OF m'(2) assms(8,9) refl, of H "r + 1"] by simp
  then show ?thesis using m'(1) by (auto simp: sim_def)
qed

theorem recovery_abandons_acknowledged_append_witness:
  "\<exists>rep m' m2. par_reach (map (session demo_hasher demo_geometry) [[(0, OpAppend 7 [1])], [(1, OpRecover)]])
      (demo_region zeros) (map Ret [[RAppend (Inr 1)], [RRecover rep]]) m' \<and>
    run (read demo_hasher demo_runtime 1) m' = Inr (Inr None, m2)"
  using recovery_abandons_acknowledged_append [OF demo_pool(1) _ _ _ _ _ refl, of demo_hasher zeros 0 1 "[1]" demo_runtime 7]
    demo_start(1) by simp

end
