(* ===== verification/Harness.thy ===== *)
theory Harness
  imports PowerLoss
begin

text \<open>
  The test harness, \<open>crates/fence-test-harness/src\<close>: the crash simulator (\<open>crash_sim.rs\<close>), the
  assertions on a pool (\<open>assertions.rs\<close>) and the temporary pools (\<open>pool.rs\<close>). A simulated crashed
  write is an abstract step on the log: a slot is reserved and stays in state WRITING.
\<close>

section \<open>CrashSim\<close>

text \<open>The flag is shared by the clones of a simulator, so a state of it is passed along.\<close>

record crash_sim =
  should_crash :: bool
  crash_point :: string

definition crash_sim_new :: "string \<Rightarrow> crash_sim" where
  "crash_sim_new point = \<lparr>should_crash = False, crash_point = point\<rparr>"

definition arm :: "crash_sim \<Rightarrow> crash_sim" where
  "arm cs = cs\<lparr>should_crash := True\<rparr>"

definition disarm :: "crash_sim \<Rightarrow> crash_sim" where
  "disarm cs = cs\<lparr>should_crash := False\<rparr>"

definition should_crash_at :: "crash_sim \<Rightarrow> string \<Rightarrow> bool" where
  "should_crash_at cs point = (if \<not> should_crash cs then False else crash_point cs = point)"

text \<open>\<open>maybe_crash\<close> checks and does nothing: it does not panic and returns no signal.\<close>

definition maybe_crash :: "crash_sim \<Rightarrow> string \<Rightarrow> unit" where
  "maybe_crash cs point = (if should_crash_at cs point then () else ())"

text \<open>The stores of a write that is never completed. There is no check of the capacity.\<close>

definition crashed_write :: "pool_geometry \<Rightarrow> u64 prog" where
  "crashed_write geometry =
     FetchAddU64 HDR_RESERVE_TAIL 1 AcqRel (\<lambda>slot.
     let rec_offset = record_offset geometry (ucast slot) in
     StoreU8 (rec_offset + REC_STATE) STATE_WRITING Release (
     StoreU64 (rec_offset + REC_TERM) 99 Relaxed (
     StoreU64 (rec_offset + REC_INDEX) (slot + 1) Relaxed (
     Ret slot))))"

definition simulate_crashed_write ::
    "os \<Rightarrow> u8 list \<Rightarrow> u32 \<Rightarrow> u32 \<Rightarrow> u16 \<Rightarrow> machine \<Rightarrow> fault + (u64 \<times> machine)" where
  "simulate_crashed_write S path capacity payload_size max_hosts w =
     (case geometry_new capacity payload_size max_hosts of
        Inl msg \<Rightarrow> Inl (Panic msg)
      | Inr geometry \<Rightarrow>
          (case mmap_backend_open S path (g_total_size geometry) w of
             (Inl e, w') \<Rightarrow> Inl (Panic ''failed to open backend for crash sim'')
           | (Inr backend, w') \<Rightarrow>
               (case run (crashed_write geometry) (mb_region backend) of
                  Inl flt \<Rightarrow> Inl flt
                | Inr (slot, m) \<Rightarrow> Inr (slot, mmap_backend_drop (backend\<lparr>mb_region := m\<rparr>) w'))))"

section \<open>Assertions\<close>

definition assert_record_state :: "pool_geometry \<Rightarrow> u32 \<Rightarrow> u8 \<Rightarrow> unit prog" where
  "assert_record_state geometry slot expected =
     (let rec_offset = record_offset geometry slot in
      LoadU8 (rec_offset + REC_STATE) Acquire (\<lambda>actual.
      if actual = expected then Ret ()
      else Fail (Panic (''slot '' @ show_word slot @ '': expected state '' @ show_word expected @
                        '', got '' @ show_word actual))))"

definition assert_committed_tail :: "u64 \<Rightarrow> unit prog" where
  "assert_committed_tail expected =
     LoadU64 HDR_COMMITTED_TAIL Acquire (\<lambda>actual.
     if actual = expected then Ret ()
     else Fail (Panic (''committed_tail: expected '' @ show_word expected @ '', got '' @ show_word actual)))"

definition assert_reserve_tail :: "u64 \<Rightarrow> unit prog" where
  "assert_reserve_tail expected =
     LoadU64 HDR_RESERVE_TAIL Acquire (\<lambda>actual.
     if actual = expected then Ret ()
     else Fail (Panic (''reserve_tail: expected '' @ show_word expected @ '', got '' @ show_word actual)))"

definition assert_valid_magic :: "unit prog" where
  "assert_valid_magic =
     LoadU64 HDR_MAGIC Relaxed (\<lambda>magic.
     if magic = MAGIC then Ret ()
     else Fail (Panic (''invalid magic: expected 0x'' @ show_hex16 MAGIC @ '', got 0x'' @ show_hex16 magic)))"

fun assert_committed_loop :: "pool_geometry \<Rightarrow> u32 list \<Rightarrow> unit prog" where
  "assert_committed_loop geometry [] = Ret ()"
| "assert_committed_loop geometry (slot # slots) =
     prog_bind (assert_record_state geometry slot STATE_COMMITTED) (\<lambda>_. assert_committed_loop geometry slots)"

definition assert_committed_range :: "pool_geometry \<Rightarrow> u32 \<Rightarrow> unit prog" where
  "assert_committed_range geometry cnt = assert_committed_loop geometry (word_range 0 cnt)"

section \<open>TempPool\<close>

text \<open>
  \<open>NamedTempFile\<close> is a third-party type: its \<open>new\<close> is a parameter that returns the path of the
  file it made, or refuses. A \<open>TempPool\<close> holds the runtime with its backend, and that path.
\<close>

record temp_pool_builder =
  tb_capacity :: u32
  tb_payload_size :: u32
  tb_max_hosts :: u16
  tb_host_id :: u16

definition builder_default :: temp_pool_builder where
  "builder_default = \<lparr>tb_capacity = 1024, tb_payload_size = 128, tb_max_hosts = 4, tb_host_id = 0\<rparr>"

definition builder_capacity :: "u32 \<Rightarrow> temp_pool_builder \<Rightarrow> temp_pool_builder" where
  "builder_capacity capacity self = self\<lparr>tb_capacity := capacity\<rparr>"

definition builder_payload_size :: "u32 \<Rightarrow> temp_pool_builder \<Rightarrow> temp_pool_builder" where
  "builder_payload_size payload_size self = self\<lparr>tb_payload_size := payload_size\<rparr>"

definition builder_max_hosts :: "u16 \<Rightarrow> temp_pool_builder \<Rightarrow> temp_pool_builder" where
  "builder_max_hosts max_hosts self = self\<lparr>tb_max_hosts := max_hosts\<rparr>"

definition builder_host_id :: "u16 \<Rightarrow> temp_pool_builder \<Rightarrow> temp_pool_builder" where
  "builder_host_id host_id self = self\<lparr>tb_host_id := host_id\<rparr>"

type_synonym temp_files = "machine \<Rightarrow> (u8 list \<times> machine) option"

record temp_pool =
  tp_runtime :: "fence_runtime \<times> mmap_backend"
  tp_tmp :: "u8 list"

definition builder_build ::
    "os \<Rightarrow> temp_files \<Rightarrow> temp_pool_builder \<Rightarrow> machine \<Rightarrow> fault + (temp_pool \<times> machine)" where
  "builder_build S tempfile self w =
     (case tempfile w of
        None \<Rightarrow> Inl (Panic ''failed to create temp file'')
      | Some (path, w1) \<Rightarrow>
          let config = \<lparr>pc_path = path, pc_capacity = tb_capacity self, pc_payload_size = tb_payload_size self,
                        pc_max_hosts = tb_max_hosts self, pc_host_id = tb_host_id self, pc_create = True\<rparr> in
          (case runtime_open S config w1 of
             Inl flt \<Rightarrow> Inl flt
           | Inr (Inl e, w2) \<Rightarrow> Inl (Panic ''failed to open pool'')
           | Inr (Inr runtime, w2) \<Rightarrow> Inr (\<lparr>tp_runtime = runtime, tp_tmp = path\<rparr>, w2)))"

definition temp_pool_new :: "os \<Rightarrow> temp_files \<Rightarrow> machine \<Rightarrow> fault + (temp_pool \<times> machine)" where
  "temp_pool_new S tempfile w = builder_build S tempfile builder_default w"

definition into_runtime :: "temp_pool \<Rightarrow> (fence_runtime \<times> mmap_backend) \<times> u8 list" where
  "into_runtime self = (tp_runtime self, tp_tmp self)"

section \<open>What a crashed write does to the log\<close>

definition crashed_spec :: "log \<Rightarrow> u64 \<times> log" where
  "crashed_spec L =
     (l_reserve L, L\<lparr>l_reserve := l_reserve L + 1, l_slots := (l_slots L)[unat (l_reserve L) := SWriting]\<rparr>)"

lemma sim_crashed_write:
  assumes "pool g m" "abs_log H g (cache m) = L" "unat (l_reserve L) < cap g"
  shows "sim H g m (crashed_write g) (crashed_spec L)"
proof -
  let ?r = "get64 (cache m) 40" and ?b = "rec_base g (unat (get64 (cache m) 40))"
  have r: "unat ?r < cap g" "l_reserve L = ?r" using assms(2,3) by auto
  have s: "unat (ucast ?r :: u32) = unat ?r"
    using r(1) unat_u32_lt [of "g_capacity g"] by (intro unat_ucast_u64_u32) linarith
  note ok = poolD(1) [OF assms(1)] and bd = pool_slot_bounds [OF assms(1) r(1)]
  let ?c1 = "put64 (cache m) 40 (?r + 1)"
  let ?c = "put64 (put64 (?c1(?b := STATE_WRITING)) (?b + 8) 99) (?b + 16) (?r + 1)"
  have run: "run (crashed_write g) m = Inr (?r, m\<lparr>cache := ?c\<rparr>)"
    using pool_header_bounds [OF assms(1)] bd
    by (simp add: crashed_write_def Let_def run_FetchAddU64 run_StoreU8 run_StoreU64
        unat_record_offset unat_record_offset_plus s mod_add_eq [symmetric])
  have slot: "abs_log H g ?c = (abs_log H g ?c1)\<lparr>l_slots := (l_slots (abs_log H g ?c1))[unat ?r := slot_view H g ?c (unat ?r)]\<rparr>"
    using bd by (intro abs_log_slot [OF ok r(1)] agree_off_put64 agree_off_upd agree_off_refl) (auto simp: rec_region_def)
  have "slot_view H g ?c (unat ?r) = SWriting"
    by (simp add: slot_view_def state_consts put64_out)
  then have "abs_log H g ?c = snd (crashed_spec L)"
    using slot by (simp add: abs_log_reserve [OF ok] crashed_spec_def assms(2) r(2))
  with run assms(1) r(2) show ?thesis by (simp add: sim_def crashed_spec_def)
qed

lemma crashed_write_magic:
  assumes "pool g m" "run (crashed_write g) m = Inr (x, m')" "unat (get64 (cache m) 40) < cap g"
  shows "get64 (cache m') 0 = get64 (cache m) 0"
proof -
  have "frame behind_header m m'"
  proof (rule run_frame [OF assms(2) _ poolD(4) [OF assms(1)]])
    show "writes_within behind_header (crashed_write g)"
      by (auto simp: crashed_write_def Let_def unat_record_offset unat_record_offset_plus
          intro: le_trans [OF _ rec_base_ge])
  qed
  then show ?thesis by (intro get64_cong) (auto simp: frame_def)
qed

section \<open>Crashed writers and the next recovery\<close>

definition crashed_log :: "nat \<Rightarrow> log \<Rightarrow> log" where
  "crashed_log k L = ((snd \<circ> crashed_spec) ^^ k) L"

text \<open>The log \<open>L\<close> with \<open>v\<close> in the \<open>k\<close> slots from the committed tail on.\<close>

definition gap_slots :: "pool_geometry \<Rightarrow> slot_view \<Rightarrow> nat \<Rightarrow> log \<Rightarrow> slot_view list" where
  "gap_slots g v k L =
     map (\<lambda>i. if unat (l_tail L) \<le> i \<and> i < unat (l_tail L) + k then v else l_slots L ! i) [0..<cap g]"

lemma length_gap_slots [simp]: "length (gap_slots g v k L) = cap g"
  by (simp add: gap_slots_def)

lemma crashed_log_view:
  assumes "settled g L" "unat (l_tail L) + k \<le> cap g"
  shows "l_slots (crashed_log k L) = gap_slots g SWriting k L" "l_tail (crashed_log k L) = l_tail L"
    "unat (l_reserve (crashed_log k L)) = unat (l_tail L) + k" "l_metrics (crashed_log k L) = l_metrics L"
proof -
  have L: "length (l_slots L) = cap g" "l_reserve L = l_tail L" using assms(1) by (simp_all add: settled_def log_inv_def)
  have "l_slots (crashed_log k L) = gap_slots g SWriting k L \<and> l_tail (crashed_log k L) = l_tail L \<and>
    unat (l_reserve (crashed_log k L)) = unat (l_tail L) + k \<and> l_metrics (crashed_log k L) = l_metrics L"
    using assms(2)
  proof (induction k)
    case 0
    have "gap_slots g SWriting 0 L = l_slots L" using L(1) by (intro nth_equalityI) (auto simp: gap_slots_def)
    then show ?case by (simp add: crashed_log_def L(2))
  next
    case (Suc k)
    let ?L = "crashed_log k L"
    have IH: "l_slots ?L = gap_slots g SWriting k L" "l_tail ?L = l_tail L" "l_metrics ?L = l_metrics L"
      "unat (l_reserve ?L) = unat (l_tail L) + k"
      using Suc by simp_all
    have step: "crashed_log (Suc k) L = snd (crashed_spec ?L)" by (simp add: crashed_log_def)
    have "unat (l_reserve ?L + 1) = Suc (unat (l_tail L) + k)"
      using IH(4) Suc.prems unat_u32_le [of "g_capacity g"] by (subst unat_add_lt64) simp_all
    moreover have "(gap_slots g SWriting k L)[unat (l_tail L) + k := SWriting] = gap_slots g SWriting (Suc k) L"
      using Suc.prems by (intro nth_equalityI) (auto simp: gap_slots_def nth_list_update)
    ultimately show ?case using IH by (simp add: step crashed_spec_def)
  qed
  then show "l_slots (crashed_log k L) = gap_slots g SWriting k L" "l_tail (crashed_log k L) = l_tail L"
    "unat (l_reserve (crashed_log k L)) = unat (l_tail L) + k" "l_metrics (crashed_log k L) = l_metrics L"
    by simp_all
qed

lemma gap_slots_simps:
  assumes "settled g L" "i < cap g"
  shows "unat (l_tail L) \<le> i \<Longrightarrow> gap_slots g v k L ! i = (if i < unat (l_tail L) + k then v else SFree)"
    "i < unat (l_tail L) \<Longrightarrow> gap_slots g v k L ! i = l_slots L ! i \<and> \<not> broken (l_slots L ! i)"
proof -
  show "unat (l_tail L) \<le> i \<Longrightarrow> gap_slots g v k L ! i = (if i < unat (l_tail L) + k then v else SFree)"
    using settled_free [OF assms(1) _ assms(2)] assms(2) by (simp add: gap_slots_def)
  show "i < unat (l_tail L) \<Longrightarrow> gap_slots g v k L ! i = l_slots L ! i \<and> \<not> broken (l_slots L ! i)"
    using log_invD(4) [of g L i] assms by (cases "l_slots L ! i") (auto simp: gap_slots_def settled_def)
qed

text \<open>No committed slot follows the committed tail.\<close>

lemma gap_tail:
  assumes "settled g L" "l_tail L' = l_tail L" "l_slots L' = gap_slots g v k L" "\<not> committed_state v"
  shows "tail_spec L' = l_tail L"
proof -
  have t: "unat (l_tail L) \<le> cap g" using assms(1) log_invD(3) unfolding settled_def by blast
  have "takeWhile committed_state (drop (unat (l_tail L)) (gap_slots g v k L)) = []"
  proof (cases "unat (l_tail L) < cap g")
    case True
    then show ?thesis
      using gap_slots_simps(1) [OF assms(1) True, of v k] assms(4)
      by (simp add: Cons_nth_drop_Suc [symmetric])
  qed simp
  then show ?thesis by (simp add: tail_spec_def assms(2,3))
qed

lemma gap_scan_limit:
  assumes "unat (l_reserve L') = unat (l_tail L) + k" "unat (l_tail L) + k \<le> cap g"
  shows "unat (scan_limit g L') = unat (l_tail L) + k"
  using assms by (simp add: scan_limit_def min_def word_le_nat_alt)

lemma gap_broken_count:
  assumes "settled g L" "l_slots L' = gap_slots g v k L" "unat (l_reserve L') = unat (l_tail L) + k"
    and "unat (l_tail L) + k \<le> cap g"
  shows "broken_count g L' = (if broken v then word_of_nat k else 0)"
proof -
  let ?t = "unat (l_tail L)" and ?xs = "take (unat (l_tail L) + k) (gap_slots g v k L)"
  note S = gap_slots_simps [OF assms(1)]
  have "?xs = take ?t (gap_slots g v k L) @ replicate k v"
    by (rule nth_equalityI) (use assms(4) S in \<open>auto simp: nth_append\<close>)
  moreover have "filter broken (take ?t (gap_slots g v k L)) = []"
    using S(2) assms(4) by (auto simp: filter_empty_conv in_set_conv_nth)
  ultimately have "length (filter broken ?xs) = (if broken v then k else 0)"
    by (simp add: filter_replicate)
  then show ?thesis by (simp add: broken_count_def gap_scan_limit [OF assms(3,4)] assms(2))
qed

lemma gap_repair:
  assumes "settled g L" "l_slots L' = gap_slots g v k L" "unat (l_reserve L') = unat (l_tail L) + k"
    and "unat (l_tail L) + k \<le> cap g" "l_tail L' = l_tail L" "\<not> committed_state v"
  shows "l_slots (repair g L') = gap_slots g (fix_slot v) k L" "l_tail (repair g L') = l_tail L"
    "l_reserve (repair g L') = l_reserve L'"
proof -
  note S = gap_slots_simps [OF assms(1)]
  have sweep: "sweep fix_slot (unat (l_tail L) + k) (gap_slots g v k L) = gap_slots g (fix_slot v) k L"
  proof (rule nth_equalityI)
    fix i assume "i < length (sweep fix_slot (unat (l_tail L) + k) (gap_slots g v k L))"
    then have i: "i < cap g" by simp
    show "sweep fix_slot (unat (l_tail L) + k) (gap_slots g v k L) ! i = gap_slots g (fix_slot v) k L ! i"
      using S(1) [OF i] S(2) [OF i] assms(4) i
      by (cases "i < unat (l_tail L)") (auto simp: nth_sweep fix_slot_simps)
  qed simp
  have sl: "l_slots (repair g L') = gap_slots g (fix_slot v) k L"
    by (simp add: repair_sel gap_scan_limit [OF assms(3,4)] assms(2) sweep)
  then show "l_slots (repair g L') = gap_slots g (fix_slot v) k L" .
  show "l_reserve (repair g L') = l_reserve L'" by (rule repair_sel)
  have "\<not> committed_state (fix_slot v)" using assms(6) by (cases v) (simp_all add: fix_slot_def)
  from gap_tail [OF assms(1) _ _ this, of "L'\<lparr>l_slots := gap_slots g (fix_slot v) k L\<rparr>" k] assms(5)
  show "l_tail (repair g L') = l_tail L"
    by (simp add: repair_def advance_spec_def gap_scan_limit [OF assms(3,4)] assms(2) sweep)
qed

section \<open>Pool files at rest\<close>

definition at_rest :: "'h hasher \<Rightarrow> pool_geometry \<Rightarrow> u8 list \<Rightarrow> log \<Rightarrow> machine \<Rightarrow> bool" where
  "at_rest H g path L w \<longleftrightarrow>
     (\<exists>f. files w path = Some f \<and> f_len f = unat (g_total_size g) \<and>
        abs_log H g (f_cache f) = L \<and> get64 (f_cache f) 0 = MAGIC)"

lemma at_rest_drop:
  assumes "in_use g path b w" "abs_log H g (cache (mb_region b)) = L" "get64 (cache (mb_region b)) 0 = MAGIC"
  shows "at_rest H g path L (mmap_backend_drop b w)"
proof -
  from assms(1) obtain f where f: "fds w (mb_fd b) = Some path" "files w path = Some f"
    "f_len f = unat (g_total_size g)"
    by (auto simp: in_use_def)
  then show ?thesis using assms(2,3) by (simp add: at_rest_def drop_files [OF f(1,2)])
qed

lemma at_rest_open:
  assumes "at_rest H g path L w" "geom_ok g" "page_mapped S"
    and "mmap_backend_open S path (g_total_size g) w = (Inr b, w')"
  shows "in_use g path b w'" "abs_log H g (cache (mb_region b)) = L" "get64 (cache (mb_region b)) 0 = MAGIC"
proof -
  from assms(1) obtain f where f: "files w path = Some f" "f_len f = unat (g_total_size g)"
    "abs_log H g (f_cache f) = L" "get64 (f_cache f) 0 = MAGIC"
    by (auto simp: at_rest_def)
  have tot: "64 \<le> unat (g_total_size g)" using assms(2) by (simp add: geom_ok_def geom_wf_def)
  have same: "cache (mb_region b) x = f_cache f x" if "x < unat (g_total_size g)" for x
    using open_ok(6) [OF assms(4)] f(1,2) that by (simp add: cut_def)
  show "in_use g path b w'"
    using open_ok(3,4) [OF assms(4)] open_pool [OF assms(4,3,2)] by (simp add: in_use_def)
  show "abs_log H g (cache (mb_region b)) = L"
    using abs_log_cong [OF assms(2), of "cache (mb_region b)" "f_cache f" H] same f(3) by simp
  have "get64 (cache (mb_region b)) 0 = get64 (f_cache f) 0"
    by (rule get64_cong) (use same tot in simp)
  then show "get64 (cache (mb_region b)) 0 = MAGIC" using f(4) by simp
qed

lemma at_rest_crashed_write:
  assumes "at_rest H g path L w" "geom_ok g" "page_mapped S" "unat (l_reserve L) < cap g"
    and "geometry_new c p h = Inr g" "simulate_crashed_write S path c p h w = Inr (slot, w')"
  shows "slot = l_reserve L \<and> at_rest H g path (snd (crashed_spec L)) w'"
proof -
  obtain b w1 m where b: "mmap_backend_open S path (g_total_size g) w = (Inr b, w1)"
    "run (crashed_write g) (mb_region b) = Inr (slot, m)" "w' = mmap_backend_drop (b\<lparr>mb_region := m\<rparr>) w1"
    using assms(5,6) by (auto simp: simulate_crashed_write_def split: sum.splits prod.splits)
  note o = at_rest_open [OF assms(1-3) b(1)]
  have p: "pool g (mb_region b)" using o(1) by (simp add: in_use_def)
  have m: "slot = l_reserve L" "pool g m" "abs_log H g (cache m) = snd (crashed_spec L)"
    using sim_crashed_write [OF p o(2) assms(4)] b(2) by (auto simp: sim_def crashed_spec_def)
  have "unat (get64 (cache (mb_region b)) 40) < cap g" using assms(4) o(2) by auto
  then have "get64 (cache m) 0 = MAGIC" using crashed_write_magic [OF p b(2)] o(3) by simp
  with at_rest_drop [OF in_use_region [OF o(1) m(2)], of H] m show ?thesis by (simp add: b(3))
qed

text \<open>A number of writers that crash, one after the other.\<close>

fun crashed_writers ::
    "os \<Rightarrow> u8 list \<Rightarrow> u32 \<Rightarrow> u32 \<Rightarrow> u16 \<Rightarrow> nat \<Rightarrow> machine \<Rightarrow> fault + (u64 list \<times> machine)" where
  "crashed_writers S path c p h 0 w = Inr ([], w)"
| "crashed_writers S path c p h (Suc k) w =
     (case crashed_writers S path c p h k w of
        Inl flt \<Rightarrow> Inl flt
      | Inr (slots, w1) \<Rightarrow>
          (case simulate_crashed_write S path c p h w1 of
             Inl flt \<Rightarrow> Inl flt
           | Inr (slot, w2) \<Rightarrow> Inr (slots @ [slot], w2)))"

lemma at_rest_crashed_writers:
  assumes "at_rest H g path L w" "geom_ok g" "page_mapped S" "settled g L" "unat (l_tail L) + k \<le> cap g"
    and "geometry_new c p h = Inr g" "crashed_writers S path c p h k w = Inr (slots, w')"
  shows "slots = map (\<lambda>i. word_of_nat (unat (l_tail L) + i)) [0..<k] \<and> at_rest H g path (crashed_log k L) w'"
  using assms(5,7)
proof (induction k arbitrary: slots w')
  case 0
  then show ?case using assms(1) by (simp add: crashed_log_def)
next
  case (Suc k)
  then obtain slots1 w1 slot where 1: "crashed_writers S path c p h k w = Inr (slots1, w1)"
    "simulate_crashed_write S path c p h w1 = Inr (slot, w')" "slots = slots1 @ [slot]"
    by (auto split: sum.splits)
  have k: "unat (l_tail L) + k \<le> cap g" using Suc.prems(1) by simp
  note IH = Suc.IH [OF k 1(1)] and V = crashed_log_view [OF assms(4) k]
  have "slot = l_reserve (crashed_log k L) \<and> at_rest H g path (snd (crashed_spec (crashed_log k L))) w'"
    by (rule at_rest_crashed_write [OF IH [THEN conjunct2] assms(2,3) _ assms(6) 1(2)]) (use V(3) Suc.prems in simp)
  moreover have "l_reserve (crashed_log k L) = word_of_nat (unat (l_tail L) + k)" by (simp add: V(3) [symmetric])
  ultimately show ?case using IH 1(3) by (simp add: crashed_log_def)
qed

end
