(* ===== verification/HarnessProps.thy ===== *)
theory HarnessProps
  imports Harness DurableProps
begin

text \<open>
  The properties of the test harness: what recovery makes of simulated crashed writes, how a
  temporary pool behaves, and when the assertions on a pool pass.
\<close>

section \<open>Recovery after crashed writers\<close>

lemma sim_result:
  assumes "sim H g m p (x, L)"
  obtains m' where "run p m = Inr (x, m')" "pool g m'" "abs_log H g (cache m') = L"
  using assms by (auto simp: sim_def)

text \<open>The log that recovery leaves, up to its counters.\<close>

definition recovered_gap :: "pool_geometry \<Rightarrow> nat \<Rightarrow> log \<Rightarrow> log \<Rightarrow> bool" where
  "recovered_gap g k L L' \<longleftrightarrow> l_slots L' = gap_slots g SAbandoned k L \<and> l_tail L' = l_tail L \<and>
     unat (l_reserve L') = unat (l_tail L) + k"

lemma recover_gap:
  assumes "settled g L" "unat (l_tail L) + k \<le> cap g" "l_slots L' = gap_slots g v k L"
    and "l_tail L' = l_tail L" "unat (l_reserve L') = unat (l_tail L) + k"
    and "v = SWriting \<or> v = SAbandoned"
    and "runtime_recover_spec g h L' = (rep, L2)"
  shows "rr_abandoned_count rep = (if v = SWriting then word_of_nat k else 0)"
    "rr_committed_tail rep = l_tail L" "recovered_gap g k L L2"
proof -
  have v: "\<not> committed_state v" "fix_slot v = SAbandoned" "broken v \<longleftrightarrow> v = SWriting"
    using assms(6) by (auto simp: fix_slot_def)
  note R = gap_repair [OF assms(1,3,5,2,4) v(1)] gap_broken_count [OF assms(1,3,5,2)]
  show "rr_abandoned_count rep = (if v = SWriting then word_of_nat k else 0)" "rr_committed_tail rep = l_tail L"
    "recovered_gap g k L L2"
    using assms(7) R v(2,3) assms(5)
    by (auto simp: runtime_recover_spec_def recover_spec_def Let_def recovered_gap_def split: if_splits)
qed

lemma run_recover_gap:
  assumes "pool g m" "rt_geometry rt = g" "unat (rt_host_id rt) < hosts g" "settled g L" "unat (l_tail L) + k \<le> cap g"
    and "l_slots (abs_log H g (cache m)) = gap_slots g v k L" "l_tail (abs_log H g (cache m)) = l_tail L"
    and "unat (l_reserve (abs_log H g (cache m))) = unat (l_tail L) + k" "v = SWriting \<or> v = SAbandoned"
  obtains rep m1 where "run (runtime_recover H rt) m = Inr (rep, m1)" "pool g m1"
    "rr_abandoned_count rep = (if v = SWriting then word_of_nat k else 0)"
    "rr_committed_tail rep = l_tail L" "recovered_gap g k L (abs_log H g (cache m1))"
proof -
  obtain rep L2 where s: "runtime_recover_spec g (rt_host_id rt) (abs_log H g (cache m)) = (rep, L2)" by fastforce
  have "sim H g m (runtime_recover H rt) (rep, L2)"
    using sim_runtime_recover [OF assms(1-3) refl, of H] by (simp only: s)
  then obtain m1 where m1: "run (runtime_recover H rt) m = Inr (rep, m1)" "pool g m1" "abs_log H g (cache m1) = L2"
    by (rule sim_result)
  note R = recover_gap [OF assms(4-9) s]
  show thesis by (rule that [OF m1(1,2) R(1,2)]) (simp only: m1(3) R(3))
qed

text \<open>What can be read in the recovered log.\<close>

lemma read_recovered:
  assumes "pool g m" "rt_geometry rt = g" "unat (rt_host_id rt) < hosts g" "settled g L" "unat (l_tail L) + k \<le> cap g"
    and "recovered_gap g k L (abs_log H g (cache m))"
  shows "i < unat (l_tail L) \<Longrightarrow> log_lookup L i = Some e \<Longrightarrow>
      \<exists>m'. run (read H rt (word_of_nat (i + 1))) m = Inr (Inr (Some e), m')"
    and "l_tail L < j \<Longrightarrow> \<exists>m'. run (read H rt j) m = Inr (Inl (IndexOutOfBounds j (l_tail L)), m')"
proof -
  let ?L = "abs_log H g (cache m)"
  have L: "l_slots ?L = gap_slots g SAbandoned k L" "l_tail ?L = l_tail L"
    using assms(6) by (simp_all only: recovered_gap_def)
  have t: "unat (l_tail L) \<le> cap g" using assms(5) by simp
  note R = sim_read [OF assms(1-3) refl, of H, unfolded L(2), OF t]
  show "\<exists>m'. run (read H rt j) m = Inr (Inl (IndexOutOfBounds j (l_tail L)), m')" if "l_tail L < j"
  proof -
    have r: "read_spec (rt_host_id rt) j ?L = (Inl (IndexOutOfBounds j (l_tail L)), ?L)"
      using that by (simp only: read_spec_def L(2) simp_thms if_True)
    then show ?thesis using sim_result [OF R [of j, unfolded r]] by blast
  qed
  show "\<exists>m'. run (read H rt (word_of_nat (i + 1))) m = Inr (Inr (Some e), m')"
    if "i < unat (l_tail L)" "log_lookup L i = Some e"
  proof -
    let ?j = "word_of_nat (i + 1) :: u64"
    have j: "unat ?j = Suc i"
      using that(1) unat_u64_le [of "l_tail L"] by (simp add: unsigned_of_nat take_bit_nat_eq_self del: of_nat_Suc)
    have "l_slots L ! i = SCommitted e"
      using that(2) by (simp add: log_lookup_def split: slot_view.splits)
    then have "l_slots ?L ! (unat ?j - 1) = SCommitted e"
      using gap_slots_simps(2) [OF assms(4), of i SAbandoned k] that(1) t by (simp only: L(1) j) simp
    moreover have "?j \<noteq> 0" "\<not> l_tail L < ?j" using j that(1) by (auto simp: word_less_nat_alt simp del: of_nat_Suc of_nat_add)
    ultimately have "fst (read_spec (rt_host_id rt) ?j ?L) = Inr (Some e)"
      by (simp add: read_spec_def L(2) del: abs_log_sel of_nat_Suc of_nat_add)
    then obtain L2 where r: "read_spec (rt_host_id rt) ?j ?L = (Inr (Some e), L2)" by (metis prod.collapse)
    show ?thesis using sim_result [OF R [of ?j, unfolded r]] by blast
  qed
qed

text \<open>What is appended behind the gap.\<close>

lemma append_recovered:
  assumes "pool g m" "rt_geometry rt = g" "unat (rt_host_id rt) < hosts g" "settled g L" "unat (l_tail L) + k < cap g"
    and "recovered_gap g k L (abs_log H g (cache m))" "0 < k" "length d \<le> psz g"
  shows "\<exists>m'. run (append H rt term d) m = Inr (Inr (word_of_nat (unat (l_tail L) + k + 1)), m') \<and>
    run committed_tail m' = Inr (l_tail L, m')"
proof -
  let ?L = "abs_log H g (cache m)" and ?t = "unat (l_tail L)" and ?h = "rt_host_id rt"
  have L: "l_slots ?L = gap_slots g SAbandoned k L" "l_tail ?L = l_tail L" "unat (l_reserve ?L) = ?t + k"
    using assms(6) by (simp_all only: recovered_gap_def)
  let ?e = "SCommitted \<lparr>r_index = l_reserve ?L + 1, r_term = term, r_writer_id = ucast ?h, r_data = d\<rparr>"
  let ?L1 = "?L\<lparr>l_slots := (gap_slots g SAbandoned k L)[?t + k := ?e], l_reserve := l_reserve ?L + 1\<rparr>"
  have "(gap_slots g SAbandoned k L)[?t + k := ?e] ! ?t = SAbandoned"
    using gap_slots_simps(1) [OF assms(4), of ?t SAbandoned k] assms(5,7) by simp
  then have "takeWhile committed_state (drop ?t ((gap_slots g SAbandoned k L)[?t + k := ?e])) = []"
    using assms(5) by (intro takeWhile_drop_Nil) simp_all
  then have tail: "tail_spec ?L1 = l_tail L"
    by (simp add: tail_spec_def L(2) del: abs_log_sel)
  have "append_spec g ?h term d ?L = (Inr (l_reserve ?L + 1),
      bump ?h 2 (word_of_nat (length d)) (bump ?h 0 1 (advance_spec ?L1)))"
    using assms(5,8) by (simp add: append_spec_def Let_def L(1,3) del: abs_log_sel)
  from sim_append [OF assms(1-3), of H "term" d, unfolded this] obtain m' where
    m': "run (append H rt term d) m = Inr (Inr (l_reserve ?L + 1), m')" "pool g m'"
      "abs_log H g (cache m') = bump ?h 2 (word_of_nat (length d)) (bump ?h 0 1 (advance_spec ?L1))"
    by (rule sim_result)
  have "l_tail (abs_log H g (cache m')) = l_tail L"
    by (simp add: m'(3) advance_spec_def tail del: abs_log_sel)
  then have "run committed_tail m' = Inr (l_tail L, m')"
    by (simp add: committed_tail_def run_load_header [OF m'(2)])
  moreover have "l_reserve ?L + 1 = word_of_nat (?t + k + 1)"
    by (simp add: L(3) [symmetric] del: abs_log_sel)
  ultimately show ?thesis using m'(1) by simp
qed

text \<open>A pool created in a new or an empty file, and what a batch of appends makes of it.\<close>

lemma created_settled:
  assumes "geometry_new (pc_capacity config) (pc_payload_size config) (pc_max_hosts config) = Inr g"
    and "geom_ok g" "page_mapped S" "pc_create config" "\<forall>f. files w (pc_path config) = Some f \<longrightarrow> f_len f = 0"
    and "runtime_open S config w = Inr (Inr (rt, b), w1)"
  shows "settled g (abs_log H g (cache (mb_region b)))" "l_tail (abs_log H g (cache (mb_region b))) = 0"
proof -
  from created_in_use(5) [OF assms(1-4,6)] obtain b0 where
    b0: "mmap_backend_open S (pc_path config) (g_total_size g) w = (Inr b0, w1)"
      "cache (mb_region b) = fresh_header config g (cache (mb_region b0))"
    by fastforce
  have zero: "cache (mb_region b0) = (\<lambda>_. 0)"
    using open_ok(6) [OF b0(1)] assms(5) by (auto simp: cut_def fun_eq_iff split: option.splits)
  have "log_inv g (abs_log H g (cache (mb_region b)))"
    unfolding b0(2) by (rule fresh_log_inv [OF assms(2)]) (simp add: zero)
  then show "settled g (abs_log H g (cache (mb_region b)))" "l_tail (abs_log H g (cache (mb_region b))) = 0"
    by (simp_all add: settled_def b0(2) fresh_header_fields)
qed

lemma batch_settled:
  assumes "pool g m" "settled g (abs_log H g (cache m))" "l_tail (abs_log H g (cache m)) = 0"
    and "list_all (entry_fits g) as" "list_all (\<lambda>(h, _). unat h < hosts g) as" "length as \<le> cap g"
  obtains m' where "run (session H g (map append_op as)) m =
      Inr (map (\<lambda>i. RAppend (Inr (word_of_nat (i + 1)))) [0..<length as], m')"
    "pool g m'" "settled g (abs_log H g (cache m'))" "unat (l_tail (abs_log H g (cache m'))) = length as"
    "\<And>i. i < length as \<Longrightarrow> log_lookup (abs_log H g (cache m')) i = Some (entry_record (as ! i) i)"
    "get64 (cache m') 0 = get64 (cache m) 0"
proof -
  let ?L = "abs_log H g (cache m)"
  have fit: "unat (l_tail ?L) + length as \<le> cap g" using assms(3,6) by (simp only: unsigned_0 add_0)
  have ok: "session_ok g (map append_op as)" using assms(5) by (auto simp: session_ok_def list_all_iff)
  have inv: "log_inv g ?L" using assms(2) by (simp add: settled_def)
  have spec: "session_spec g (map append_op as) ?L =
      (map (\<lambda>i. RAppend (Inr (word_of_nat (i + 1)))) [0..<length as], fold (log_add g) as ?L)"
    using session_appends [OF assms(2,4) fit] by (simp only: assms(3) unsigned_0 add_0)
  from sim_session [OF assms(1) refl inv ok, unfolded spec] obtain m' where
    m': "run (session H g (map append_op as)) m = Inr (map (\<lambda>i. RAppend (Inr (word_of_nat (i + 1)))) [0..<length as], m')"
      "pool g m'" "abs_log H g (cache m') = fold (log_add g) as ?L"
    by (rule sim_result)
  have add: "settled g (fold (log_add g) as ?L)" "unat (l_tail (fold (log_add g) as ?L)) = length as"
    using log_store.add_all_inv [OF assms(2,4) fit] by (simp_all only: assms(3) unsigned_0 add_0)
  have new: "log_lookup (fold (log_add g) as ?L) i = Some (entry_record (as ! i) i)" if "i < length as" for i
    using log_store.add_all_new [OF assms(2,4) fit that] by (simp only: assms(3) unsigned_0 add_0)
  show thesis
    by (rule that [OF m'(1,2)])
      (simp_all only: m'(3) add new session_magic [OF m'(1) poolD(4) [OF assms(1)]])
qed

section \<open>Assertions\<close>

lemma run_assert_record_state:
  assumes "pool g m" "unat s < cap g"
  shows "run (assert_record_state g s v) m = Inr ((), m) \<longleftrightarrow> cache m (rec_base g (unat s)) = v"
  by (simp add: assert_record_state_def Let_def run_load_state [OF assms])

text \<open>\<open>assert_committed_range\<close> passes exactly when the slots below the bound are committed.\<close>

theorem assert_committed_range_iff:
  assumes "pool g m" "unat cnt \<le> cap g"
  shows "run (assert_committed_range g cnt) m = Inr ((), m) \<longleftrightarrow>
    (\<forall>s<unat cnt. committed_state (l_slots (abs_log H g (cache m)) ! s))"
proof -
  have loop: "run (assert_committed_loop g xs) m = Inr ((), m) \<longleftrightarrow>
      (\<forall>s\<in>set xs. cache m (rec_base g (unat s)) = STATE_COMMITTED)" if "\<forall>s\<in>set xs. unat s < cap g" for xs
    using that
  proof (induction xs)
    case (Cons x xs)
    then have "unat x < cap g" by simp
    note st = run_assert_record_state [OF assms(1) this, of STATE_COMMITTED]
    show ?case
    proof (cases "cache m (rec_base g (unat x)) = STATE_COMMITTED")
      case True
      with Cons st show ?thesis by (simp add: run_bindI)
    next
      case False
      then have "\<exists>e. run (assert_record_state g x STATE_COMMITTED) m = Inl e"
        by (simp add: assert_record_state_def Let_def run_load_state [OF assms(1) \<open>unat x < cap g\<close>])
      with False show ?thesis by (auto simp: run_bind)
    qed
  qed simp
  have set: "unat ` set (word_range 0 cnt) = {0..<unat cnt}"
    using map_unat_word_range [of "0 :: u32" cnt] by (metis set_map set_upt unsigned_0)
  have "\<forall>i\<in>unat ` set (word_range 0 cnt). i < cap g" unfolding set using assms(2) by simp
  then have "\<forall>s\<in>set (word_range 0 cnt). unat s < cap g" by simp
  from loop [OF this] have "run (assert_committed_range g cnt) m = Inr ((), m) \<longleftrightarrow>
      (\<forall>i\<in>unat ` set (word_range 0 cnt). cache m (rec_base g i) = STATE_COMMITTED)"
    by (simp add: assert_committed_range_def)
  then show ?thesis unfolding set using assms(2) by auto
qed

text \<open>The records of the batch pass the assertion after the recovery.\<close>

lemma recovered_committed:
  assumes "pool g m" "settled g L" "unat (l_tail L) + k \<le> cap g" "recovered_gap g k L (abs_log H g (cache m))"
    and "\<And>i. i < unat (l_tail L) \<Longrightarrow> log_lookup L i \<noteq> None"
  shows "run (assert_committed_range g (word_of_nat (unat (l_tail L)))) m = Inr ((), m)"
proof -
  have t: "unat (word_of_nat (unat (l_tail L)) :: u32) = unat (l_tail L)"
  proof -
    have "unat (l_tail L) < 4294967296" using assms(3) unat_u32_lt [of "g_capacity g"] by linarith
    then show ?thesis by (simp add: unat_ucast_u64_u32)
  qed
  have sl: "l_slots (abs_log H g (cache m)) = gap_slots g SAbandoned k L"
    using assms(4) by (simp only: recovered_gap_def)
  have "committed_state (l_slots (abs_log H g (cache m)) ! s)" if "s < unat (l_tail L)" for s
  proof -
    have eq: "l_slots (abs_log H g (cache m)) ! s = l_slots L ! s"
      using gap_slots_simps(2) [OF assms(2) _ that] that assms(3) by (simp only: sl)
    show ?thesis
      using assms(5) [OF that] unfolding eq by (cases "l_slots L ! s") (simp_all add: log_lookup_def)
  qed
  then have "\<forall>s<unat (word_of_nat (unat (l_tail L)) :: u32). committed_state (l_slots (abs_log H g (cache m)) ! s)"
    unfolding t by blast
  moreover have "unat (word_of_nat (unat (l_tail L)) :: u32) \<le> cap g" unfolding t using assms(3) by simp
  ultimately show ?thesis by (intro assert_committed_range_iff [where H = H, THEN iffD2, OF assms(1)])
qed

section \<open>Crashed writers\<close>

text \<open>
  C13: a pool is created in a new or empty file and hosts append a batch; then \<open>k\<close> writers crash,
  each leaving a reserved slot in state WRITING. The next host that opens the file and recovers
  finds exactly those \<open>k\<close> slots, the committed tail stays at the batch, every record of the batch
  is read back and no index behind it can be read; a second recovery finds nothing; and the
  next append succeeds behind the gap without moving the committed tail.
\<close>
theorem crashed_writers_recovered:
  assumes "geometry_new (pc_capacity config) (pc_payload_size config) (pc_max_hosts config) = Inr g"
    and "geom_ok g" "page_mapped S" "pc_create config" "\<forall>f. files w (pc_path config) = Some f \<longrightarrow> f_len f = 0"
    and "runtime_open S config w = Inr (Inr (rt, b), w1)"
    and "list_all (entry_fits g) as" "list_all (\<lambda>(h, _). unat h < hosts g) as" "length as + k \<le> cap g"
    and "run (session H g (map append_op as)) (mb_region b) = Inr (rs, m)"
    and "crashed_writers S (pc_path config) (pc_capacity config) (pc_payload_size config) (pc_max_hosts config) k
      (runtime_drop (rt, b\<lparr>mb_region := m\<rparr>) w1) = Inr (slots, w2)"
    and "runtime_open S (config\<lparr>pc_create := False, pc_host_id := h\<rparr>) w2 = Inr (Inr (rt', b'), w3)" "unat h < hosts g"
  shows "slots = map (\<lambda>i. word_of_nat (length as + i)) [0..<k] \<and>
    (\<exists>rep m1. run (runtime_recover H rt') (mb_region b') = Inr (rep, m1) \<and>
      rr_abandoned_count rep = word_of_nat k \<and> rr_committed_tail rep = word_of_nat (length as) \<and>
      run (assert_committed_range g (word_of_nat (length as))) m1 = Inr ((), m1) \<and>
      (\<forall>i<length as. \<exists>m2. run (read H rt' (word_of_nat (i + 1))) m1 = Inr (Inr (Some (entry_record (as ! i) i)), m2)) \<and>
      (\<forall>j. length as < unat j \<longrightarrow>
         (\<exists>m2. run (read H rt' j) m1 = Inr (Inl (IndexOutOfBounds j (word_of_nat (length as))), m2))) \<and>
      (\<exists>rep2 m2. run (runtime_recover H rt') m1 = Inr (rep2, m2) \<and>
         rr_abandoned_count rep2 = 0 \<and> rr_committed_tail rep2 = word_of_nat (length as)) \<and>
      (\<forall>term d. 0 < k \<longrightarrow> length as + k < cap g \<longrightarrow> length d \<le> psz g \<longrightarrow>
         (\<exists>m2. run (append H rt' term d) m1 = Inr (Inr (word_of_nat (length as + k + 1)), m2) \<and>
            run committed_tail m2 = Inr (word_of_nat (length as), m2))))"
proof -
  note cr = created_in_use [OF assms(1-4,6)]
  have p: "pool g (mb_region b)" using cr(2) by (simp add: in_use_def)
  have len: "length as \<le> cap g" using assms(9) by simp
  obtain m' where m': "run (session H g (map append_op as)) (mb_region b) =
      Inr (map (\<lambda>i. RAppend (Inr (word_of_nat (i + 1)))) [0..<length as], m')"
    "pool g m'" "settled g (abs_log H g (cache m'))" "unat (l_tail (abs_log H g (cache m'))) = length as"
    "\<And>i. i < length as \<Longrightarrow> log_lookup (abs_log H g (cache m')) i = Some (entry_record (as ! i) i)"
    "get64 (cache m') 0 = get64 (cache (mb_region b)) 0"
    by (rule batch_settled [OF p created_settled [OF assms(1-6)] assms(7,8) len]) blast
  define L where "L = abs_log H g (cache m)"
  have "m' = m" using m'(1) assms(10) by simp
  then have m: "pool g m" "settled g L" "unat (l_tail L) = length as" "get64 (cache m) 0 = MAGIC"
    "\<And>i. i < length as \<Longrightarrow> log_lookup L i = Some (entry_record (as ! i) i)"
    using m'(2-6) cr(3) by (simp_all only: L_def)
  have t: "l_tail L = word_of_nat (length as)" by (simp add: m(3) [symmetric])
  have fit: "unat (l_tail L) + k \<le> cap g" using assms(9) m(3) by simp
  have rest: "at_rest H g (pc_path config) L (runtime_drop (rt, b\<lparr>mb_region := m\<rparr>) w1)"
    using at_rest_drop [OF in_use_region [OF cr(2) m(1)], of H L] m(4) by (simp add: L_def runtime_drop_def)
  note W = at_rest_crashed_writers [OF rest assms(2,3) m(2) fit assms(1,11), unfolded m(3)]
  note V = crashed_log_view [OF m(2) fit]
  have c2: "geometry_new (pc_capacity (config\<lparr>pc_create := False, pc_host_id := h\<rparr>))
      (pc_payload_size (config\<lparr>pc_create := False, pc_host_id := h\<rparr>))
      (pc_max_hosts (config\<lparr>pc_create := False, pc_host_id := h\<rparr>)) = Inr g"
    using assms(1) by simp
  obtain x w' where x: "mmap_backend_open S (pc_path config) (g_total_size g) w2 = (x, w')" by fastforce
  then have o: "x = Inr b'" "w' = w3" "rt' = \<lparr>rt_geometry = g, rt_host_id = h\<rparr>"
    using assms(12) runtime_open_cases [OF c2 assms(2,3), of w2] by (auto split: sum.splits if_splits)
  note O = at_rest_open [OF W [THEN conjunct2] assms(2,3) x [unfolded o(1,2)]]
  have rt: "rt_geometry rt' = g" "unat (rt_host_id rt') < hosts g" using o(3) assms(13) by simp_all
  have p': "pool g (mb_region b')" using O(1) by (simp add: in_use_def)
  obtain rep m1 where r1: "run (runtime_recover H rt') (mb_region b') = Inr (rep, m1)" "pool g m1"
    "rr_abandoned_count rep = word_of_nat k" "rr_committed_tail rep = l_tail L"
    "recovered_gap g k L (abs_log H g (cache m1))"
    by (rule run_recover_gap [OF p' rt m(2) fit V(1,2,3) [folded O(2)]]) simp_all
  obtain rep2 m2 where r2: "run (runtime_recover H rt') m1 = Inr (rep2, m2)"
    "rr_abandoned_count rep2 = 0" "rr_committed_tail rep2 = l_tail L"
    by (rule run_recover_gap [where H = H and v = SAbandoned, OF r1(2) rt m(2) fit])
      (use r1(5) in \<open>simp_all only: recovered_gap_def slot_view.distinct simp_thms if_False\<close>)
  have rd: "\<exists>m2. run (read H rt' (word_of_nat (i + 1))) m1 = Inr (Inr (Some (entry_record (as ! i) i)), m2)"
    if "i < length as" for i
    by (rule read_recovered(1) [OF r1(2) rt m(2) fit r1(5) _ m(5) [OF that]]) (simp only: m(3) that)
  have oob: "\<exists>m2. run (read H rt' j) m1 = Inr (Inl (IndexOutOfBounds j (l_tail L)), m2)" if "length as < unat j" for j
    by (rule read_recovered(2) [OF r1(2) rt m(2) fit r1(5)]) (simp only: word_less_nat_alt m(3) that)
  have ap: "\<exists>m2. run (append H rt' term d) m1 = Inr (Inr (word_of_nat (length as + k + 1)), m2) \<and>
      run committed_tail m2 = Inr (l_tail L, m2)" if "0 < k" "length as + k < cap g" "length d \<le> psz g" for "term" d
    using append_recovered [OF r1(2) rt m(2) _ r1(5) that(1,3), of "term"] that(2) unfolding m(3) .
  have com: "run (assert_committed_range g (word_of_nat (length as))) m1 = Inr ((), m1)"
    by (rule recovered_committed [OF r1(2) m(2) fit r1(5), unfolded m(3)]) (simp add: m(5))
  show ?thesis
    using W [THEN conjunct1] r1(1,3,4) com rd oob r2 ap unfolding t by blast
qed

text \<open>On the machine of theory SystemProps opening is never refused.\<close>

lemma demo_crashed_write:
  assumes "at_rest demo_hasher demo_geometry (str ''/p'') L w" "fds w 3 = None" "unat (l_reserve L) < 4"
  obtains w' where "simulate_crashed_write demo_os (str ''/p'') 4 16 2 w = Inr (l_reserve L, w')" "fds w' 3 = None"
proof -
  obtain b where b: "mmap_backend_open demo_os (str ''/p'') (g_total_size demo_geometry) w =
      (Inr b, set_file 3 (resize 512) (do_open (str ''/p'') 3 w))" "mb_fd b = 3"
    using demo_open [OF assms(2)] by auto
  note O = at_rest_open [OF assms(1) demo_pool(3) demo_os_ok(1) b(1)]
  have p: "pool demo_geometry (mb_region b)" using O(1) by (simp add: in_use_def)
  obtain m where m: "run (crashed_write demo_geometry) (mb_region b) = Inr (l_reserve L, m)"
    using sim_crashed_write [OF p O(2)] assms(3) by (auto simp: sim_def crashed_spec_def)
  show thesis
    by (rule that, simp only: simulate_crashed_write_def demo_geometry_new sum.case b(1) prod.case m)
      (simp add: b(2))
qed

lemma demo_reopen:
  assumes "at_rest demo_hasher demo_geometry (str ''/p'') L w" "fds w 3 = None"
  obtains b w' where "runtime_open demo_os (demo_config False) w = Inr (Inr (demo_runtime, b), w')"
proof -
  obtain b where b: "mmap_backend_open demo_os (str ''/p'') (g_total_size demo_geometry) w =
      (Inr b, set_file 3 (resize 512) (do_open (str ''/p'') 3 w))"
    using demo_open [OF assms(2)] by auto
  note O = at_rest_open [OF assms(1) demo_pool(3) demo_os_ok(1) b]
  have g: "geometry_new (pc_capacity (demo_config False)) (pc_payload_size (demo_config False))
      (pc_max_hosts (demo_config False)) = Inr demo_geometry"
    using demo_geometry_new by (simp add: demo_config_def)
  have path: "pc_path (demo_config False) = str ''/p''" "\<not> pc_create (demo_config False)" "pc_host_id (demo_config False) = 0"
    by (simp_all add: demo_config_def str_def)
  show thesis
    by (rule that)
      (use O(3) in \<open>simp add: runtime_open_cases [OF g demo_pool(3) demo_os_ok(1)] path b demo_runtime_def del: demo_sel\<close>)
qed

theorem crashed_writers_recovered_witness:
  "\<exists>b w1 rs m w2 b' w3 rep m1. runtime_open demo_os (demo_config True) demo_machine = Inr (Inr (demo_runtime, b), w1) \<and>
     run (session demo_hasher demo_geometry [append_op (1, 8, [3])]) (mb_region b) = Inr (rs, m) \<and>
     crashed_writers demo_os (str ''/p'') 4 16 2 1 (runtime_drop (demo_runtime, b\<lparr>mb_region := m\<rparr>) w1) = Inr ([1], w2) \<and>
     runtime_open demo_os (demo_config False) w2 = Inr (Inr (demo_runtime, b'), w3) \<and>
     run (runtime_recover demo_hasher demo_runtime) (mb_region b') = Inr (rep, m1) \<and>
     rr_abandoned_count rep = 1 \<and> rr_committed_tail rep = 1"
proof -
  let ?H = demo_hasher and ?g = demo_geometry and ?c = "demo_config True" and ?as = "[(1, 8, [3])] :: entry list"
  obtain b w1 where b: "runtime_open demo_os ?c demo_machine = Inr (Inr (demo_runtime, b), w1)"
    "pool ?g (mb_region b)" "\<forall>m. fds (runtime_drop (demo_runtime, b\<lparr>mb_region := m\<rparr>) w1) 3 = None"
    by (rule demo_created)
  have c: "geometry_new (pc_capacity ?c) (pc_payload_size ?c) (pc_max_hosts ?c) = Inr ?g" "pc_create ?c"
    "\<forall>f. files demo_machine (pc_path ?c) = Some f \<longrightarrow> f_len f = 0" "pc_path ?c = str ''/p''"
    "pc_capacity ?c = 4" "pc_payload_size ?c = 16" "pc_max_hosts ?c = 2"
    "?c\<lparr>pc_create := False, pc_host_id := 0\<rparr> = demo_config False"
    using demo_geometry_new by (simp_all add: demo_config_def demo_machine_def str_def)
  note cr = created_in_use [OF c(1) demo_pool(3) demo_os_ok(1) c(2) b(1)]
  have as: "list_all (entry_fits ?g) ?as" "list_all (\<lambda>(h, _). unat h < hosts ?g) ?as" "length ?as + 1 \<le> cap ?g"
    by simp_all
  obtain m where m: "run (session ?H ?g (map append_op ?as)) (mb_region b) =
      Inr (map (\<lambda>i. RAppend (Inr (word_of_nat (i + 1)))) [0..<length ?as], m)" "pool ?g m"
    "settled ?g (abs_log ?H ?g (cache m))" "unat (l_tail (abs_log ?H ?g (cache m))) = length ?as"
    "get64 (cache m) 0 = get64 (cache (mb_region b)) 0"
    by (rule batch_settled [OF b(2) created_settled [OF c(1) demo_pool(3) demo_os_ok(1) c(2,3) b(1)] as(1,2)]) simp_all
  define L where "L = abs_log ?H ?g (cache m)"
  have r: "l_reserve L = 1"
    using m(3,4) by (simp add: settled_def L_def word_unat_eq_iff)
  have rest: "at_rest ?H ?g (str ''/p'') L (runtime_drop (demo_runtime, b\<lparr>mb_region := m\<rparr>) w1)"
    using at_rest_drop [OF in_use_region [OF cr(2) m(2)], of ?H L] m(5) cr(3) by (simp add: L_def runtime_drop_def c(4))
  obtain w2 where w2: "simulate_crashed_write demo_os (str ''/p'') 4 16 2
      (runtime_drop (demo_runtime, b\<lparr>mb_region := m\<rparr>) w1) = Inr (1, w2)" "fds w2 3 = None"
    using demo_crashed_write [OF rest b(3) [rule_format]] r by auto
  then have cw: "crashed_writers demo_os (str ''/p'') 4 16 2 1
      (runtime_drop (demo_runtime, b\<lparr>mb_region := m\<rparr>) w1) = Inr ([1], w2)" by simp
  have "at_rest ?H ?g (str ''/p'') (snd (crashed_spec L)) w2"
    using at_rest_crashed_write [OF rest demo_pool(3) demo_os_ok(1) _ demo_geometry_new w2(1)] r by simp
  then obtain b' w3 where o: "runtime_open demo_os (demo_config False) w2 = Inr (Inr (demo_runtime, b'), w3)"
    by (rule demo_reopen [OF _ w2(2)])
  from crashed_writers_recovered [OF c(1) demo_pool(3) demo_os_ok(1) c(2,3) b(1) as m(1), of "[1]" w2 0 demo_runtime b' w3]
  show ?thesis using b(1) m(1) cw o by (auto simp: c(4-8))
qed

section \<open>Temporary pools\<close>

text \<open>
  a temporary pool takes exactly as many records as its builder asked for: on a fresh file
  that many appends, by any hosts, return the indices from one on, and the next one is refused.
\<close>
theorem temp_pool_fills:
  assumes "geometry_new (tb_capacity bld) (tb_payload_size bld) (tb_max_hosts bld) = Inr g" "geom_ok g" "page_mapped S"
    and "tempfile w = Some (path, w0)" "\<forall>f. files w0 path = Some f \<longrightarrow> f_len f = 0"
    and "builder_build S tempfile bld w = Inr (tp, w1)" "unat (tb_host_id bld) < hosts g"
    and "list_all (entry_fits g) as" "list_all (\<lambda>(h, _). unat h < hosts g) as" "length as = cap g" "length d \<le> psz g"
  shows "\<exists>m m'. run (session H g (map append_op as)) (mb_region (snd (tp_runtime tp))) =
      Inr (map (\<lambda>i. RAppend (Inr (word_of_nat (i + 1)))) [0..<cap g], m) \<and>
    run (append H (fst (tp_runtime tp)) term d) m = Inr (Inl (PoolFull (g_capacity g) (ucast (g_capacity g))), m')"
proof -
  let ?c = "\<lparr>pc_path = path, pc_capacity = tb_capacity bld, pc_payload_size = tb_payload_size bld,
    pc_max_hosts = tb_max_hosts bld, pc_host_id = tb_host_id bld, pc_create = True\<rparr>"
  obtain rt b where o: "runtime_open S ?c w0 = Inr (Inr (rt, b), w1)" "tp_runtime tp = (rt, b)"
    using assms(4,6) by (auto simp: builder_build_def split: sum.splits)
  have c: "geometry_new (pc_capacity ?c) (pc_payload_size ?c) (pc_max_hosts ?c) = Inr g" "pc_create ?c"
    "\<forall>f. files w0 (pc_path ?c) = Some f \<longrightarrow> f_len f = 0"
    using assms(1,5) by simp_all
  note cr = created_in_use [OF c(1) assms(2,3) c(2) o(1)] and st = created_settled [OF c(1) assms(2,3) c(2,3) o(1)]
  have p: "pool g (mb_region b)" using cr(2) by (simp add: in_use_def)
  have rt: "rt_geometry rt = g" "unat (rt_host_id rt) < hosts g" using cr(1) assms(7) by simp_all
  have len: "length as \<le> cap g" using assms(10) by simp
  obtain m where m: "run (session H g (map append_op as)) (mb_region b) =
      Inr (map (\<lambda>i. RAppend (Inr (word_of_nat (i + 1)))) [0..<length as], m)"
    "pool g m" "settled g (abs_log H g (cache m))" "unat (l_tail (abs_log H g (cache m))) = length as"
    by (rule batch_settled [OF p st assms(8,9) len])
  let ?L = "abs_log H g (cache m)"
  have r: "l_reserve ?L = l_tail ?L" "length (l_slots ?L) = cap g"
    using m(3) by (simp_all add: settled_def)
  have "unat (l_reserve ?L) = unat (ucast (g_capacity g) :: u64)" unfolding r(1) m(4) assms(10) by simp
  then have l: "l_reserve ?L = ucast (g_capacity g)" by (rule word_unat_eq_iff [THEN iffD2])
  have "append_spec g (rt_host_id rt) term d ?L =
      (Inl (PoolFull (g_capacity g) (ucast (g_capacity g))), bump (rt_host_id rt) 1 1 ?L)"
    using assms(10,11) unfolding append_spec_def l r(2) by simp
  from sim_append [OF m(2) rt, of H "term" d, unfolded this] obtain m' where
    "run (append H rt term d) m = Inr (Inl (PoolFull (g_capacity g) (ucast (g_capacity g))), m')"
    by (rule sim_result)
  then show ?thesis using m(1) o(2) assms(10) by auto
qed

end
