(* ===== verification/Barrier.thy ===== *)
theory Barrier
  imports Main
begin

text \<open>
  \<open>TestBarrier\<close>, \<open>crates/fence-test-harness/src/barrier.rs\<close>: a wrapper of the standard library's
  \<open>std::sync::Barrier\<close>. A barrier counts the threads that arrived in its current generation; the
  last one starts the next generation, and a blocked thread returns once its generation is over.
\<close>

section \<open>The barrier\<close>

record barrier =
  num_threads :: nat
  arrived :: nat
  generation :: nat

record test_barrier =
  inner :: barrier
  tb_thread_count :: nat

definition test_barrier_new :: "nat \<Rightarrow> test_barrier" where
  "test_barrier_new n =
     \<lparr>inner = \<lparr>num_threads = n, arrived = 0, generation = 0\<rparr>, tb_thread_count = n\<rparr>"

definition thread_count :: "test_barrier \<Rightarrow> nat" where
  "thread_count self = tb_thread_count self"

text \<open>
  A call of \<open>wait\<close> first arrives: it returns at once (None) or blocks on the generation it found.
\<close>

definition barrier_arrive :: "barrier \<Rightarrow> nat option \<times> barrier" where
  "barrier_arrive b =
     (if arrived b + 1 < num_threads b
      then (Some (generation b), b\<lparr>arrived := arrived b + 1\<rparr>)
      else (None, b\<lparr>arrived := 0, generation := generation b + 1\<rparr>))"

definition test_barrier_wait :: "test_barrier \<Rightarrow> nat option \<times> test_barrier" where
  "test_barrier_wait self =
     (case barrier_arrive (inner self) of (blocked, b) \<Rightarrow> (blocked, self\<lparr>inner := b\<rparr>))"

definition returns :: "test_barrier \<Rightarrow> nat \<Rightarrow> bool" where
  "returns self gen \<longleftrightarrow> gen \<noteq> generation (inner self)"

section \<open>Threads that wait in rounds\<close>

text \<open>A thread has returned from \<open>wait\<close> some number of times, and may be blocked in the next call.\<close>

datatype phase = Working nat | Blocked nat nat

fun returned :: "phase \<Rightarrow> nat" where
  "returned (Working r) = r"
| "returned (Blocked r g) = r"

fun arrivals :: "phase \<Rightarrow> nat" where
  "arrivals (Working r) = r"
| "arrivals (Blocked r g) = Suc r"

inductive barrier_step :: "nat \<Rightarrow> test_barrier \<times> phase list \<Rightarrow> test_barrier \<times> phase list \<Rightarrow> bool" for R where
  bs_block: "i < length ps \<Longrightarrow> ps ! i = Working r \<Longrightarrow> r < R \<Longrightarrow> test_barrier_wait b = (Some g, b') \<Longrightarrow>
    barrier_step R (b, ps) (b', ps[i := Blocked r g])"
| bs_last: "i < length ps \<Longrightarrow> ps ! i = Working r \<Longrightarrow> r < R \<Longrightarrow> test_barrier_wait b = (None, b') \<Longrightarrow>
    barrier_step R (b, ps) (b', ps[i := Working (Suc r)])"
| bs_return: "i < length ps \<Longrightarrow> ps ! i = Blocked r g \<Longrightarrow> returns b g \<Longrightarrow>
    barrier_step R (b, ps) (b, ps[i := Working (Suc r)])"

inductive_cases barrier_stepE: "barrier_step R (b, ps) s"

definition barrier_start :: "nat \<Rightarrow> test_barrier \<times> phase list" where
  "barrier_start n = (test_barrier_new n, replicate n (Working 0))"

section \<open>The invariant\<close>

fun phase_ok :: "nat \<Rightarrow> nat \<Rightarrow> phase \<Rightarrow> bool" where
  "phase_ok R G (Working r) \<longleftrightarrow> r = G"
| "phase_ok R G (Blocked r g) \<longleftrightarrow> r = g \<and> r < R \<and> (g = G \<or> Suc g = G)"

fun waiting :: "nat \<Rightarrow> phase \<Rightarrow> bool" where
  "waiting G (Working r) \<longleftrightarrow> False"
| "waiting G (Blocked r g) \<longleftrightarrow> g = G"

definition barrier_inv :: "nat \<Rightarrow> nat \<Rightarrow> test_barrier \<times> phase list \<Rightarrow> bool" where
  "barrier_inv n R s \<longleftrightarrow>
     (case s of (b, ps) \<Rightarrow>
        num_threads (inner b) = n \<and> length ps = n \<and> generation (inner b) \<le> R \<and>
        arrived (inner b) = length (filter (waiting (generation (inner b))) ps) \<and> arrived (inner b) < n \<and>
        list_all (phase_ok R (generation (inner b))) ps)"

lemma filter_update:
  assumes "i < length xs" "\<not> P (xs ! i)"
  shows "length (filter P (xs[i := y])) = length (filter P xs) + (if P y then 1 else 0)"
proof -
  have xs: "xs = take i xs @ xs ! i # drop (Suc i) xs" using assms(1) by (rule id_take_nth_drop)
  have "length (filter P xs) = length (filter P (take i xs)) + length (filter P (drop (Suc i) xs))"
    by (subst xs) (simp add: assms(2))
  then show ?thesis using assms(1) by (simp add: upd_conv_take_nth_drop)
qed

lemma filter_all: "length (filter P xs) = length xs \<Longrightarrow> i < length xs \<Longrightarrow> P (xs ! i)"
  by (metis filter_id_conv length_filter_less nat_neq_iff nth_mem)

lemma barrier_inv_start: "0 < n \<Longrightarrow> barrier_inv n R (barrier_start n)"
  by (simp add: barrier_inv_def barrier_start_def test_barrier_new_def list_all_length)

lemma wait_cases:
  "test_barrier_wait b = (Some g, b') \<longleftrightarrow>
     arrived (inner b) + 1 < num_threads (inner b) \<and> g = generation (inner b) \<and>
     b' = b\<lparr>inner := (inner b)\<lparr>arrived := arrived (inner b) + 1\<rparr>\<rparr>"
  "test_barrier_wait b = (None, b') \<longleftrightarrow>
     \<not> arrived (inner b) + 1 < num_threads (inner b) \<and>
     b' = b\<lparr>inner := (inner b)\<lparr>arrived := 0, generation := generation (inner b) + 1\<rparr>\<rparr>"
  by (auto simp: test_barrier_wait_def barrier_arrive_def)

text \<open>When the last thread arrives all others wait in its generation.\<close>

lemma last_arrival:
  assumes "list_all (phase_ok R G) ps" "length (filter (waiting G) ps) + 1 = length ps"
    and "i < length ps" "ps ! i = Working r" "j < length ps" "j \<noteq> i"
  shows "ps ! j = Blocked G G"
proof -
  have "length (filter (waiting G) (ps[i := Blocked G G])) = length (ps[i := Blocked G G])"
    using filter_update [of i ps "waiting G" "Blocked G G"] assms(2-4) by simp
  from filter_all [OF this, of j] have "waiting G (ps ! j)" using assms(5,6) by simp
  then show ?thesis using assms(1,5) by (cases "ps ! j") (auto simp: list_all_length)
qed

lemma barrier_inv_step:
  assumes "barrier_inv n R s" "barrier_step R s s'"
  shows "barrier_inv n R s'"
  using assms(2,1)
proof (cases rule: barrier_step.cases)
  case (bs_block i ps r b g b')
  then show ?thesis using assms(1)
    by (auto simp: barrier_inv_def wait_cases filter_update list_all_length nth_list_update)
next
  case (bs_last i ps r b b')
  let ?G = "generation (inner b)"
  have I: "length ps = n" "?G \<le> R" "arrived (inner b) = length (filter (waiting ?G) ps)"
    "arrived (inner b) < n" "list_all (phase_ok R ?G) ps" "num_threads (inner b) = n"
    using assms(1) bs_last(1) by (simp_all add: barrier_inv_def)
  have b': "b' = b\<lparr>inner := (inner b)\<lparr>arrived := 0, generation := ?G + 1\<rparr>\<rparr>" "\<not> arrived (inner b) + 1 < n"
    using bs_last(6) I(6) by (simp_all add: wait_cases)
  have r: "r = ?G" using I(5) bs_last(3,4) by (auto simp: list_all_length)
  have full: "length (filter (waiting ?G) ps) + 1 = length ps" using I(1,3,4) b'(2) by simp
  note others = last_arrival [OF I(5) full bs_last(3,4)]
  have "phase_ok R (Suc ?G) (ps[i := Working (Suc r)] ! j)" "\<not> waiting (Suc ?G) (ps[i := Working (Suc r)] ! j)"
    if "j < length ps" for j
    using that others [of j] r bs_last(5) by (cases "j = i"; simp)+
  then show ?thesis
    using I bs_last(5) r by (auto simp: bs_last(2) b'(1) barrier_inv_def list_all_length filter_empty_conv in_set_conv_nth)
next
  case (bs_return i ps r g b)
  then show ?thesis using assms(1)
    by (auto simp: barrier_inv_def returns_def filter_update list_all_length nth_list_update)
qed

section \<open>Every schedule ends\<close>

fun progress :: "phase \<Rightarrow> nat" where
  "progress (Working r) = 2 * r"
| "progress (Blocked r g) = Suc (2 * r)"

lemma sum_list_update_add:
  fixes xs :: "nat list"
  assumes "i < length xs" "x = xs ! i + d"
  shows "sum_list (xs[i := x]) = sum_list xs + d"
proof -
  have "xs = take i xs @ xs ! i # drop (Suc i) xs" using assms(1) by (rule id_take_nth_drop)
  then have "sum_list xs = sum_list (take i xs) + xs ! i + sum_list (drop (Suc i) xs)"
    by (metis add.assoc sum_list.append sum_list.Cons)
  then show ?thesis using assms by (simp add: upd_conv_take_nth_drop)
qed

lemma progress_update:
  assumes "i < length ps" "progress p = progress (ps ! i) + d"
  shows "sum_list (map progress (ps[i := p])) = sum_list (map progress ps) + d"
  using assms sum_list_update_add [of i "map progress ps" "progress p" d] by (simp add: map_update)

lemma progress_step:
  assumes "barrier_step R s s'"
  shows "Suc (sum_list (map progress (snd s))) \<le> sum_list (map progress (snd s'))"
  using assms
proof (cases rule: barrier_step.cases)
  case (bs_block i ps r b g b')
  then show ?thesis by (simp add: progress_update [where d = 1])
next
  case (bs_last i ps r b b')
  then show ?thesis by (simp add: progress_update [where d = 2])
next
  case (bs_return i ps r g b)
  then show ?thesis by (simp add: progress_update [where d = 1])
qed

lemma barrier_steps:
  assumes "0 < n" "(barrier_step R ^^ k) (barrier_start n) s"
  shows "barrier_inv n R s \<and> k \<le> sum_list (map progress (snd s))"
  using assms(2)
proof (induction k arbitrary: s)
  case 0
  then show ?case using barrier_inv_start [OF assms(1)] by auto
next
  case (Suc k)
  then obtain s1 where s1: "(barrier_step R ^^ k) (barrier_start n) s1" "barrier_step R s1 s" by auto
  from Suc.IH [OF s1(1)] barrier_inv_step [OF _ s1(2)] progress_step [OF s1(2)] show ?case by fastforce
qed

lemma phase_bounds:
  assumes "phase_ok R G p" "G \<le> R"
  shows "progress p \<le> 2 * R" "returned p \<le> G" "G \<le> arrivals p"
  using assms by (cases p; auto)+

lemma barrier_stuck:
  assumes "barrier_inv n R (b, ps)" "\<And>s. \<not> barrier_step R (b, ps) s" "i < n"
  shows "ps ! i = Working R"
proof -
  let ?G = "generation (inner b)"
  have I: "length ps = n" "?G \<le> R" "arrived (inner b) = length (filter (waiting ?G) ps)" "arrived (inner b) < n"
    "\<And>j. j < n \<Longrightarrow> phase_ok R ?G (ps ! j)"
    using assms(1) by (auto simp: barrier_inv_def list_all_length)
  have work: "?G = R" if "j < n" "ps ! j = Working r" for j r
  proof (rule ccontr)
    assume "?G \<noteq> R"
    moreover have "r = ?G" using I(5) [OF that(1)] that(2) by simp
    ultimately have lt: "r < R" using I(2) by simp
    obtain x b' where "test_barrier_wait b = (x, b')" by fastforce
    then show False
      using assms(2) bs_block [of j ps r R b _ b'] bs_last [of j ps r R b b'] that I(1) lt by (cases x) auto
  qed
  have block: "waiting ?G (ps ! j)" if "j < n" "ps ! j = Blocked r g" for j r g
    using assms(2) bs_return [of j ps r g b R] that I(1) by (auto simp: returns_def)
  show ?thesis
  proof (cases "\<exists>j<n. \<exists>r. ps ! j = Working r")
    case True
    then have G: "?G = R" using work by blast
    show ?thesis
    proof (cases "ps ! i")
      case (Working r)
      with I(5) [OF assms(3)] G show ?thesis by simp
    next
      case (Blocked r g)
      with I(5) [OF assms(3)] block [OF assms(3) Blocked] G show ?thesis by simp
    qed
  next
    case False
    have "waiting ?G (ps ! j)" if "j < n" for j
      using False that block [OF that] by (cases "ps ! j") auto
    then have "filter (waiting ?G) ps = ps" using I(1) by (auto simp: filter_id_conv in_set_conv_nth)
    then show ?thesis using I(1,3,4) by simp
  qed
qed

text \<open>
  C33: whatever the order in which \<open>n\<close> threads run, each calling \<open>wait\<close> \<open>R\<close> times on a
  \<open>TestBarrier\<close> for \<open>n\<close> threads: no thread has returned from more calls than every thread has
  made, there are at most \<open>2 * n * R\<close> steps, and when no thread can move any more all of them
  have returned from all their calls. No wake-up is lost and no thread stays blocked.
\<close>
theorem barrier_releases_all:
  assumes "0 < n" "(barrier_step R ^^ k) (barrier_start n) (b, ps)"
  shows "(\<forall>i<n. \<forall>j<n. returned (ps ! i) \<le> arrivals (ps ! j)) \<and> k \<le> 2 * n * R \<and>
    ((\<forall>s. \<not> barrier_step R (b, ps) s) \<longrightarrow> (\<forall>i<n. ps ! i = Working R))"
proof -
  from barrier_steps [OF assms] have inv: "barrier_inv n R (b, ps)" and k: "k \<le> sum_list (map progress ps)"
    by simp_all
  let ?G = "generation (inner b)"
  have I: "length ps = n" "?G \<le> R" "\<And>j. j < n \<Longrightarrow> phase_ok R ?G (ps ! j)"
    using inv by (auto simp: barrier_inv_def list_all_length)
  note B = phase_bounds [OF I(3) I(2)]
  have "sum_list (map progress ps) \<le> sum_list (map (\<lambda>_. 2 * R) ps)"
    by (rule sum_list_mono) (use B(1) I(1) in \<open>auto simp: in_set_conv_nth\<close>)
  then have "k \<le> 2 * n * R" using k I(1) by (simp add: sum_list_triv ac_simps)
  moreover have "returned (ps ! i) \<le> arrivals (ps ! j)" if "i < n" "j < n" for i j
    using B(2) [OF that(1)] B(3) [OF that(2)] by (rule order_trans)
  ultimately show ?thesis using barrier_stuck [OF inv] by blast
qed

theorem barrier_releases_all_witness:
  "\<exists>b. (barrier_step 1 ^^ 3) (barrier_start 2) (b, [Working 1, Working 1]) \<and> (3::nat) \<le> 2 * 2 * 1"
proof -
  let ?b = "\<lambda>a G. \<lparr>inner = \<lparr>num_threads = 2, arrived = a, generation = G\<rparr>, tb_thread_count = 2\<rparr>"
  have w: "test_barrier_wait (?b 0 0) = (Some 0, ?b 1 0)" "test_barrier_wait (?b 1 0) = (None, ?b 0 1)"
    by (simp_all add: test_barrier_wait_def barrier_arrive_def)
  have s: "barrier_start 2 = (?b 0 0, [Working 0, Working 0])"
    by (simp add: barrier_start_def test_barrier_new_def numeral_2_eq_2)
  have 1: "barrier_step 1 (?b 0 0, [Working 0, Working 0]) (?b 1 0, [Blocked 0 0, Working 0])"
    using bs_block [of 0 "[Working 0, Working 0]" 0 1 "?b 0 0" 0 "?b 1 0"] w(1) by simp
  have 2: "barrier_step 1 (?b 1 0, [Blocked 0 0, Working 0]) (?b 0 1, [Blocked 0 0, Working 1])"
    using bs_last [of 1 "[Blocked 0 0, Working 0]" 0 1 "?b 1 0" "?b 0 1"] w(2) by simp
  have 3: "barrier_step 1 (?b 0 1, [Blocked 0 0, Working 1]) (?b 0 1, [Working 1, Working 1])"
    using bs_return [of 0 "[Blocked 0 0, Working 1]" 0 0 "?b 0 1" 1] by (simp add: returns_def)
  have r: "(barrier_step 1 ^^ 3) (barrier_start 2) (?b 0 1, [Working 1, Working 1])"
    using 1 2 3 by (auto simp: s numeral_3_eq_3 relcompp_apply)
  from barrier_releases_all [OF _ r] r show ?thesis by auto
qed

end
