(* ===== verification/Scenario.thy ===== *)
theory Scenario
  imports HarnessProps
begin

text \<open>
  Tests of the runtime as data: hosts that open a pool file one after the other, make calls on
  their runtime and check the answers, and writers that crash in between. A scenario is run on
  the machine, where a failed check is a panic, and on the specification of the log; what passes
  on the specification passes on the machine.
\<close>

section \<open>Running a scenario\<close>

text \<open>
  A step of a test is a call, whose arguments may come from the results so far, or an assertion
  on the runtime and these results, the latest first.
\<close>

datatype test_step =
    CallOn "outcome list \<Rightarrow> log_op"
  | Assert "fence_runtime \<Rightarrow> outcome list \<Rightarrow> bool"

abbreviation Call :: "log_op \<Rightarrow> test_step" where
  "Call op \<equiv> CallOn (\<lambda>_. op)"

datatype phase = Runtime bool u16 "test_step list" | CrashedWriter

record scenario =
  sc_capacity :: u32
  sc_payload_size :: u32
  sc_max_hosts :: u16
  sc_phases :: "phase list"

fun run_calls :: "'h hasher \<Rightarrow> fence_runtime \<Rightarrow> outcome list \<Rightarrow> test_step list \<Rightarrow> unit prog" where
  "run_calls H rt rs [] = Ret ()"
| "run_calls H rt rs (CallOn f # calls) = prog_bind (op_prog H rt (f rs)) (\<lambda>r. run_calls H rt (r # rs) calls)"
| "run_calls H rt rs (Assert P # calls) =
     (if P rt rs then run_calls H rt rs calls else Fail (Panic ''assertion failed''))"

definition phase_config :: "u8 list \<Rightarrow> scenario \<Rightarrow> bool \<Rightarrow> u16 \<Rightarrow> pool_config" where
  "phase_config path sc create host =
     \<lparr>pc_path = path, pc_capacity = sc_capacity sc, pc_payload_size = sc_payload_size sc,
      pc_max_hosts = sc_max_hosts sc, pc_host_id = host, pc_create = create\<rparr>"

fun run_phases ::
    "'h hasher \<Rightarrow> os \<Rightarrow> u8 list \<Rightarrow> scenario \<Rightarrow> phase list \<Rightarrow> machine \<Rightarrow> fault + machine" where
  "run_phases H S path sc [] w = Inr w"
| "run_phases H S path sc (Runtime create host calls # phases) w =
     (case runtime_open S (phase_config path sc create host) w of
        Inl flt \<Rightarrow> Inl flt
      | Inr (Inl e, w1) \<Rightarrow> Inl (Panic ''called unwrap on an Err value'')
      | Inr (Inr (rt, b), w1) \<Rightarrow>
          (case run (run_calls H rt [] calls) (mb_region b) of
             Inl flt \<Rightarrow> Inl flt
           | Inr (_, m) \<Rightarrow> run_phases H S path sc phases (runtime_drop (rt, b\<lparr>mb_region := m\<rparr>) w1)))"
| "run_phases H S path sc (CrashedWriter # phases) w =
     (case simulate_crashed_write S path (sc_capacity sc) (sc_payload_size sc) (sc_max_hosts sc) w of
        Inl flt \<Rightarrow> Inl flt
      | Inr (_, w1) \<Rightarrow> run_phases H S path sc phases w1)"

definition run_scenario :: "'h hasher \<Rightarrow> os \<Rightarrow> u8 list \<Rightarrow> scenario \<Rightarrow> machine \<Rightarrow> fault + machine" where
  "run_scenario H S path sc w = run_phases H S path sc (sc_phases sc) w"

section \<open>A scenario on the specification\<close>

text \<open>
  Whether all checks succeed, and the log at the end. Only the first phase may create the pool.
\<close>

fun calls_spec ::
    "pool_geometry \<Rightarrow> u16 \<Rightarrow> outcome list \<Rightarrow> test_step list \<Rightarrow> log \<Rightarrow> bool \<times> log" where
  "calls_spec g h rs [] L = (True, L)"
| "calls_spec g h rs (CallOn f # calls) L =
     (let (r, L1) = op_spec g h (f rs) L in
      if op_ok (f rs) then calls_spec g h (r # rs) calls L1 else (False, L1))"
| "calls_spec g h rs (Assert P # calls) L =
     (if P \<lparr>rt_geometry = g, rt_host_id = h\<rparr> rs then calls_spec g h rs calls L else (False, L))"

fun phases_spec :: "pool_geometry \<Rightarrow> phase list \<Rightarrow> log \<Rightarrow> bool" where
  "phases_spec g [] L \<longleftrightarrow> True"
| "phases_spec g (Runtime create h calls # phases) L \<longleftrightarrow>
     \<not> create \<and> unat h < hosts g \<and>
     (let (ok, L1) = calls_spec g h [] calls L in ok \<and> phases_spec g phases L1)"
| "phases_spec g (CrashedWriter # phases) L \<longleftrightarrow>
     unat (l_reserve L) < cap g \<and> phases_spec g phases (snd (crashed_spec L))"

definition fresh_log :: "pool_geometry \<Rightarrow> log" where
  "fresh_log g = \<lparr>l_slots = replicate (cap g) SFree, l_reserve = 0, l_tail = 0, l_metrics = (\<lambda>_ _. 0)\<rparr>"

text \<open>A scenario that a new file passes: it starts by creating the pool.\<close>

fun scenario_ok :: "scenario \<Rightarrow> bool" where
  "scenario_ok sc \<longleftrightarrow>
     (case geometry_new (sc_capacity sc) (sc_payload_size sc) (sc_max_hosts sc) of
        Inl _ \<Rightarrow> False
      | Inr g \<Rightarrow>
          (case sc_phases sc of
             Runtime True h calls # phases \<Rightarrow>
               geom_ok g \<and> phases_spec g (Runtime False h calls # phases) (fresh_log g)
           | _ \<Rightarrow> False))"

section \<open>What passes on the specification passes on the machine\<close>

lemma log_inv_crashed:
  assumes "log_inv g L" "unat (l_reserve L) < cap g"
  shows "log_inv g (snd (crashed_spec L))"
proof -
  note D = log_invD [OF assms(1)]
  have r: "unat (l_reserve L + 1) = Suc (unat (l_reserve L))"
    using assms(2) unat_u32_le [of "g_capacity g"] by (subst unat_add_lt64) simp_all
  show ?thesis
    using D slot_ok_mono [OF D(4)] assms(2) by (auto simp: log_inv_def crashed_spec_def r nth_list_update)
qed

lemma calls_footprint: "writes_within behind_header (run_calls H rt rs calls)"
  by (induction H rt rs calls rule: run_calls.induct) (auto intro!: writes_within_bind op_footprint)

lemma run_calls_spec:
  assumes "pool g m" "rt_geometry rt = g" "unat (rt_host_id rt) < hosts g" "abs_log H g (cache m) = L" "log_inv g L"
    and "calls_spec g (rt_host_id rt) rs calls L = (True, L1)"
  obtains m' where "run (run_calls H rt rs calls) m = Inr ((), m')" "pool g m'" "abs_log H g (cache m') = L1" "log_inv g L1"
proof -
  have "\<exists>m'. run (run_calls H rt rs calls) m = Inr ((), m') \<and> pool g m' \<and> abs_log H g (cache m') = L1 \<and> log_inv g L1"
    using assms(1,4-6)
  proof (induction calls arbitrary: m L rs)
    case Nil
    then show ?case by auto
  next
    case (Cons c calls)
    show ?case
    proof (cases c)
      case (CallOn f)
      let ?op = "f rs"
      obtain r L2 where s: "op_spec g (rt_host_id rt) ?op L = (r, L2)" by fastforce
      have ok: "op_ok ?op" "calls_spec g (rt_host_id rt) (r # rs) calls L2 = (True, L1)"
        using Cons.prems(4) by (simp_all add: CallOn s split: if_splits)
      have inv: "log_inv g L2" using log_inv_op [OF Cons.prems(3), of "rt_host_id rt" ?op] by (simp add: s)
      from sim_op [OF Cons.prems(1) assms(2,3) Cons.prems(2,3) ok(1), unfolded s] obtain m1 where
        m1: "run (op_prog H rt ?op) m = Inr (r, m1)" "pool g m1" "abs_log H g (cache m1) = L2"
        by (rule sim_result)
      from Cons.IH [OF m1(2,3) inv ok(2)] show ?thesis by (simp add: CallOn run_bindI [OF m1(1)])
    next
      case (Assert P)
      have rt: "rt = \<lparr>rt_geometry = g, rt_host_id = rt_host_id rt\<rparr>" using assms(2) by (cases rt) simp
      have ok: "P rt rs" "calls_spec g (rt_host_id rt) rs calls L = (True, L1)"
        using Cons.prems(4) rt by (simp_all add: Assert split: if_splits)
      from Cons.IH [OF Cons.prems(1,2,3) ok(2)] show ?thesis by (simp add: Assert ok(1))
    qed
  qed
  with that show thesis by blast
qed

text \<open>The operating system never refuses to open the file while the descriptors are \<open>F\<close>.\<close>

definition accepts :: "os \<Rightarrow> u8 list \<Rightarrow> usize \<Rightarrow> (int \<Rightarrow> u8 list option) \<Rightarrow> bool" where
  "accepts S path sz F \<longleftrightarrow> (\<forall>w. fds w = F \<longrightarrow> (\<exists>b w'. mmap_backend_open S path sz w = (Inr b, w')))"

lemma open_accepted:
  assumes "accepts S path sz (fds w)" "fresh_fds S"
  obtains b w' where "mmap_backend_open S path sz w = (Inr b, w')" "\<And>m. fds (mmap_backend_drop (b\<lparr>mb_region := m\<rparr>) w') = fds w"
proof -
  obtain b w' where o: "mmap_backend_open S path sz w = (Inr b, w')" using assms(1) by (auto simp: accepts_def)
  have "fds w (mb_fd b) = None"
    using o assms(2)
    by (auto simp: mmap_backend_open_def Let_def fresh_fds_def split: if_splits sum.splits option.splits)
  with open_ok(3) [OF o] show thesis by (intro that [OF o]) (simp add: fun_eq_iff)
qed

text \<open>One phase on a region that holds the pool.\<close>

lemma run_phase:
  assumes "in_use g path b w" "abs_log H g (cache (mb_region b)) = L" "get64 (cache (mb_region b)) 0 = MAGIC"
    and "rt_geometry rt = g" "unat (rt_host_id rt) < hosts g" "log_inv g L"
    and "calls_spec g (rt_host_id rt) [] calls L = (True, L1)"
  obtains m where "run (run_calls H rt [] calls) (mb_region b) = Inr ((), m)" "log_inv g L1"
    "at_rest H g path L1 (runtime_drop (rt, b\<lparr>mb_region := m\<rparr>) w)"
proof -
  have p: "pool g (mb_region b)" using assms(1) by (simp add: in_use_def)
  obtain m where m: "run (run_calls H rt [] calls) (mb_region b) = Inr ((), m)" "pool g m"
    "abs_log H g (cache m) = L1" "log_inv g L1"
    by (rule run_calls_spec [OF p assms(4,5,2,6,7)])
  have "get64 (cache m) 0 = get64 (cache (mb_region b)) 0"
    using run_frame [OF m(1) calls_footprint poolD(4) [OF p]] by (intro get64_cong) (auto simp: frame_def)
  then have "at_rest H g path L1 (mmap_backend_drop (b\<lparr>mb_region := m\<rparr>) w)"
    using at_rest_drop [OF in_use_region [OF assms(1) m(2)], of H L1] m(3) assms(3) by simp
  then show thesis by (intro that [OF m(1,4)]) (simp add: runtime_drop_def)
qed

lemma run_phases_spec:
  assumes "geometry_new (sc_capacity sc) (sc_payload_size sc) (sc_max_hosts sc) = Inr g" "geom_ok g"
    and "page_mapped S" "fresh_fds S" "accepts S path (g_total_size g) (fds w)"
    and "at_rest H g path L w" "log_inv g L" "phases_spec g phases L"
  shows "\<exists>w'. run_phases H S path sc phases w = Inr w'"
  using assms(5-8)
proof (induction phases arbitrary: w L)
  case (Cons p phases)
  obtain b w1 where o: "mmap_backend_open S path (g_total_size g) w = (Inr b, w1)"
    "\<And>m. fds (mmap_backend_drop (b\<lparr>mb_region := m\<rparr>) w1) = fds w"
    by (rule open_accepted [OF Cons.prems(1) assms(4)]) blast
  note O = at_rest_open [OF Cons.prems(2) assms(2,3) o(1)]
  show ?case
  proof (cases p)
    case (Runtime create h calls)
    obtain L1 where L1: "\<not> create" "unat h < hosts g" "calls_spec g h [] calls L = (True, L1)" "phases_spec g phases L1"
      using Cons.prems(4) Runtime by (auto split: prod.splits)
    let ?rt = "\<lparr>rt_geometry = g, rt_host_id = h\<rparr>" and ?c = "phase_config path sc create h"
    have c: "geometry_new (pc_capacity ?c) (pc_payload_size ?c) (pc_max_hosts ?c) = Inr g"
      and pc: "pc_path ?c = path" "\<not> pc_create ?c" "pc_host_id ?c = h"
      using assms(1) L1(1) by (simp_all add: phase_config_def)
    have open_rt: "runtime_open S ?c w = Inr (Inr (?rt, b), w1)"
      using O(3) o(1) unfolding runtime_open_cases [OF c assms(2,3)] by (simp add: pc)
    obtain m where m: "run (run_calls H ?rt [] calls) (mb_region b) = Inr ((), m)" "log_inv g L1"
      "at_rest H g path L1 (runtime_drop (?rt, b\<lparr>mb_region := m\<rparr>) w1)"
      by (rule run_phase [OF O, of ?rt calls L1]) (use L1(2,3) Cons.prems(3) in simp_all)
    have "accepts S path (g_total_size g) (fds (runtime_drop (?rt, b\<lparr>mb_region := m\<rparr>) w1))"
      using Cons.prems(1) o(2) [of m] by (simp add: runtime_drop_def)
    from Cons.IH [OF this m(3,2) L1(4)] show ?thesis by (simp add: Runtime open_rt m(1))
  next
    case CrashedWriter
    then have L: "unat (l_reserve L) < cap g" "phases_spec g phases (snd (crashed_spec L))"
      using Cons.prems(4) by simp_all
    have p: "pool g (mb_region b)" using O(1) by (simp add: in_use_def)
    obtain m where m: "run (crashed_write g) (mb_region b) = Inr (l_reserve L, m)"
      using sim_crashed_write [OF p O(2) L(1)] by (auto simp: sim_def crashed_spec_def)
    have cw: "simulate_crashed_write S path (sc_capacity sc) (sc_payload_size sc) (sc_max_hosts sc) w =
        Inr (l_reserve L, mmap_backend_drop (b\<lparr>mb_region := m\<rparr>) w1)"
      by (simp add: simulate_crashed_write_def assms(1) o(1) m)
    note R = at_rest_crashed_write [OF Cons.prems(2) assms(2,3) L(1) assms(1) cw]
    have "accepts S path (g_total_size g) (fds (mmap_backend_drop (b\<lparr>mb_region := m\<rparr>) w1))"
      using Cons.prems(1) by (simp only: o(2))
    from Cons.IH [OF this R [THEN conjunct2] log_inv_crashed [OF Cons.prems(3) L(1)] L(2)]
    show ?thesis by (simp add: CrashedWriter cw)
  qed
qed simp

lemma fresh_log_view:
  assumes "geom_ok g"
  shows "abs_log H g (fresh_header config g (\<lambda>_. 0)) = fresh_log g"
proof -
  have "map (slot_view H g (\<lambda>_. 0)) [0..<cap g] = replicate (cap g) SFree"
    by (intro nth_equalityI) (simp_all add: slot_view_zero)
  then show ?thesis
    unfolding abs_log_fresh [OF assms] by (simp add: abs_log_def fresh_log_def fun_eq_iff)
qed

lemma log_inv_fresh: "log_inv g (fresh_log g)"
  by (simp add: log_inv_def fresh_log_def)

text \<open>
  A scenario whose checks succeed on the specification of the log runs on the machine
  without a panic, for every hasher and every operating system that does not refuse to open
  the file: the pool is created in a new or empty file, closed and opened again between the
  hosts, and writers crash in between.
\<close>
theorem scenario_passes:
  assumes "scenario_ok sc" "page_mapped S" "fresh_fds S" "\<forall>f. files w path = Some f \<longrightarrow> f_len f = 0"
    and "\<And>g. geometry_new (sc_capacity sc) (sc_payload_size sc) (sc_max_hosts sc) = Inr g \<Longrightarrow>
      accepts S path (g_total_size g) (fds w)"
  shows "\<exists>w'. run_scenario H S path sc w = Inr w'"
proof -
  obtain g h calls phases where g: "geometry_new (sc_capacity sc) (sc_payload_size sc) (sc_max_hosts sc) = Inr g"
    and ph: "sc_phases sc = Runtime True h calls # phases" and ok: "geom_ok g"
    and spec: "phases_spec g (Runtime False h calls # phases) (fresh_log g)"
    using assms(1) by (auto split: sum.splits list.splits phase.splits bool.splits)
  obtain L1 where L1: "unat h < hosts g" "calls_spec g h [] calls (fresh_log g) = (True, L1)" "phases_spec g phases L1"
    using spec by (auto split: prod.splits)
  obtain b w1 where o: "mmap_backend_open S path (g_total_size g) w = (Inr b, w1)"
    "\<And>m. fds (mmap_backend_drop (b\<lparr>mb_region := m\<rparr>) w1) = fds w"
    by (rule open_accepted [OF assms(5) [OF g] assms(3)]) blast
  let ?rt = "\<lparr>rt_geometry = g, rt_host_id = h\<rparr>" and ?c = "phase_config path sc True h"
  let ?b = "b\<lparr>mb_region := flushed ((mb_region b)\<lparr>cache := fresh_header ?c g (cache (mb_region b))\<rparr>) 0 64\<rparr>"
  have c: "geometry_new (pc_capacity ?c) (pc_payload_size ?c) (pc_max_hosts ?c) = Inr g" "pc_create ?c" "pc_path ?c = path"
    using g by (simp_all add: phase_config_def)
  have open_rt: "runtime_open S ?c w = Inr (Inr (?rt, ?b), w1)"
    using o(1) by (simp add: runtime_open_cases [OF c(1) ok assms(2)] c(2,3)) (simp add: phase_config_def)
  note cr = created_in_use [OF c(1) ok assms(2) c(2) open_rt, unfolded c(3)]
  have "cache (mb_region b) = (\<lambda>_. 0)"
    using open_ok(6) [OF o(1)] assms(4) by (auto simp: cut_def fun_eq_iff split: option.splits)
  then have "abs_log H g (cache (mb_region ?b)) = fresh_log g" by (simp add: fresh_log_view [OF ok])
  from run_phase [OF cr(2) this cr(3), of ?rt calls L1] L1(1,2) log_inv_fresh obtain m where
    m: "run (run_calls H ?rt [] calls) (mb_region ?b) = Inr ((), m)" "log_inv g L1"
      "at_rest H g path L1 (runtime_drop (?rt, ?b\<lparr>mb_region := m\<rparr>) w1)"
    by auto
  have "accepts S path (g_total_size g) (fds (runtime_drop (?rt, ?b\<lparr>mb_region := m\<rparr>) w1))"
    using assms(5) [OF g] o(2) [of m] by (simp add: runtime_drop_def)
  from run_phases_spec [OF g ok assms(2,3) this m(3,2) L1(3)]
  show ?thesis
    unfolding run_scenario_def ph run_phases.simps open_rt sum.case prod.case m(1) .
qed

end
