(* ===== verification/RepoTests.thy ===== *)
theory RepoTests
  imports Scenario
begin

text \<open>
  Tests of the repository as scenarios: the unit tests of \<open>engine.rs\<close> that use the operations of
  the runtime, the integration tests of \<open>fence-runtime/tests\<close> with one host at a time, except
  \<open>many_records_roundtrip\<close>, and the tests of the pool builder. All of them pass on the machine.
  An assertion that takes a value apart fails when there is no such value, as \<open>unwrap\<close> does.
\<close>

section \<open>Assertions on the last result\<close>
















section \<open>The unit tests of the engine\<close>

















section \<open>The integration tests\<close>




















section \<open>All scenarios pass\<close>



text \<open>Geometries and ranges in binary numbers, for the evaluation.\<close>

lemma geom_ok_code [code]:
  "geom_ok g \<longleftrightarrow>
     0 < g_capacity g \<and> 0 < g_payload_size g \<and> 0 < g_max_hosts g \<and>
     uint (g_record_size g) = 64 + uint (g_payload_size g) \<and> uint (g_payload_size g) mod 8 = 0 \<and>
     uint (g_total_size g) = 64 + uint (g_capacity g) * uint (g_record_size g) + 64 * uint (g_max_hosts g)"
proof -
  have "rsz g = 64 + psz g \<longleftrightarrow> uint (g_record_size g) = 64 + uint (g_payload_size g)"
    unfolding uint_nat by linarith
  moreover have "psz g mod 8 = 0 \<longleftrightarrow> uint (g_payload_size g) mod 8 = 0"
    unfolding uint_nat by presburger
  moreover have "unat (g_total_size g) = 64 + cap g * rsz g + 64 * hosts g \<longleftrightarrow>
      uint (g_total_size g) = 64 + uint (g_capacity g) * uint (g_record_size g) + 64 * uint (g_max_hosts g)"
    unfolding uint_nat
    by (simp only: of_nat_eq_iff [where 'a = int, symmetric] of_nat_add of_nat_mult of_nat_numeral)
  ultimately show ?thesis
    by (auto simp: geom_ok_def geom_wf_def unat_gt_0 word_neq_0_conv)
qed

lemma op_ok_code [code]:
  "op_ok (OpReadRange a b) \<longleftrightarrow> a \<le> b \<and> 48 * (uint b - uint a) \<le> 9223372036854775807"
  "op_ok (OpAppend t d) \<longleftrightarrow> True"
  "op_ok (OpRead a) \<longleftrightarrow> True"
  "op_ok (OpTrim a) \<longleftrightarrow> True"
  "op_ok OpRecover \<longleftrightarrow> True"
  "op_ok OpCommittedTail \<longleftrightarrow> True"
  "op_ok OpReserveTail \<longleftrightarrow> True"
  "op_ok OpStats \<longleftrightarrow> True"
proof -
  show "op_ok (OpReadRange a b) \<longleftrightarrow> a \<le> b \<and> 48 * (uint b - uint a) \<le> 9223372036854775807"
  proof (cases "a \<le> b")
    case True
    then have "int (unat b - unat a) = uint b - uint a"
      by (simp add: word_le_nat_alt of_nat_diff)
    then have "48 * (uint b - uint a) = int (48 * (unat b - unat a))" by simp
    then show ?thesis unfolding op_ok.simps by linarith
  qed simp
qed simp_all




































end
