(* ===== verification/AllocTests.thy ===== *)
theory AllocTests
  imports Scenario AllocInv
begin

text \<open>
  The unit tests of \<open>allocator.rs\<close> as data: phases that open the backend on a pool file,
  initialise or open an allocator in it or write to its catalog directly, make calls and check
  the answers, and drop the backend. As for the runtime, what passes on the specification of
  the catalog passes on the machine, and the tests pass.
\<close>

section \<open>Running a scenario\<close>

datatype alloc_call =
    CreateRegion "u8 list" u64
  | FreeRegion "u8 list"
  | FindRegion "u8 list"
  | ListRegions
  | RecoverRegions
  | WriteEntry usize catalog_entry
  | StoreState usize region_state

datatype alloc_outcome =
    Created "alloc_error + region_handle"
  | Freed "alloc_error + unit"
  | Found "alloc_error + region_handle"
  | Listed "region_handle list"
  | Fixed usize
  | Written

datatype alloc_step =
    AllocCall alloc_call
  | AllocAssert "alloc_outcome list \<Rightarrow> bool"

text \<open>\<open>RegionAllocator::init\<close>, \<open>RegionAllocator::open\<close>, or only the backend.\<close>

datatype entry_point = InitAllocator | OpenAllocator | BackendOnly

record alloc_scenario =
  as_pool_size :: usize
  as_phases :: "(entry_point \<times> alloc_step list) list"

fun alloc_call_prog :: "region_allocator \<Rightarrow> alloc_call \<Rightarrow> alloc_outcome prog" where
  "alloc_call_prog ra (CreateRegion name sz) = prog_bind (create_region ra name sz) (\<lambda>r. Ret (Created r))"
| "alloc_call_prog ra (FreeRegion name) = prog_bind (free_region ra name) (\<lambda>r. Ret (Freed r))"
| "alloc_call_prog ra (FindRegion name) = prog_bind (find_region ra name) (\<lambda>r. Ret (Found r))"
| "alloc_call_prog ra ListRegions = prog_bind (list_regions ra) (\<lambda>r. Ret (Listed r))"
| "alloc_call_prog ra RecoverRegions = prog_bind (alloc_recover ra) (\<lambda>r. Ret (Fixed r))"
| "alloc_call_prog ra (WriteEntry i e) = prog_bind (write_entry (ra_base ra) i e) (\<lambda>_. Ret Written)"
| "alloc_call_prog ra (StoreState i s) =
     (let ent_offset = entry_offset (ra_base ra) i in
      StoreU8 (ent_offset + ENT_STATE) (region_state_as_u8 s) Relaxed (Flush ent_offset 64 (Ret Written)))"

fun run_alloc_calls :: "region_allocator \<Rightarrow> alloc_outcome list \<Rightarrow> alloc_step list \<Rightarrow> unit prog" where
  "run_alloc_calls ra rs [] = Ret ()"
| "run_alloc_calls ra rs (AllocCall call # todo) =
     prog_bind (alloc_call_prog ra call) (\<lambda>r. run_alloc_calls ra (r # rs) todo)"
| "run_alloc_calls ra rs (AllocAssert P # todo) =
     (if P rs then run_alloc_calls ra rs todo else Fail (Panic ''assertion failed''))"

definition unwrap_allocator ::
    "(alloc_error + region_allocator) \<Rightarrow> (region_allocator \<Rightarrow> 'a prog) \<Rightarrow> 'a prog" where
  "unwrap_allocator r f =
     (case r of Inl e \<Rightarrow> Fail (Panic ''called unwrap on an Err value'') | Inr ra \<Rightarrow> f ra)"

fun alloc_phase_prog :: "usize \<Rightarrow> entry_point \<times> alloc_step list \<Rightarrow> unit prog" where
  "alloc_phase_prog sz (InitAllocator, todo) =
     prog_bind (alloc_init 0 sz) (\<lambda>r. unwrap_allocator r (\<lambda>ra. run_alloc_calls ra [] todo))"
| "alloc_phase_prog sz (OpenAllocator, todo) =
     prog_bind (alloc_open 0 sz) (\<lambda>r. unwrap_allocator r (\<lambda>ra. run_alloc_calls ra [] todo))"
| "alloc_phase_prog sz (BackendOnly, todo) =
     run_alloc_calls \<lparr>ra_base = 0, ra_pool_size = sz\<rparr> [] todo"

fun run_alloc_phases ::
    "os \<Rightarrow> u8 list \<Rightarrow> usize \<Rightarrow> (entry_point \<times> alloc_step list) list \<Rightarrow> machine \<Rightarrow> fault + machine" where
  "run_alloc_phases S path sz [] w = Inr w"
| "run_alloc_phases S path sz (ph # phases) w =
     (case mmap_backend_open S path sz w of
        (Inl e, w1) \<Rightarrow> Inl (Panic ''called unwrap on an Err value'')
      | (Inr b, w1) \<Rightarrow>
          (case run (alloc_phase_prog sz ph) (mb_region b) of
             Inl flt \<Rightarrow> Inl flt
           | Inr (_, m) \<Rightarrow> run_alloc_phases S path sz phases (mmap_backend_drop (b\<lparr>mb_region := m\<rparr>) w1)))"

definition run_alloc_scenario :: "os \<Rightarrow> u8 list \<Rightarrow> alloc_scenario \<Rightarrow> machine \<Rightarrow> fault + machine" where
  "run_alloc_scenario S path sc w = run_alloc_phases S path (as_pool_size sc) (as_phases sc) w"

section \<open>A scenario on the specification\<close>

fun alloc_call_spec :: "region_allocator \<Rightarrow> alloc_call \<Rightarrow> catalog \<Rightarrow> alloc_outcome \<times> catalog" where
  "alloc_call_spec ra (CreateRegion name sz) K = map_prod Created id (create_spec ra name sz K)"
| "alloc_call_spec ra (FreeRegion name) K = map_prod Freed id (free_spec name K)"
| "alloc_call_spec ra (FindRegion name) K = (Found (find_spec name K), K)"
| "alloc_call_spec ra ListRegions K = (Listed (list_spec K), K)"
| "alloc_call_spec ra RecoverRegions K = map_prod Fixed id (alloc_recover_spec K)"
| "alloc_call_spec ra (WriteEntry i e) K = (Written, set_entry i (e\<lparr>ce_name := stored_name (ce_name e)\<rparr>) K)"
| "alloc_call_spec ra (StoreState i s) K = (Written, set_state i s K)"

fun alloc_call_ok :: "alloc_call \<Rightarrow> bool" where
  "alloc_call_ok (WriteEntry i e) \<longleftrightarrow> i < 256"
| "alloc_call_ok (StoreState i s) \<longleftrightarrow> i < 256"
| "alloc_call_ok _ \<longleftrightarrow> True"

fun alloc_calls_spec ::
    "region_allocator \<Rightarrow> alloc_outcome list \<Rightarrow> alloc_step list \<Rightarrow> catalog \<Rightarrow> bool \<times> catalog" where
  "alloc_calls_spec ra rs [] K = (True, K)"
| "alloc_calls_spec ra rs (AllocCall call # todo) K =
     (let (r, K1) = alloc_call_spec ra call K in
      if alloc_call_ok call then alloc_calls_spec ra (r # rs) todo K1 else (False, K1))"
| "alloc_calls_spec ra rs (AllocAssert P # todo) K =
     (if P rs then alloc_calls_spec ra rs todo K else (False, K))"

fun alloc_phase_spec :: "usize \<Rightarrow> entry_point \<times> alloc_step list \<Rightarrow> catalog \<Rightarrow> bool \<times> catalog" where
  "alloc_phase_spec sz (InitAllocator, todo) K =
     (case init_spec 0 sz K of
        (Inl e, K1) \<Rightarrow> (False, K1)
      | (Inr ra, K1) \<Rightarrow> alloc_calls_spec ra [] todo K1)"
| "alloc_phase_spec sz (OpenAllocator, todo) K =
     (if c_magic K = ALLOC_MAGIC then alloc_calls_spec \<lparr>ra_base = 0, ra_pool_size = sz\<rparr> [] todo K
      else (False, K))"
| "alloc_phase_spec sz (BackendOnly, todo) K = alloc_calls_spec \<lparr>ra_base = 0, ra_pool_size = sz\<rparr> [] todo K"

fun alloc_phases_spec :: "usize \<Rightarrow> (entry_point \<times> alloc_step list) list \<Rightarrow> catalog \<Rightarrow> bool" where
  "alloc_phases_spec sz [] K \<longleftrightarrow> True"
| "alloc_phases_spec sz (ph # phases) K \<longleftrightarrow>
     (let (ok, K1) = alloc_phase_spec sz ph K in ok \<and> alloc_phases_spec sz phases K1)"

text \<open>The catalog in a file of zeros.\<close>

definition blank_catalog :: catalog where
  "blank_catalog =
     \<lparr>c_magic = 0, c_count = 0, c_total = 0, c_data_start = 0,
      c_entries = replicate 256 \<lparr>ce_state = Free, ce_name = [], ce_offset = 0, ce_size = 0, ce_epoch = 0\<rparr>\<rparr>"

definition alloc_scenario_ok :: "alloc_scenario \<Rightarrow> bool" where
  "alloc_scenario_ok sc \<longleftrightarrow>
     16448 \<le> as_pool_size sc \<and> alloc_phases_spec (as_pool_size sc) (as_phases sc) blank_catalog"

section \<open>What passes on the specification passes on the machine\<close>

lemma asim_map: "asim base m p r \<Longrightarrow> asim base m (prog_bind p (\<lambda>x. Ret (C x))) (map_prod C id r)"
  by (cases r) (auto simp: refines_def run_bindI)

lemma asim_call:
  assumes "cat_region (ra_base ra) m" "abs_catalog (ra_base ra) (cache m) = K" "alloc_call_ok call"
  shows "asim (ra_base ra) m (alloc_call_prog ra call) (alloc_call_spec ra call K)"
proof (cases call)
  case (WriteEntry i e)
  then have "unat i < 256" using assms(3) by (simp add: word_less_nat_alt)
  then show ?thesis
    unfolding WriteEntry alloc_call_prog.simps alloc_call_spec.simps
    by (intro asim_write_entry [OF assms(1) _ assms(2)] asim_Ret) simp_all
next
  case (StoreState i s)
  then have "unat i < 256" using assms(3) by (simp add: word_less_nat_alt)
  then have "asim (ra_base ra) m (StoreU8 (entry_offset (ra_base ra) i) (region_state_as_u8 s) Relaxed
      (Flush (entry_offset (ra_base ra) i) 64 (Ret Written))) (Written, set_state i s K)"
    by (intro asim_set_state [OF assms(1) _ assms(2)] asim_Ret) simp_all
  then show ?thesis by (simp add: StoreState Let_def)
next
  case (CreateRegion name sz)
  then show ?thesis by (simp add: asim_map asim_create_region [OF assms(1,2)])
next
  case (FreeRegion name)
  then show ?thesis by (simp add: asim_map asim_free_region [OF assms(1,2)])
next
  case RecoverRegions
  then show ?thesis by (simp add: asim_map asim_alloc_recover [OF assms(1,2)])
qed (use assms(1,2) in \<open>auto simp: run_find_region run_list_regions run_bindI refines_def\<close>)

lemma run_alloc_calls_spec:
  assumes "cat_region (ra_base ra) m" "abs_catalog (ra_base ra) (cache m) = K"
    and "alloc_calls_spec ra rs todo K = (True, K1)"
  shows "asim (ra_base ra) m (run_alloc_calls ra rs todo) ((), K1)"
  using assms
proof (induction todo arbitrary: m K rs)
  case (Cons s todo)
  show ?case
  proof (cases s)
    case (AllocCall call)
    obtain r K2 where K2: "alloc_call_spec ra call K = (r, K2)" by fastforce
    have ok: "alloc_call_ok call" "alloc_calls_spec ra (r # rs) todo K2 = (True, K1)"
      using Cons.prems(3) by (simp_all add: AllocCall K2 split: if_splits)
    show ?thesis
      unfolding AllocCall run_alloc_calls.simps
      by (rule asim_bind [OF asim_call [OF Cons.prems(1,2) ok(1), unfolded K2]]) (rule Cons.IH [OF _ _ ok(2)])
  next
    case (AllocAssert P)
    then show ?thesis using Cons.IH [OF Cons.prems(1,2), of rs] Cons.prems(3) by (simp split: if_splits)
  qed
qed (auto intro: asim_Ret)

lemma asim_phase:
  assumes "cat_region 0 m" "abs_catalog 0 (cache m) = K" "alloc_phase_spec sz ph K = (True, K1)"
  shows "asim 0 m (alloc_phase_prog sz ph) ((), K1)"
proof -
  obtain e todo where ph: "ph = (e, todo)" by fastforce
  let ?ra = "\<lparr>ra_base = 0, ra_pool_size = sz\<rparr>"
  note calls = run_alloc_calls_spec [where ra = ?ra, simplified]
  show ?thesis
  proof (cases e)
    case InitAllocator
    obtain K2 where K2: "init_spec 0 sz K = (Inr ?ra, K2)" "alloc_calls_spec ?ra [] todo K2 = (True, K1)"
      using assms(3) by (auto simp: ph InitAllocator init_spec_def split: if_splits)
    show ?thesis
      unfolding ph InitAllocator alloc_phase_prog.simps
      by (rule asim_bind [OF asim_alloc_init [OF assms(1,2), of sz, unfolded K2(1)]])
        (simp add: unwrap_allocator_def calls [OF _ _ K2(2)])
  next
    case OpenAllocator
    have K: "c_magic K = ALLOC_MAGIC" "alloc_calls_spec ?ra [] todo K = (True, K1)"
      using assms(3) by (simp_all add: ph OpenAllocator split: if_splits)
    have "get64 (cache m) 0 = ALLOC_MAGIC" using K(1) by (simp add: assms(2) [symmetric])
    then have "run (alloc_open 0 sz) m = Inr (Inr ?ra, m)"
      by (simp add: run_alloc_open [OF assms(1)])
    then have "run (alloc_phase_prog sz ph) m = run (run_alloc_calls ?ra [] todo) m"
      by (simp add: ph OpenAllocator run_bindI unwrap_allocator_def)
    then show ?thesis
      by (rule refines_run) (simp_all add: calls [OF assms(1,2) K(2)])
  next
    case BackendOnly
    then show ?thesis using assms(3) calls [OF assms(1,2)] by (simp add: ph)
  qed
qed

text \<open>A file that is new, empty or holds a catalog.\<close>

definition catalog_file :: "u8 list \<Rightarrow> usize \<Rightarrow> catalog \<Rightarrow> machine \<Rightarrow> bool" where
  "catalog_file path sz K w \<longleftrightarrow>
     (\<forall>f. files w path = Some f \<longrightarrow> f_len f = 0 \<or> f_len f = unat sz \<and> abs_catalog 0 (f_cache f) = K) \<and>
     ((\<forall>f. files w path = Some f \<longrightarrow> f_len f = 0) \<longrightarrow> K = blank_catalog)"

lemma abs_catalog_zero: "abs_catalog 0 (\<lambda>_. 0) = blank_catalog"
proof -
  have get: "get64 (\<lambda>_. 0) x = 0" for x by (simp add: get64_def peek_def from_le_def)
  have "entry_view 0 (\<lambda>_. 0) i = \<lparr>ce_state = Free, ce_name = [], ce_offset = 0, ce_size = 0, ce_epoch = 0\<rparr>" for i
    by (simp add: entry_view_def entry_name_def get decode_state_def region_state_from_u8_def)
  then show ?thesis
    by (intro catalog.equality nth_equalityI) (simp_all add: blank_catalog_def get)
qed

lemma catalog_file_open:
  assumes "catalog_file path sz K w" "mmap_backend_open S path sz w = (Inr b, w')" "16448 \<le> sz" "page_mapped S"
  shows "cat_region 0 (mb_region b)" "abs_catalog 0 (cache (mb_region b)) = K"
proof -
  have sz: "16448 \<le> unat sz" using assms(3) by (simp add: word_le_nat_alt)
  show "cat_region 0 (mb_region b)"
    using open_ok(1) [OF assms(2)] open_mapped(1) [OF assms(2,4)] sz by (simp add: cat_region_def)
  show "abs_catalog 0 (cache (mb_region b)) = K"
  proof (cases "\<forall>f. files w path = Some f \<longrightarrow> f_len f = 0")
    case True
    then have "cache (mb_region b) = (\<lambda>_. 0)"
      using open_ok(6) [OF assms(2)] by (auto simp: cut_def fun_eq_iff split: option.splits)
    then show ?thesis using assms(1) True by (simp add: catalog_file_def abs_catalog_zero)
  next
    case False
    then obtain f where f: "files w path = Some f" "f_len f = unat sz" "abs_catalog 0 (f_cache f) = K"
      using assms(1) by (auto simp: catalog_file_def)
    show ?thesis
      using abs_catalog_data [of 0 "cache (mb_region b)" "f_cache f"] open_ok(6) [OF assms(2)] f sz
      by (simp add: cut_def)
  qed
qed

lemma catalog_file_drop:
  assumes "mmap_backend_open S path sz w = (Inr b, w')" "abs_catalog 0 (cache m) = K" "16448 \<le> sz"
  shows "catalog_file path sz K (mmap_backend_drop (b\<lparr>mb_region := m\<rparr>) w')"
proof -
  have "0 < unat sz" using assms(3) by (simp add: word_le_nat_alt)
  moreover have "fds w' (mb_fd (b\<lparr>mb_region := m\<rparr>)) = Some path" using open_ok(3) [OF assms(1)] by simp
  note drop_files [OF this open_ok(4) [OF assms(1)]]
  ultimately show ?thesis using assms(2) by (simp add: catalog_file_def)
qed

text \<open>
  An allocator scenario whose checks succeed on the specification of the catalog runs on the
  machine without a panic.
\<close>

theorem alloc_scenario_passes:
  assumes "alloc_phases_spec sz phases K" "16448 \<le> sz" "page_mapped S" "fresh_fds S"
    and "catalog_file path sz K w" "accepts S path sz (fds w)"
  shows "\<exists>w'. run_alloc_phases S path sz phases w = Inr w'"
  using assms(1,5,6)
proof (induction phases arbitrary: w K)
  case (Cons ph phases)
  obtain K1 where K1: "alloc_phase_spec sz ph K = (True, K1)" "alloc_phases_spec sz phases K1"
    using Cons.prems(1) by (auto split: prod.splits)
  obtain b w1 where o: "mmap_backend_open S path sz w = (Inr b, w1)"
    "\<And>m. fds (mmap_backend_drop (b\<lparr>mb_region := m\<rparr>) w1) = fds w"
    by (rule open_accepted [OF Cons.prems(3) assms(4)]) blast
  obtain m where m: "run (alloc_phase_prog sz ph) (mb_region b) = Inr ((), m)" "abs_catalog 0 (cache m) = K1"
    using asim_phase [OF catalog_file_open [OF Cons.prems(2) o(1) assms(2,3)] K1(1)]
    by (auto simp: refines_def)
  have "accepts S path sz (fds (mmap_backend_drop (b\<lparr>mb_region := m\<rparr>) w1))" using Cons.prems(3) by (simp only: o(2))
  from Cons.IH [OF K1(2) catalog_file_drop [OF o(1) m(2) assms(2)] this] show ?case by (simp add: o(1) m(1))
qed simp

section \<open>The unit tests of the allocator\<close>

text \<open>Assertions on the last result. \<open>call_ok\<close> only unwraps it.\<close>

fun alloc_error_of :: "alloc_outcome \<Rightarrow> alloc_error option" where
  "alloc_error_of (Created (Inl e)) = Some e"
| "alloc_error_of (Freed (Inl e)) = Some e"
| "alloc_error_of (Found (Inl e)) = Some e"
| "alloc_error_of _ = None"

definition call_ok :: "alloc_call \<Rightarrow> alloc_step list" where
  "call_ok call = [AllocCall call, AllocAssert (\<lambda>rs. alloc_error_of (hd rs) = None)]"

definition call_fails :: "(alloc_error \<Rightarrow> bool) \<Rightarrow> alloc_call \<Rightarrow> alloc_step list" where
  "call_fails P call =
     [AllocCall call, AllocAssert (\<lambda>rs. case alloc_error_of (hd rs) of Some e \<Rightarrow> P e | None \<Rightarrow> False)]"

definition listed :: "nat \<Rightarrow> alloc_step list" where
  "listed n = [AllocCall ListRegions, AllocAssert (\<lambda>rs. case rs of Listed hs # _ \<Rightarrow> length hs = n | _ \<Rightarrow> False)]"

definition fixed :: "usize \<Rightarrow> alloc_step list" where
  "fixed n = [AllocCall RecoverRegions, AllocAssert (\<lambda>rs. case rs of Fixed k # _ \<Rightarrow> k = n | _ \<Rightarrow> False)]"

definition created :: "(region_handle \<Rightarrow> bool) \<Rightarrow> alloc_step" where
  "created P = AllocAssert (\<lambda>rs. case rs of Created (Inr h) # _ \<Rightarrow> P h | _ \<Rightarrow> False)"

definition is_name_exists :: "alloc_error \<Rightarrow> bool" where
  "is_name_exists e = (case e of NameExists _ \<Rightarrow> True | _ \<Rightarrow> False)"

definition is_not_found :: "alloc_error \<Rightarrow> bool" where
  "is_not_found e = (case e of NotFound _ \<Rightarrow> True | _ \<Rightarrow> False)"

definition is_out_of_space :: "alloc_error \<Rightarrow> bool" where
  "is_out_of_space e = (case e of OutOfSpace _ _ \<Rightarrow> True | _ \<Rightarrow> False)"

abbreviation MB :: usize where "MB \<equiv> 1024 * 1024"

definition create_allocator :: "usize \<Rightarrow> alloc_step list \<Rightarrow> alloc_scenario" where
  "create_allocator pool_size todo =
     \<lparr>as_pool_size = pool_size, as_phases = [(InitAllocator, todo)]\<rparr>"

definition init_and_open :: alloc_scenario where
  "init_and_open =
     \<lparr>as_pool_size = MB, as_phases = [(InitAllocator, []), (OpenAllocator, listed 0)]\<rparr>"

definition create_and_find_region :: alloc_scenario where
  "create_and_find_region = create_allocator MB
     [AllocCall (CreateRegion (str ''my-index'') 4096),
      created (\<lambda>handle. rh_name handle = str ''my-index''),
      created (\<lambda>handle. rh_size handle = 4096),
      AllocCall (FindRegion (str ''my-index'')),
      AllocAssert (\<lambda>rs. case rs of
        Found (Inr found) # Created (Inr handle) # _ \<Rightarrow> rh_offset found = rh_offset handle \<and> rh_size found = 4096
      | _ \<Rightarrow> False)]"

definition create_multiple_regions :: alloc_scenario where
  "create_multiple_regions = create_allocator MB
     ([AllocCall (CreateRegion (str ''region-a'') 1024),
       AllocCall (CreateRegion (str ''region-b'') 2048),
       AllocCall (CreateRegion (str ''region-c'') 512),
       AllocAssert (\<lambda>rs. case rs of
         Created (Inr r3) # Created (Inr r2) # Created (Inr r1) # _ \<Rightarrow>
           rh_offset r2 \<ge> rh_offset r1 + rh_size r1 \<and> rh_offset r3 \<ge> rh_offset r2 + rh_size r2
       | _ \<Rightarrow> False)] @
      listed 3)"

definition duplicate_name_rejected :: alloc_scenario where
  "duplicate_name_rejected = create_allocator MB
     (call_ok (CreateRegion (str ''dup'') 1024) @
      call_fails is_name_exists (CreateRegion (str ''dup'') 2048))"

definition free_region_works :: alloc_scenario where
  "free_region_works = create_allocator MB
     (call_ok (CreateRegion (str ''temp'') 1024) @ listed 1 @
      call_ok (FreeRegion (str ''temp'')) @ listed 0 @
      call_fails is_not_found (FindRegion (str ''temp'')))"

definition free_nonexistent_errors :: alloc_scenario where
  "free_nonexistent_errors = create_allocator MB
     (call_fails is_not_found (FreeRegion (str ''ghost'')))"

definition out_of_space :: alloc_scenario where
  "out_of_space =
     (let catalog_overhead = CATALOG_HEADER_SIZE + MAX_REGIONS * CATALOG_ENTRY_SIZE;
          pool_size = catalog_overhead + 100
      in create_allocator pool_size (call_fails is_out_of_space (CreateRegion (str ''too-big'') 1000)))"

definition recovery_fixes_allocating_state :: alloc_scenario where
  "recovery_fixes_allocating_state =
     \<lparr>as_pool_size = MB,
      as_phases =
        [(InitAllocator, call_ok (CreateRegion (str ''good'') 1024)),
         (BackendOnly,
           [AllocCall (WriteEntry 1
             \<lparr>ce_state = Allocating, ce_name = str ''crashed'', ce_offset = 50000, ce_size = 2048, ce_epoch = 0\<rparr>)]),
         (OpenAllocator,
           fixed 1 @
           call_ok (FindRegion (str ''good'')) @
           call_fails (\<lambda>_. True) (FindRegion (str ''crashed'')))]\<rparr>"

definition recovery_fixes_freeing_state :: alloc_scenario where
  "recovery_fixes_freeing_state =
     \<lparr>as_pool_size = MB,
      as_phases =
        [(InitAllocator, call_ok (CreateRegion (str ''to-free'') 1024)),
         (BackendOnly, [AllocCall (StoreState 0 Freeing)]),
         (OpenAllocator, fixed 1 @ listed 0)]\<rparr>"

definition can_reuse_freed_slot :: alloc_scenario where
  "can_reuse_freed_slot = create_allocator MB
     (call_ok (CreateRegion (str ''first'') 1024) @
      call_ok (FreeRegion (str ''first'')) @
      [AllocCall (CreateRegion (str ''second'') 2048),
       created (\<lambda>handle. rh_name handle = str ''second''),
       created (\<lambda>handle. rh_slot handle = 0)])"

section \<open>All scenarios pass\<close>

definition allocator_tests :: "alloc_scenario list" where
  "allocator_tests =
     [init_and_open, create_and_find_region, create_multiple_regions, duplicate_name_rejected,
      free_region_works, free_nonexistent_errors, out_of_space, recovery_fixes_allocating_state,
      recovery_fixes_freeing_state, can_reuse_freed_slot]"

text \<open>
  Loops over the catalog that walk along the entries and count the index beside them, for the
  evaluation.
\<close>

fun find_from :: "usize \<Rightarrow> (catalog_entry \<Rightarrow> bool) \<Rightarrow> catalog_entry list \<Rightarrow> (usize \<times> catalog_entry) option" where
  "find_from i P [] = None"
| "find_from i P (e # es) = (if P e then Some (i, e) else find_from (i + 1) P es)"

fun number :: "usize \<Rightarrow> catalog_entry list \<Rightarrow> (usize \<times> catalog_entry) list" where
  "number i [] = []"
| "number i (e # es) = (i, e) # number (i + 1) es"

lemma find_from_number: "find_from i P es = find (\<lambda>(_, e). P e) (number i es)"
  by (induction i P es rule: find_from.induct) auto

lemma number_map: "number i es = map (\<lambda>j. (i + word_of_nat j, es ! j)) [0..<length es]"
proof (induction es arbitrary: i)
  case (Cons e es)
  have "[0..<length (e # es)] = 0 # map Suc [0..<length es]"
    by (simp add: upt_conv_Cons map_Suc_upt del: upt_Suc)
  then show ?case by (simp add: Cons.IH add.assoc comp_def)
qed simp

lemma find_map: "find P (map f xs) = map_option f (find (P \<circ> f) xs)"
  by (induction xs) auto

lemma slots_nat: "slots = map word_of_nat [0..<256]"
  by (simp add: word_range_def)

lemma number_slots:
  assumes "length (c_entries K) = 256"
  shows "number 0 (c_entries K) = map (\<lambda>i. (i, entry_at K i)) slots"
  unfolding number_map slots_nat assms map_map
  by (rule map_cong) (simp_all add: entry_at_def unsigned_of_nat take_bit_nat_eq_self)

lemma find_slots:
  assumes "length (c_entries K) = 256"
  shows "find_from 0 P (c_entries K) = map_option (\<lambda>i. (i, entry_at K i)) (find (\<lambda>i. P (entry_at K i)) slots)"
  by (simp only: find_from_number number_slots [OF assms] find_map) (simp add: comp_def)

lemma find_spec_code [code]:
  "find_spec name K =
     (if length (c_entries K) = 256 then
        case find_from 0 (named name) (c_entries K) of
          Some (i, e) \<Rightarrow> Inr (handle_of i e) | None \<Rightarrow> Inl (NotFound name)
      else case find (\<lambda>i. named name (entry_at K i)) slots of
          Some i \<Rightarrow> Inr (handle_of i (entry_at K i)) | None \<Rightarrow> Inl (NotFound name))"
  by (auto simp: find_spec_def find_slots split: option.split)

lemma free_slot_spec_code [code]:
  "free_slot_spec K =
     (if length (c_entries K) = 256 then
        map_option fst (find_from 0 (\<lambda>e. ce_state e = Free) (c_entries K))
      else find (\<lambda>i. ce_state (entry_at K i) = Free) slots)"
  by (simp add: free_slot_spec_def find_slots option.map_comp comp_def option.map_ident)

lemma list_spec_code [code]:
  "list_spec K =
     (if length (c_entries K) = 256 then
        map (\<lambda>(i, e). handle_of i e) (filter (\<lambda>(_, e). ce_state e = Active) (number 0 (c_entries K)))
      else map (\<lambda>i. handle_of i (entry_at K i)) (filter (\<lambda>i. ce_state (entry_at K i) = Active) slots))"
  by (simp add: list_spec_def number_slots filter_map comp_def)

lemma next_offset_spec_code [code]:
  "next_offset_spec K =
     (if length (c_entries K) = 256 then
        align64 (fold (\<lambda>e mx. if live e then max mx (entry_end e) else mx) (c_entries K) (c_data_start K))
      else align64 (max_end_spec K slots (c_data_start K)))"
proof -
  let ?F = "\<lambda>e mx. if live e then max mx (entry_end e) else mx"
  have "fold ?F (c_entries K) x = max_end_spec K slots x" if len: "length (c_entries K) = 256" for x
  proof -
    have "map snd (number 0 (c_entries K)) = c_entries K"
      by (simp only: number_map map_map comp_def snd_conv map_nth)
    then have "c_entries K = map (entry_at K) slots"
      by (simp only: number_slots [OF len] map_map comp_def snd_conv)
    then have "fold ?F (c_entries K) x = fold ?F (map (entry_at K) slots) x" by (rule arg_cong)
    then show ?thesis by (simp only: fold_map max_end_spec_def comp_def)
  qed
  then show ?thesis by (simp add: next_offset_spec_def)
qed

lemma init_and_open_ok: "alloc_scenario_ok init_and_open"
  by code_simp

lemma create_and_find_region_ok: "alloc_scenario_ok create_and_find_region"
  by code_simp

lemma create_multiple_regions_ok: "alloc_scenario_ok create_multiple_regions"
  by code_simp

lemma duplicate_name_rejected_ok: "alloc_scenario_ok duplicate_name_rejected"
  by code_simp

lemma free_region_works_ok: "alloc_scenario_ok free_region_works"
  by code_simp

lemma free_nonexistent_errors_ok: "alloc_scenario_ok free_nonexistent_errors"
  by code_simp

lemma out_of_space_ok: "alloc_scenario_ok out_of_space"
  by code_simp

lemma recovery_fixes_allocating_state_ok: "alloc_scenario_ok recovery_fixes_allocating_state"
  by code_simp

lemma recovery_fixes_freeing_state_ok: "alloc_scenario_ok recovery_fixes_freeing_state"
  by code_simp

lemma can_reuse_freed_slot_ok: "alloc_scenario_ok can_reuse_freed_slot"
  by code_simp

lemmas allocator_tests_ok =
     init_and_open_ok create_and_find_region_ok create_multiple_regions_ok
      duplicate_name_rejected_ok free_region_works_ok free_nonexistent_errors_ok out_of_space_ok
      recovery_fixes_allocating_state_ok recovery_fixes_freeing_state_ok can_reuse_freed_slot_ok

text \<open>
  C35: every unit test of the allocator passes when its pool file is new or empty and the
  operating system does not refuse to open it: regions are found, listed, freed and their
  entries used again, also after the file was closed and opened, and recovery repairs the
  entries that a test leaves half done.
\<close>
theorem allocator_tests_pass:
  assumes "sc \<in> set allocator_tests" "page_mapped S" "fresh_fds S"
    and "\<forall>f. files w path = Some f \<longrightarrow> f_len f = 0" "accepts S path (as_pool_size sc) (fds w)"
  shows "\<exists>w'. run_alloc_scenario S path sc w = Inr w'"
proof -
  have "list_all alloc_scenario_ok allocator_tests"
    by (simp add: allocator_tests_def allocator_tests_ok)
  then have "alloc_phases_spec (as_pool_size sc) (as_phases sc) blank_catalog" "16448 \<le> as_pool_size sc"
    using assms(1) by (simp_all add: list_all_iff alloc_scenario_ok_def)
  moreover have "catalog_file path (as_pool_size sc) blank_catalog w"
    using assms(4) by (simp add: catalog_file_def)
  ultimately show ?thesis
    unfolding run_alloc_scenario_def by (intro alloc_scenario_passes [OF _ _ assms(2,3) _ assms(5)])
qed

theorem allocator_tests_pass_witness:
  "\<exists>w'. run_alloc_scenario demo_os (str ''/p'') recovery_fixes_freeing_state demo_machine = Inr w'"
proof (rule allocator_tests_pass)
  show "recovery_fixes_freeing_state \<in> set allocator_tests" by (simp add: allocator_tests_def)
  have "utf8_valid (str ''/p'')" "0 \<notin> set (str ''/p'')"
    by (simp_all add: str_def utf8_valid_ascii)
  then show "accepts demo_os (str ''/p'') (as_pool_size recovery_fixes_freeing_state) (fds demo_machine)"
    by (simp add: accepts_def mmap_backend_open_def demo_os_def Let_def demo_machine_def
        recovery_fixes_freeing_state_def)
qed (simp_all add: demo_os_ok demo_machine_def)

end
