(* ===== verification/Spec2Isabelle.thy ===== *)
theory Spec2Isabelle
  imports LogProps CrashProps CoreProps AllocDurable AllocRace SystemProps DurableProps ConcProps HarnessProps Barrier
    RepoTests AllocTests
begin

text \<open>
  A model of Fence, a shared-memory log, and the theorems that make it correct.

  \<^bold>\<open>The program.\<close> A pool is a memory-mapped file: a 64-byte header, \<open>capacity\<close> record slots of
  64 bytes of metadata and a payload, and one 64-byte counter block per host. Hosts append
  records without locks: a slot is reserved with an atomic \<open>fetch_add\<close> on \<open>reserve_tail\<close>,
  written in state WRITING, flushed, marked COMMITTED, flushed again, and \<open>committed_tail\<close> is
  advanced over contiguous COMMITTED slots with a compare-and-swap loop. Recovery abandons
  the records a crash left unfinished; \<open>trim\<close> abandons a prefix. A second component, the
  region allocator, keeps a catalog of named regions in such a pool. The daemon \<open>fenced\<close>
  loads a configuration and initialises, inspects or recovers a pool. A test harness makes
  temporary pools, simulates writers that crash, and synchronises threads at a barrier.

  \<^bold>\<open>The code and the theories.\<close>
    \<^item> \<open>crates/fence-core\<close>: \<open>layout.rs\<close> in Layout, \<open>error.rs\<close> in Errors, \<open>checksum.rs\<close> in
      Checksum, \<open>persistence.rs\<close>, \<open>backend.rs\<close> and the methods of \<open>mmap_backend.rs\<close> in
      Backend. A program is a tree of backend calls (\<open>prog\<close>, theory Program) with its
      interpreter \<open>run\<close>, its single steps and \<open>crash_reach\<close>, the states a run can be
      interrupted in.
    \<^item> \<open>crates/fence-runtime\<close>: Metrics, Recovery, Compaction and Engine, one definition per
      function, in the order of the code.
    \<^item> \<open>crates/fence-alloc\<close>: Catalog and Allocator, with UTF-8 decoding in Utf8.
    \<^item> \<open>crates/fence-config\<close>: Config. \<open>MmapBackend::open\<close>, its \<open>Drop\<close> and \<open>FenceRuntime::open\<close>:
      Machine. \<open>crates/fenced\<close>: Fenced.
    \<^item> \<open>crates/fence-test-harness\<close>: Harness (\<open>crash_sim.rs\<close>, \<open>assertions.rs\<close>, \<open>pool.rs\<close>) and
      Barrier. The tests of \<open>engine.rs\<close>, \<open>pool.rs\<close> and \<open>fence-runtime/tests\<close> in RepoTests, those
      of \<open>allocator.rs\<close> in AllocTests; what a test is and how it is run in Scenario.

  \<^bold>\<open>Specifications and refinement.\<close> LogView gives the meaning of a region as an abstract log
  (slots, two tails, counters) and LogSpec what each operation does to it. Simulation holds the
  refinement relation between a program and a specification; Refine and ReadRefine prove it
  for every operation. LogInv has the invariant of the log and sessions (sequences of
  operations by any hosts), Lifecycle their order and the logs stuck at a gap, LogContract
  the two interfaces clients rely on as locales (a repair procedure, an append-only store),
  interpreted on the log. AllocSpec and AllocInv do the same for the allocator, whose
  recovery interprets the same repair interface.

  \<^bold>\<open>Crashes.\<close> CrashLogic is a program logic for interruption points; Crash uses it on append and
  recovery, AllocCrash on the creation and the freeing of regions, and AllocDurable adds the
  recovery after the crash. Reopen is about closing a pool file, opening it again and losing
  power in between. Durable follows what an append leaves on the media, Batch a sequence of
  appends, PowerLoss what remains of them when power is lost, and DurableProps states that
  an acknowledged batch survives a power loss, a new \<open>open\<close> and a recovery.

  \<^bold>\<open>Concurrent hosts.\<close> Interference is a logic for programs that run while others change the
  memory between two backend calls. ConcState has the shared state of appending and reading
  hosts with its invariant and ConcSteps their steps; ConcAppend, ConcTail and ConcRead prove
  the operations under interference, ConcSession the sessions of a host, ConcRun every schedule
  of all hosts, ConcFinal what holds when all have finished. ConcSerial derives a sequential
  order that explains all answers. ConcRace constructs the schedule in which a recovery abandons
  an acknowledged record, AllocRace the one in which two creations return the same bytes.
  ConcProps states the properties.

  LogProps, CrashProps, CoreProps, AllocProps, SystemProps, DurableProps, ConcProps, HarnessProps,
  RepoTests and AllocTests state the properties; Demo holds the small pool of their witnesses.

  \<^bold>\<open>Conventions.\<close> Integers are words of the width of the code; arithmetic wraps as in a build
  without overflow checks. Breaking the contract of an unsafe method (bounds, alignment, an
  ordering the atomic operation does not accept) is a fault, and so is a panic; the
  refinement theorems show that none happens. Every backend call is one atomic step on a
  coherent cache; orderings are checked for validity only, and concurrent hosts interleave at
  the grain of these calls. A flush writes back the cachelines of its range on x86-64 and
  nothing elsewhere, and any cacheline may be evicted between two calls. A crash keeps the
  media. The compare-and-swap loop of \<open>advance_committed_tail\<close> has fuel \<open>capacity + 1\<close>: the
  refinement theorems show that it is enough when operations do not overlap, and the theorems
  on concurrent hosts that it is enough under interference, since a round only fails when the
  tail has moved. The hasher \<open>crc32fast::Hasher\<close>, the TOML parser, \<open>NamedTempFile\<close>, the outcome
  of system calls and the environment are parameters; hypotheses about them are named
  (\<open>fresh_fds\<close>, \<open>page_mapped\<close>, \<open>accepts\<close>).

  \<^bold>\<open>Tests.\<close> A test is data: phases that open a pool file, calls, assertions on the results. It
  is run on the machine with every backend call, and on the specification, where it is
  evaluated; the refinement theorems carry the result over, for every hasher and every operating
  system that opens the file.

  \<^bold>\<open>Not modelled.\<close> Weak memory effects below the granularity of backend calls; the contents of
  a file that is mapped twice at once; concurrent trim, recovery and allocator calls, except for
  the two races above; clap's parsing of the command line; the threads of
  \<open>tests/concurrent.rs\<close> (the theorems of ConcProps hold for any number of hosts and every schedule),
  and the unit tests that call single functions on constants.
\<close>

end
